(* ===== verification/Go_Prelude.thy ===== *)
theory Go_Prelude
  imports
    Main
    "HOL-Library.Word"
    "HOL-Library.Sublist"
    "HOL-Library.Char_ord"
    "HOL-Library.List_Lexorder"
begin

text \<open>
  What the components share: Go's byte strings, errors and machine integers, and the parts of the
  packages \<open>strings\<close>, \<open>path\<close>, \<open>path/filepath\<close> and \<open>fmt\<close> that pgSafe calls.

  A Go \<open>string\<close> and a \<open>[]byte\<close> are both a list of bytes, \<open>char list\<close> here (a HOL \<open>char\<close> is one
  of 256 values). Go compares strings byte by byte, a proper prefix first: the order that
  \<open>Char_ord\<close> and \<open>List_Lexorder\<close> give to \<open>string\<close>. An operation that can fail returns
  \<open>goerr + 'a\<close>; a stateful one takes the state and returns the result with the new state.
\<close>

named_theorems go_string \<open>facts about the string and path functions\<close>
named_theorems go_fmt \<open>facts about number formatting and scanning\<close>

type_synonym bytes = string
type_synonym u8 = "8 word"
type_synonym u16 = "16 word"
type_synonym u32 = "32 word"
type_synonym u64 = "64 word"


section \<open>Errors\<close>

text \<open>
  An error value keeps what \<open>errors.Is\<close> can see of it, the sentinel at the end of its \<open>%w\<close> chain,
  and the text the wrapping call site puts in front. \<open>ErrOther\<close> stands for an error that
  wraps no sentinel.
\<close>

datatype sentinel =
    ErrNotExist | ErrExist | ErrCancelled | ErrEOF | ErrOther
  | ErrSegmentMismatch | ErrWALWait | ErrArchiveUnreachable | ErrClusterIdentityMismatch
  | ErrEmptyPolicy | ErrLockTimeout | ErrStandbyDisconnected | ErrChecksumMismatch

datatype goerr = GoErr (err_sentinel: sentinel) (err_text: string)

type_synonym 'a res = "goerr + 'a"
type_synonym ('s, 'a) op = "'s \<Rightarrow> 'a res \<times> 's"

definition errors_Is :: "goerr \<Rightarrow> sentinel \<Rightarrow> bool" where
  "errors_Is e t \<longleftrightarrow> err_sentinel e = t"

text \<open>\<open>errors.New(msg)\<close> and \<open>fmt.Errorf("msg: %w", e)\<close>.\<close>

definition errors_New :: "string \<Rightarrow> goerr" where
  "errors_New msg = GoErr ErrOther msg"

definition wrapErr :: "string \<Rightarrow> goerr \<Rightarrow> goerr" where
  "wrapErr msg e = GoErr (err_sentinel e) (msg @ '': '' @ err_text e)"

lemma errors_Is_wrapErr [simp]: "errors_Is (wrapErr m e) t = errors_Is e t"
  by (simp add: errors_Is_def wrapErr_def)

lemma errors_Is_New [simp]: "errors_Is (errors_New m) t \<longleftrightarrow> t = ErrOther"
  by (auto simp: errors_Is_def errors_New_def)

lemma errors_Is_GoErr [simp]: "errors_Is (GoErr t' m) t \<longleftrightarrow> t' = t"
  by (simp add: errors_Is_def)

lemma errors_Is_det: "errors_Is e t \<Longrightarrow> errors_Is e t' \<Longrightarrow> t = t'"
  by (simp add: errors_Is_def)


section \<open>Package strings\<close>

abbreviation strings_HasPrefix :: "string \<Rightarrow> string \<Rightarrow> bool" where
  "strings_HasPrefix s p \<equiv> prefix p s"

abbreviation strings_HasSuffix :: "string \<Rightarrow> string \<Rightarrow> bool" where
  "strings_HasSuffix s p \<equiv> suffix p s"

abbreviation strings_Contains :: "string \<Rightarrow> string \<Rightarrow> bool" where
  "strings_Contains s p \<equiv> sublist p s"

text \<open>\<open>strings.Index\<close> and \<open>bytes.Index\<close>: the first position, \<open>None\<close> for \<open>-1\<close>.\<close>

fun strings_Index :: "string \<Rightarrow> string \<Rightarrow> nat option" where
  "strings_Index [] p = (if p = [] then Some 0 else None)"
| "strings_Index (c # cs) p =
     (if prefix p (c # cs) then Some 0 else map_option Suc (strings_Index cs p))"

text \<open>\<open>strings.LastIndex\<close> of a one-byte string.\<close>

fun last_index :: "char \<Rightarrow> string \<Rightarrow> nat option" where
  "last_index c [] = None"
| "last_index c (x # xs) =
     (case last_index c xs of Some i \<Rightarrow> Some (Suc i) | None \<Rightarrow> if x = c then Some 0 else None)"

text \<open>\<open>strings.Split(s, sep)\<close> for a one-byte separator, and \<open>strings.Join\<close>.\<close>

fun strings_Split :: "char \<Rightarrow> string \<Rightarrow> string list" where
  "strings_Split c [] = [[]]"
| "strings_Split c (x # xs) =
     (if x = c then [] # strings_Split c xs
      else (case strings_Split c xs of w # ws \<Rightarrow> (x # w) # ws | [] \<Rightarrow> [[x]]))"

fun strings_Join :: "char \<Rightarrow> string list \<Rightarrow> string" where
  "strings_Join c [] = []"
| "strings_Join c [w] = w"
| "strings_Join c (w # v # ws) = w @ c # strings_Join c (v # ws)"

text \<open>\<open>strings.Cut(s, sep)\<close>: before, after, found. \<open>strings.SplitN(s, sep, 2)\<close> is its list form.\<close>

fun strings_Cut :: "char \<Rightarrow> string \<Rightarrow> string \<times> string \<times> bool" where
  "strings_Cut c [] = ([], [], False)"
| "strings_Cut c (x # xs) =
     (if x = c then ([], xs, True)
      else (case strings_Cut c xs of (a, b, f) \<Rightarrow> (x # a, b, f)))"

definition strings_SplitN2 :: "char \<Rightarrow> string \<Rightarrow> string list" where
  "strings_SplitN2 c s = (case strings_Cut c s of (a, b, f) \<Rightarrow> if f then [a, b] else [a])"

text \<open>\<open>strings.TrimRight(s, "c")\<close>.\<close>

definition strings_TrimRight :: "char \<Rightarrow> string \<Rightarrow> string" where
  "strings_TrimRight c s = rev (dropWhile (\<lambda>x. x = c) (rev s))"

lemma strings_Split_nonempty [simp]: "strings_Split c s \<noteq> []"
  by (cases s) (auto split: list.splits)

lemma strings_Join_Cons:
  "ws \<noteq> [] \<Longrightarrow> strings_Join c (w # ws) = w @ c # strings_Join c ws"
  by (cases ws) auto

lemma strings_Join_Split [simp, go_string]: "strings_Join c (strings_Split c s) = s"
proof (induction s)
  case (Cons x xs)
  obtain w ws where split: "strings_Split c xs = w # ws"
    by (cases "strings_Split c xs") auto
  with Cons show ?case
    by (cases ws) (auto simp: strings_Join_Cons)
qed simp

lemma strings_Split_no_sep [go_string]: "c \<notin> set s \<Longrightarrow> strings_Split c s = [s]"
  by (induction s) auto

lemma strings_Split_append [go_string]:
  "strings_Split c (a @ c # b) =
     strings_Split c a @ strings_Split c b"
proof (induction a)
  case (Cons x xs)
  obtain w ws where "strings_Split c xs = w # ws"
    by (cases "strings_Split c xs") auto
  with Cons show ?case by simp
qed simp

lemma strings_Split_parts: "w \<in> set (strings_Split c s) \<Longrightarrow> c \<notin> set w"
proof (induction s arbitrary: w)
  case (Cons x xs)
  obtain v vs where "strings_Split c xs = v # vs"
    by (cases "strings_Split c xs") auto
  with Cons show ?case by (auto split: if_splits)
qed simp

lemma strings_Split_Join [go_string]:
  "ws \<noteq> [] \<Longrightarrow> \<forall>w \<in> set ws. c \<notin> set w \<Longrightarrow> strings_Split c (strings_Join c ws) = ws"
proof (induction ws rule: strings_Join.induct)
  case (3 c w v ws)
  then show ?case by (simp add: strings_Split_append strings_Split_no_sep)
qed (auto simp: strings_Split_no_sep)

lemma strings_Cut_append [go_string]:
  "c \<notin> set a \<Longrightarrow> strings_Cut c (a @ c # b) = (a, b, True)"
  by (induction a) auto

lemma strings_Cut_None: "c \<notin> set s \<Longrightarrow> strings_Cut c s = (s, [], False)"
  by (induction s) auto

lemma strings_Cut_found:
  "strings_Cut c s = (a, b, True) \<Longrightarrow> s = a @ c # b \<and> c \<notin> set a"
  by (induction s arbitrary: a b) (auto split: if_splits prod.splits)

lemma strings_Cut_notfound:
  "strings_Cut c s = (a, b, False) \<Longrightarrow> a = s \<and> b = [] \<and> c \<notin> set s"
  by (induction s arbitrary: a b) (auto split: if_splits prod.splits)

lemma last_index_None: "last_index c s = None \<longleftrightarrow> c \<notin> set s"
  by (induction s) (auto split: option.splits)

lemma last_index_append [go_string]:
  "c \<notin> set b \<Longrightarrow> last_index c (a @ c # b) = Some (length a)"
proof (induction a)
  case Nil
  then have "last_index c b = None" by (simp add: last_index_None)
  then show ?case by simp
qed (simp split: option.splits)

lemma strings_Index_bound: "strings_Index s p = Some i \<Longrightarrow> i + length p \<le> length s"
  by (induction s p arbitrary: i rule: strings_Index.induct)
     (auto split: if_splits dest: prefix_length_le)


section \<open>Packages path and path/filepath (Unix)\<close>

text \<open>
  \<open>Clean\<close> drops empty and \<open>.\<close> components and resolves \<open>..\<close> against the component before it,
  keeping leading \<open>..\<close> of a relative path and dropping those of a rooted one.
\<close>

fun clean_push :: "bool \<Rightarrow> string list \<Rightarrow> string \<Rightarrow> string list" where
  "clean_push rooted st w =
     (if w = [] \<or> w = ''.'' then st
      else if w = ''..'' then
        (case st of
           v # st' \<Rightarrow> if v = ''..'' then w # st else st'
         | [] \<Rightarrow> if rooted then [] else [w])
      else w # st)"

definition path_Clean :: "string \<Rightarrow> string" where
  "path_Clean p =
     (if p = [] then ''.''
      else
        let rooted = (hd p = CHR ''/'');
            q = strings_Join (CHR ''/'') (rev (foldl (clean_push rooted) [] (strings_Split (CHR ''/'') p)))
        in if rooted then CHR ''/'' # q else if q = [] then ''.'' else q)"

definition path_Join :: "string list \<Rightarrow> string" where
  "path_Join ws =
     (let vs = filter (\<lambda>w. w \<noteq> []) ws
      in if vs = [] then [] else path_Clean (strings_Join (CHR ''/'') vs))"

definition path_Base :: "string \<Rightarrow> string" where
  "path_Base p =
     (if p = [] then ''.''
      else let q = strings_TrimRight (CHR ''/'') p
           in if q = [] then ''/'' else last (strings_Split (CHR ''/'') q))"

text \<open>\<open>Dir\<close>: everything up to the last slash, cleaned.\<close>

definition path_Dir :: "string \<Rightarrow> string" where
  "path_Dir p =
     (case last_index (CHR ''/'') p of
        None \<Rightarrow> ''.''
      | Some i \<Rightarrow> path_Clean (take (Suc i) p))"

definition filepath_IsAbs :: "string \<Rightarrow> bool" where
  "filepath_IsAbs p \<longleftrightarrow> prefix ''/'' p"

definition filepath_IsLocal :: "string \<Rightarrow> bool" where
  "filepath_IsLocal p \<longleftrightarrow>
     \<not> filepath_IsAbs p \<and> p \<noteq> [] \<and>
     (let hasDots = list_ex (\<lambda>w. w = ''.'' \<or> w = ''..'') (strings_Split (CHR ''/'') p);
          q = (if hasDots then path_Clean p else p)
      in q \<noteq> ''..'' \<and> \<not> prefix ''../'' q)"

text \<open>
  A clean relative path: what every storage key that pgSafe builds looks like. \<open>Clean\<close> leaves it
  alone and \<open>IsLocal\<close> accepts it.
\<close>

definition plain_comp :: "string \<Rightarrow> bool" where
  "plain_comp w \<longleftrightarrow> w \<noteq> [] \<and> w \<noteq> ''.'' \<and> w \<noteq> ''..''"

definition clean_rel :: "string \<Rightarrow> bool" where
  "clean_rel p \<longleftrightarrow> list_all plain_comp (strings_Split (CHR ''/'') p)"

definition clean_abs :: "string \<Rightarrow> bool" where
  "clean_abs p \<longleftrightarrow> (\<exists>r. p = CHR ''/'' # r \<and> clean_rel r)"

lemma clean_abs_code [code]:
  "clean_abs p \<longleftrightarrow> (case p of c # r \<Rightarrow> c = CHR ''/'' \<and> clean_rel r | [] \<Rightarrow> False)"
  by (cases p) (auto simp: clean_abs_def)

lemma foldl_clean_push:
  "list_all plain_comp ws \<Longrightarrow> foldl (clean_push r) st ws = rev ws @ st"
  by (induction ws arbitrary: st) (auto simp: plain_comp_def)

lemma clean_rel_nonempty [dest]: "clean_rel p \<Longrightarrow> p \<noteq> []"
  by (auto simp: clean_rel_def plain_comp_def)

lemma clean_rel_not_abs: "clean_rel p \<Longrightarrow> hd p \<noteq> CHR ''/''"
  by (cases p) (auto simp: clean_rel_def plain_comp_def)

lemma clean_rel_append [go_string]:
  "clean_rel (a @ CHR ''/'' # b) \<longleftrightarrow> clean_rel a \<and> clean_rel b"
  by (simp add: clean_rel_def strings_Split_append)

lemma clean_rel_single:
  "CHR ''/'' \<notin> set w \<Longrightarrow> clean_rel w \<longleftrightarrow> plain_comp w"
  by (simp add: clean_rel_def strings_Split_no_sep)

lemma path_Clean_rel [go_string]: "clean_rel p \<Longrightarrow> path_Clean p = p"
  using clean_rel_not_abs [of p] clean_rel_nonempty [of p]
  by (simp add: path_Clean_def Let_def foldl_clean_push clean_rel_def)

lemma path_Clean_abs [go_string]: "clean_abs p \<Longrightarrow> path_Clean p = p"
  by (auto simp: path_Clean_def Let_def foldl_clean_push clean_rel_def clean_abs_def)

lemma clean_abs_append [go_string]:
  "clean_abs a \<Longrightarrow> clean_rel b \<Longrightarrow> clean_abs (a @ CHR ''/'' # b)"
  using clean_rel_append by (fastforce simp: clean_abs_def)

lemma path_Join_rel [go_string]:
  "clean_rel a \<Longrightarrow> clean_rel b \<Longrightarrow> path_Join [a, b] = a @ CHR ''/'' # b"
  using clean_rel_nonempty
  by (auto simp: path_Join_def Let_def path_Clean_rel clean_rel_append)

lemma path_Join_abs [go_string]:
  "clean_abs a \<Longrightarrow> clean_rel b \<Longrightarrow> path_Join [a, b] = a @ CHR ''/'' # b"
proof -
  assume ab: "clean_abs a" "clean_rel b"
  then have "a \<noteq> []" "b \<noteq> []" by (auto simp: clean_abs_def)
  with ab show ?thesis by (simp add: path_Join_def Let_def path_Clean_abs clean_abs_append)
qed

lemma filepath_IsLocal_clean [go_string]: "clean_rel p \<Longrightarrow> filepath_IsLocal p"
proof -
  assume p: "clean_rel p"
  have ne: "p \<noteq> []" and hd: "hd p \<noteq> CHR ''/''"
    using p by (auto dest: clean_rel_not_abs)
  have comps: "list_all plain_comp (strings_Split (CHR ''/'') p)"
    using p by (simp add: clean_rel_def)
  then have nodots: "\<not> list_ex (\<lambda>w. w = ''.'' \<or> w = ''..'') (strings_Split (CHR ''/'') p)"
    by (auto simp: list_ex_iff list_all_iff plain_comp_def)
  have "p \<noteq> ''..''" and "\<not> prefix ''../'' p"
    using comps by (auto simp: plain_comp_def prefix_def)
  with ne hd nodots show ?thesis
    by (cases p) (auto simp: filepath_IsLocal_def filepath_IsAbs_def)
qed

lemma path_Base_no_slash [go_string]:
  "w \<noteq> [] \<Longrightarrow> CHR ''/'' \<notin> set w \<Longrightarrow> path_Base w = w"
proof -
  assume w: "w \<noteq> []" "CHR ''/'' \<notin> set w"
  then have "strings_TrimRight (CHR ''/'') w = w"
    by (cases w rule: rev_cases) (auto simp: strings_TrimRight_def)
  with w show ?thesis by (simp add: path_Base_def strings_Split_no_sep)
qed

lemma path_Base_append [go_string]:
  assumes "b \<noteq> []" "CHR ''/'' \<notin> set b"
  shows "path_Base (a @ CHR ''/'' # b) = b"
proof -
  from assms obtain b' x where b: "b = b' @ [x]" "x \<noteq> CHR ''/''"
    by (cases b rule: rev_cases) auto
  then have "strings_TrimRight (CHR ''/'') (a @ CHR ''/'' # b) = a @ CHR ''/'' # b"
    by (simp add: strings_TrimRight_def)
  with assms show ?thesis
    by (simp add: path_Base_def strings_Split_append strings_Split_no_sep)
qed

lemma last_Split_snoc: "x \<noteq> c \<Longrightarrow> last (strings_Split c (a @ [x])) \<noteq> []"
  by (induction a) (auto split: list.splits if_splits)

lemma path_Base_cases: "path_Base p = ''/'' \<or> path_Base p \<noteq> [] \<and> CHR ''/'' \<notin> set (path_Base p)"
proof -
  let ?q = "strings_TrimRight (CHR ''/'') p"
  have "last (strings_Split (CHR ''/'') ?q) \<noteq> []" if "?q \<noteq> []"
  proof -
    from that have "dropWhile (\<lambda>x. x = CHR ''/'') (rev p) \<noteq> []" by (simp add: strings_TrimRight_def)
    then obtain x r where xr: "dropWhile (\<lambda>x. x = CHR ''/'') (rev p) = x # r" "x \<noteq> CHR ''/''"
      by (cases "dropWhile (\<lambda>x. x = CHR ''/'') (rev p)") (auto simp: dropWhile_eq_Cons_conv)
    then have "?q = rev r @ [x]" by (simp add: strings_TrimRight_def)
    with xr(2) show ?thesis using last_Split_snoc by simp
  qed
  moreover have "CHR ''/'' \<notin> set (last (strings_Split (CHR ''/'') ?q))"
    by (rule strings_Split_parts [OF last_in_set]) simp
  ultimately show ?thesis by (simp add: path_Base_def Let_def)
qed

lemma path_Base_idem [simp]: "path_Base (path_Base p) = path_Base p"
proof (cases "path_Base p = ''/''")
  case True
  then show ?thesis by (simp add: path_Base_def strings_TrimRight_def)
next
  case False
  then show ?thesis using path_Base_cases [of p] path_Base_no_slash [of "path_Base p"] by simp
qed

lemma path_Clean_slash: "clean_abs d \<Longrightarrow> path_Clean (d @ ''/'') = d"
proof -
  assume "clean_abs d"
  then obtain r where r: "d = CHR ''/'' # r" "clean_rel r" by (auto simp: clean_abs_def)
  have "strings_Split (CHR ''/'') (r @ ''/'') = strings_Split (CHR ''/'') r @ [[]]"
    using strings_Split_append [of "CHR ''/''" r "[]"] by simp
  then show ?thesis using r by (simp add: path_Clean_def foldl_clean_push clean_rel_def)
qed

lemma path_Dir_append [go_string]:
  assumes "clean_abs d" "CHR ''/'' \<notin> set b"
  shows "path_Dir (d @ CHR ''/'' # b) = d"
  using assms last_index_append [of "CHR ''/''" b d] path_Clean_slash [of d] by (simp add: path_Dir_def)

text \<open>The last component of a clean path.\<close>

lemma clean_rel_last:
  assumes "clean_rel k"
  obtains (single) "CHR ''/'' \<notin> set k" "path_Base k = k"
    | (nested) a b where "k = a @ CHR ''/'' # b" "CHR ''/'' \<notin> set b" "clean_rel a" "plain_comp b" "path_Base k = b"
proof (cases "CHR ''/'' \<in> set k")
  case True
  then obtain a b where ab: "k = a @ CHR ''/'' # b" "CHR ''/'' \<notin> set b" by (meson split_list_last)
  then have "clean_rel a" "plain_comp b" using assms by (auto simp: clean_rel_append clean_rel_single)
  with ab nested show ?thesis by (auto simp: plain_comp_def path_Base_append)
next
  case False
  then show ?thesis using single assms by (auto simp: path_Base_no_slash)
qed

end
