(* ===== verification/Go_Fmt.thy ===== *)
theory Go_Fmt
  imports Go_Prelude
begin

text \<open>
  The verbs of \<open>fmt.Sprintf\<close> and \<open>fmt.Sscanf\<close> that pgSafe uses (\<open>%X\<close>, \<open>%08X\<close>, \<open>%d\<close>, and the
  scanning \<open>%x\<close>/\<open>%X\<close>), \<open>hex.EncodeToString\<close> and the fixed-width integers of \<open>encoding/binary\<close>.
  The lemmas are the round trips, the width of the fixed-width forms, and that fixed-width hex
  sorts as a string the way its value sorts as a number.
\<close>


section \<open>Digits\<close>

fun digits_of :: "nat \<Rightarrow> nat \<Rightarrow> nat list" where
  "digits_of b n = (if b < 2 \<or> n < b then [n] else digits_of b (n div b) @ [n mod b])"

declare digits_of.simps [simp del]

definition num_of :: "nat \<Rightarrow> nat list \<Rightarrow> nat" where
  "num_of b ds = foldl (\<lambda>a d. a * b + d) 0 ds"

lemma num_of_simps [simp]:
  "num_of b [] = 0" "num_of b (ds @ [d]) = num_of b ds * b + d"
  by (simp_all add: num_of_def)

lemma num_of_single [simp]: "num_of b [d] = d"
  by (simp add: num_of_def)

lemma num_of_digits_of: "num_of b (digits_of b n) = n"
proof (induction b n rule: digits_of.induct)
  case (1 b n)
  then show ?case
    by (subst digits_of.simps) (auto simp: num_of_def)
qed

lemma digits_of_nonempty [simp]: "digits_of b n \<noteq> []"
  by (subst digits_of.simps) simp

lemma digits_of_bound: "2 \<le> b \<Longrightarrow> d \<in> set (digits_of b n) \<Longrightarrow> d < b"
proof (induction b n rule: digits_of.induct)
  case (1 b n)
  then show ?case
    using digits_of.simps [of b n] by (auto split: if_splits)
qed

lemma digits_of_length_bound: "2 \<le> b \<Longrightarrow> 0 < w \<Longrightarrow> n < b ^ w \<Longrightarrow> length (digits_of b n) \<le> w"
proof (induction b n arbitrary: w rule: digits_of.induct)
  case (1 b n)
  show ?case
  proof (cases "n < b")
    case True
    with 1 show ?thesis by (subst digits_of.simps) auto
  next
    case False
    with 1 obtain v where w: "w = Suc v"
      by (cases w) auto
    have "0 < v"
      using False "1.prems" w by (cases v) simp_all
    note v = w this
    with 1 have "n div b < b ^ v"
      by (simp add: less_mult_imp_div_less mult.commute)
    with 1 False v have "length (digits_of b (n div b)) \<le> v" by auto
    with False 1 v show ?thesis by (subst digits_of.simps) simp
  qed
qed

lemma num_of_replicate_zero [simp]: "num_of b (replicate k 0 @ ds) = num_of b ds"
  by (induction k) (auto simp: num_of_def)

text \<open>Fixed width: exactly \<open>w\<close> digits, the low ones.\<close>

fun fixed_digits :: "nat \<Rightarrow> nat \<Rightarrow> nat \<Rightarrow> nat list" where
  "fixed_digits b 0 n = []"
| "fixed_digits b (Suc w) n = fixed_digits b w (n div b) @ [n mod b]"

lemma length_fixed_digits [simp]: "length (fixed_digits b w n) = w"
  by (induction w arbitrary: n) auto

lemma fixed_digits_bound: "0 < b \<Longrightarrow> d \<in> set (fixed_digits b w n) \<Longrightarrow> d < b"
  by (induction w arbitrary: n) auto

lemma num_of_fixed_digits: "0 < b \<Longrightarrow> n < b ^ w \<Longrightarrow> num_of b (fixed_digits b w n) = n"
  by (induction w arbitrary: n) (auto simp: less_mult_imp_div_less mult.commute)

lemma num_of_inj:
  assumes "length xs = length ys" "\<forall>d \<in> set xs \<union> set ys. d < b" "num_of b xs = num_of b ys"
  shows "xs = ys"
  using assms
proof (induction xs arbitrary: ys rule: rev_induct)
  case (snoc x xs)
  then obtain y ys' where ys: "ys = ys' @ [y]" by (cases ys rule: rev_cases) auto
  with snoc.prems have eq: "num_of b xs * b + x = num_of b ys' * b + y" and xy: "x < b" "y < b"
    by auto
  from eq xy have "x = y" by (metis mod_less mod_mult_self3)
  moreover from eq \<open>x = y\<close> xy have "num_of b xs = num_of b ys'" by auto
  ultimately show ?case using snoc ys by auto
qed simp

lemma padded_digits_fixed:
  assumes "2 \<le> b" "0 < w" "n < b ^ w"
  shows "replicate (w - length (digits_of b n)) 0 @ digits_of b n = fixed_digits b w n"
proof (rule num_of_inj [where b = b])
  show "length (replicate (w - length (digits_of b n)) 0 @ digits_of b n) = length (fixed_digits b w n)"
    using digits_of_length_bound [OF assms] by simp
  show "\<forall>d \<in> set (replicate (w - length (digits_of b n)) 0 @ digits_of b n) \<union> set (fixed_digits b w n). d < b"
    using assms by (auto dest: digits_of_bound fixed_digits_bound [rotated])
  show "num_of b (replicate (w - length (digits_of b n)) 0 @ digits_of b n) = num_of b (fixed_digits b w n)"
    using assms by (simp add: num_of_digits_of num_of_fixed_digits)
qed

text \<open>Lists of one length compare first by their heads' part, then by the last element.\<close>

lemma list_less_snoc:
  fixes x y :: "'a :: linorder"
  assumes "length xs = length ys"
  shows "xs @ [x] < ys @ [y] \<longleftrightarrow> xs < ys \<or> xs = ys \<and> x < y"
  using assms by (induction xs ys rule: list_induct2) auto

lemma list_le_append:
  fixes xs ys :: "'a :: linorder list"
  assumes "length xs = length ys"
  shows "xs @ us \<le> ys @ vs \<longleftrightarrow> xs < ys \<or> xs = ys \<and> us \<le> vs"
  using assms by (induction xs ys rule: list_induct2) auto

lemma list_less_append:
  fixes xs ys :: "'a :: linorder list"
  assumes "length xs = length ys"
  shows "xs @ us < ys @ vs \<longleftrightarrow> xs < ys \<or> xs = ys \<and> us < vs"
  using assms by (induction xs ys rule: list_induct2) auto

lemma fixed_digits_less:
  assumes "2 \<le> b" "m < b ^ w" "n < b ^ w"
  shows "fixed_digits b w m < fixed_digits b w n \<longleftrightarrow> m < n"
  using assms
proof (induction w arbitrary: m n)
  case (Suc w)
  have b: "0 < b" using Suc.prems by simp
  have lt: "m div b < b ^ w" "n div b < b ^ w"
    using Suc.prems by (simp_all add: less_mult_imp_div_less mult.commute)
  have eq: "fixed_digits b w (m div b) = fixed_digits b w (n div b) \<longleftrightarrow> m div b = n div b"
    using num_of_fixed_digits [OF b lt(1)] num_of_fixed_digits [OF b lt(2)] by metis
  have "m < n \<longleftrightarrow> m div b < n div b \<or> m div b = n div b \<and> m mod b < n mod b"
  proof -
    have "m = m div b * b + m mod b" "n = n div b * b + n mod b" by simp_all
    then show ?thesis
      by (metis add_less_cancel_left div_le_mono linorder_neqE_nat nat_less_le not_less)
  qed
  then show ?case
    using Suc.IH [OF Suc.prems(1) lt] eq by (simp add: list_less_snoc)
qed simp


section \<open>Hexadecimal and decimal text\<close>

definition hexU :: "nat \<Rightarrow> char" where
  "hexU d = ''0123456789ABCDEF'' ! d"

definition hexL :: "nat \<Rightarrow> char" where
  "hexL d = ''0123456789abcdef'' ! d"

definition hexval :: "char \<Rightarrow> nat option" where
  "hexval c =
     (let n = of_char c :: nat
      in if 48 \<le> n \<and> n \<le> 57 then Some (n - 48)
         else if 65 \<le> n \<and> n \<le> 70 then Some (n - 55)
         else if 97 \<le> n \<and> n \<le> 102 then Some (n - 87)
         else None)"

text \<open>\<open>%X\<close> of an unsigned value, \<open>%08X\<close> of a \<open>uint32\<close>, \<open>%d\<close> of an unsigned and of a signed value.\<close>

definition fmt_X :: "nat \<Rightarrow> string" where
  "fmt_X n = map hexU (digits_of 16 n)"

definition fmt_08X :: "u32 \<Rightarrow> string" where
  "fmt_08X w =
     (let s = fmt_X (unat w) in replicate (8 - length s) (CHR ''0'') @ s)"

definition fmt_d :: "nat \<Rightarrow> string" where
  "fmt_d n = map hexU (digits_of 10 n)"

definition fmt_int :: "int \<Rightarrow> string" where
  "fmt_int i = (if i < 0 then CHR ''-'' # fmt_d (nat (- i)) else fmt_d (nat i))"

text \<open>\<open>hex.EncodeToString\<close>: two lower-case digits per byte.\<close>

definition hex_EncodeToString :: "bytes \<Rightarrow> string" where
  "hex_EncodeToString bs =
     concat (map (\<lambda>c. let n = of_char c :: nat in [hexL (n div 16), hexL (n mod 16)]) bs)"

lemma less16_cases:
  "(d::nat) < 16 \<Longrightarrow> d = 0 \<or> d = 1 \<or> d = 2 \<or> d = 3 \<or> d = 4 \<or> d = 5 \<or> d = 6 \<or> d = 7 \<or>
     d = 8 \<or> d = 9 \<or> d = 10 \<or> d = 11 \<or> d = 12 \<or> d = 13 \<or> d = 14 \<or> d = 15"
  by arith

lemma hexval_hexU [simp]: "d < 16 \<Longrightarrow> hexval (hexU d) = Some d"
  by (drule less16_cases) (auto simp: hexU_def hexval_def)

lemma hexval_hexL [simp]: "d < 16 \<Longrightarrow> hexval (hexL d) = Some d"
  by (drule less16_cases) (auto simp: hexL_def hexval_def)

lemma hexU_inj: "d < 16 \<Longrightarrow> e < 16 \<Longrightarrow> hexU d = hexU e \<Longrightarrow> d = e"
  by (metis hexval_hexU option.inject)

lemma hexU_less: "d < 16 \<Longrightarrow> e < 16 \<Longrightarrow> hexU d < hexU e \<longleftrightarrow> d < e"
  by (drule less16_cases, drule less16_cases) (elim disjE; simp add: hexU_def less_char_def)

lemma hexU_not_slash [simp]: "d < 16 \<Longrightarrow> hexU d \<noteq> CHR ''/''"
  by (drule less16_cases) (auto simp: hexU_def)

lemma hexL_not_slash [simp]: "d < 16 \<Longrightarrow> hexL d \<noteq> CHR ''/''"
  by (drule less16_cases) (auto simp: hexL_def)

lemma hexL_not_dot [simp]: "d < 16 \<Longrightarrow> hexL d \<noteq> CHR ''.''"
  by (drule less16_cases) (auto simp: hexL_def)

lemma of_char_less_256: "(of_char c :: nat) < 256"
  by (metis of_char_mod_256 mod_less_divisor zero_less_numeral)

lemma length_hex_EncodeToString [simp]: "length (hex_EncodeToString bs) = 2 * length bs"
  by (induction bs) (auto simp: hex_EncodeToString_def Let_def)

lemma set_hex_EncodeToString:
  "c \<in> set (hex_EncodeToString bs) \<Longrightarrow> \<exists>d < 16. c = hexL d"
proof -
  assume "c \<in> set (hex_EncodeToString bs)"
  then obtain x where "c = hexL (of_char x div 16) \<or> c = hexL (of_char x mod 16)"
    by (auto simp: hex_EncodeToString_def Let_def)
  moreover have "(of_char x :: nat) div 16 < 16" using of_char_less_256 [of x] by (simp add: less_mult_imp_div_less)
  moreover have "(of_char x :: nat) mod 16 < 16" by simp
  ultimately show ?thesis by blast
qed

lemma hex_EncodeToString_inj: "hex_EncodeToString a = hex_EncodeToString b \<Longrightarrow> a = b"
proof (induction a arbitrary: b)
  case Nil
  then show ?case by (cases b) (auto simp: hex_EncodeToString_def Let_def)
next
  case (Cons x xs)
  then obtain y ys where b: "b = y # ys"
    by (cases b) (auto simp: hex_EncodeToString_def Let_def)
  have lt: "(of_char x :: nat) div 16 < 16" "(of_char y :: nat) div 16 < 16"
    using of_char_less_256 by (simp_all add: less_mult_imp_div_less)
  from Cons.prems b have
    "hexL (of_char x div 16) = hexL (of_char y div 16)" "hexL (of_char x mod 16) = hexL (of_char y mod 16)"
    "hex_EncodeToString xs = hex_EncodeToString ys"
    by (auto simp: hex_EncodeToString_def Let_def)
  then have "(of_char x :: nat) div 16 = of_char y div 16" "(of_char x :: nat) mod 16 = of_char y mod 16"
    using lt hexval_hexL by (metis option.inject, metis hexval_hexL mod_less_divisor option.inject zero_less_numeral)
  then have "(of_char x :: nat) = of_char y" by (metis div_mult_mod_eq)
  then have "x = y" by (simp add: of_char_eq_iff)
  with Cons.IH b \<open>hex_EncodeToString xs = hex_EncodeToString ys\<close> show ?case by simp
qed

lemma unat_lt2p_u32: "unat (w :: u32) < 2 ^ 32"
  by (rule order_less_le_trans [OF unsigned_less]) simp

lemma unat_lt2p_u64: "unat (v :: u64) < 2 ^ 64"
  by (rule order_less_le_trans [OF unsigned_less]) simp

lemma fmt_08X_fixed [go_fmt]: "fmt_08X w = map hexU (fixed_digits 16 8 (unat w))"
proof -
  have lt: "unat w < 16 ^ 8" using unat_lt2p_u32 [of w] by simp
  have "fmt_08X w = map hexU (replicate (8 - length (digits_of 16 (unat w))) 0 @ digits_of 16 (unat w))"
    by (simp add: fmt_08X_def fmt_X_def Let_def map_replicate_const hexU_def)
  also have "\<dots> = map hexU (fixed_digits 16 8 (unat w))"
    by (subst padded_digits_fixed) (use lt in auto)
  finally show ?thesis .
qed

lemma length_fmt_08X [simp]: "length (fmt_08X w) = 8"
  by (simp add: fmt_08X_fixed)

lemma set_fmt_08X: "c \<in> set (fmt_08X w) \<Longrightarrow> \<exists>d < 16. c = hexU d"
  by (auto simp: fmt_08X_fixed dest: fixed_digits_bound [rotated])

lemma fmt_08X_no_slash [simp]: "CHR ''/'' \<notin> set (fmt_08X w)"
  using set_fmt_08X hexU_not_slash by metis

lemma map_less_iff:
  fixes f :: "nat \<Rightarrow> char"
  assumes "length xs = length ys" "\<forall>d \<in> set xs \<union> set ys. d < b"
    and mono: "\<And>d e. d < b \<Longrightarrow> e < b \<Longrightarrow> f d < f e \<longleftrightarrow> d < e"
    and inj: "\<And>d e. d < b \<Longrightarrow> e < b \<Longrightarrow> f d = f e \<Longrightarrow> d = e"
  shows "map f xs < map f ys \<longleftrightarrow> xs < ys"
  using assms(1,2) by (induction xs ys rule: list_induct2) (auto simp: mono dest: inj)

lemma fmt_08X_less [go_fmt]: "fmt_08X v < fmt_08X w \<longleftrightarrow> v < w"
proof -
  have lt: "unat v < 16 ^ 8" "unat w < 16 ^ 8"
    using unat_lt2p_u32 [of v] unat_lt2p_u32 [of w] by simp_all
  have "fmt_08X v < fmt_08X w \<longleftrightarrow> fixed_digits 16 8 (unat v) < fixed_digits 16 8 (unat w)"
    unfolding fmt_08X_fixed
    by (rule map_less_iff [where b = 16])
       (auto simp: hexU_less dest: hexU_inj fixed_digits_bound [rotated])
  also have "\<dots> \<longleftrightarrow> v < w"
    using lt by (simp add: fixed_digits_less word_less_nat_alt)
  finally show ?thesis .
qed

lemma fmt_08X_inj [simp]: "fmt_08X v = fmt_08X w \<longleftrightarrow> v = w"
  using fmt_08X_less [of v w] fmt_08X_less [of w v] by (metis less_irrefl linorder_neqE)

lemma fmt_08X_le [go_fmt]: "fmt_08X v \<le> fmt_08X w \<longleftrightarrow> v \<le> w"
  by (simp add: le_less fmt_08X_less)


section \<open>Scanning: fmt.Sscanf with one \<open>%x\<close> (or \<open>%X\<close>) verb\<close>

text \<open>
  \<open>Sscanf\<close> skips space runes before the number (the runes of \<open>fmt.isSpace\<close>, here in UTF-8), stops
  with an error at a newline, reads the longest run of hex digits of either case, and ignores
  what follows it. No digit, a value past 64 bits or past the width of the target is an error.
\<close>

definition space_len :: "string \<Rightarrow> nat" where
  "space_len s =
     (let b = map (of_char :: char \<Rightarrow> nat) (take 3 s)
      in case b of
           [] \<Rightarrow> 0
         | x # r \<Rightarrow>
             if x = 9 \<or> x = 11 \<or> x = 12 \<or> x = 13 \<or> x = 32 then 1
             else (case r of
                 [] \<Rightarrow> 0
               | y # r' \<Rightarrow>
                   if x = 194 \<and> (y = 133 \<or> y = 160) then 2
                   else (case r' of
                       [] \<Rightarrow> 0
                     | z # _ \<Rightarrow>
                         if x = 225 \<and> y = 154 \<and> z = 128 \<or>
                            x = 226 \<and> y = 128 \<and> (128 \<le> z \<and> z \<le> 138 \<or> z = 168 \<or> z = 169 \<or> z = 175) \<or>
                            x = 226 \<and> y = 129 \<and> z = 159 \<or>
                            x = 227 \<and> y = 128 \<and> z = 128
                         then 3 else 0)))"

function skip_space :: "string \<Rightarrow> string option" where
  "skip_space s =
     (if s = [] then Some []
      else if hd s = CHR 0x0A then None
      else if space_len s = 0 then Some s
      else skip_space (drop (space_len s) s))"
  by pat_completeness auto
termination
  by (relation "measure length") auto

declare skip_space.simps [simp del]

definition is_hex_digit :: "char \<Rightarrow> bool" where
  "is_hex_digit c \<longleftrightarrow> hexval c \<noteq> None"

definition hex_num :: "string \<Rightarrow> nat" where
  "hex_num s = num_of 16 (map (\<lambda>c. case hexval c of Some d \<Rightarrow> d | None \<Rightarrow> 0) s)"

definition sscanf_x :: "nat \<Rightarrow> string \<Rightarrow> nat option" where
  "sscanf_x bits s =
     (case skip_space s of
        None \<Rightarrow> None
      | Some t \<Rightarrow>
          let ds = takeWhile is_hex_digit t
          in if ds = [] then None
             else if hex_num ds < 2 ^ 64 \<and> hex_num ds < 2 ^ bits then Some (hex_num ds)
             else None)"

lemma is_hex_digit_hexU [simp]: "d < 16 \<Longrightarrow> is_hex_digit (hexU d)"
  by (simp add: is_hex_digit_def)

lemma hexval_range: "hexval c = Some d \<Longrightarrow> d < 16 \<and> 48 \<le> (of_char c :: nat) \<and> (of_char c :: nat) \<le> 102"
  by (auto simp: hexval_def Let_def split: if_splits)

lemma space_len_hex: "is_hex_digit c \<Longrightarrow> space_len (c # s) = 0"
proof -
  assume "is_hex_digit c"
  then obtain d where "hexval c = Some d" by (auto simp: is_hex_digit_def)
  then have "48 \<le> (of_char c :: nat)" "(of_char c :: nat) \<le> 102"
    by (auto dest: hexval_range)
  then show ?thesis by (auto simp: space_len_def Let_def split: list.splits)
qed

lemma skip_space_hex: "is_hex_digit c \<Longrightarrow> skip_space (c # s) = Some (c # s)"
proof -
  assume c: "is_hex_digit c"
  then have "c \<noteq> CHR 0x0A" by (auto simp: is_hex_digit_def hexval_def)
  with c show ?thesis by (subst skip_space.simps) (simp add: space_len_hex)
qed

lemma hex_num_map_hexU: "\<forall>d \<in> set ds. d < 16 \<Longrightarrow> hex_num (map hexU ds) = num_of 16 ds"
  by (simp add: hex_num_def comp_def cong: map_cong)

lemma sscanf_x_map_hexU:
  assumes "ds \<noteq> []" "\<forall>d \<in> set ds. d < 16" "num_of 16 ds < 2 ^ bits" "bits \<le> 64"
  shows "sscanf_x bits (map hexU ds) = Some (num_of 16 ds)"
proof -
  from assms(1) obtain e es where ds: "ds = e # es" by (cases ds) auto
  have sk: "skip_space (map hexU ds) = Some (map hexU ds)"
    using assms(2) ds by (simp add: skip_space_hex)
  have tw: "takeWhile is_hex_digit (map hexU ds) = map hexU ds"
    using assms(2) by (simp add: takeWhile_eq_all_conv)
  have "num_of 16 ds < 2 ^ 64"
    using assms(3,4) by (meson one_le_numeral order_less_le_trans power_increasing)
  then show ?thesis
    using assms unfolding sscanf_x_def sk option.case Let_def tw by (simp add: hex_num_map_hexU)
qed

lemma sscanf_x_fmt_X [go_fmt]: "n < 2 ^ bits \<Longrightarrow> bits \<le> 64 \<Longrightarrow> sscanf_x bits (fmt_X n) = Some n"
  unfolding fmt_X_def
  by (subst sscanf_x_map_hexU) (auto simp: num_of_digits_of dest: digits_of_bound [rotated])

lemma sscanf_x_fmt_08X [go_fmt]: "sscanf_x 32 (fmt_08X w) = Some (unat w)"
proof -
  have lt: "unat w < 16 ^ 8" using unat_lt2p_u32 [of w] by simp
  show ?thesis
    unfolding fmt_08X_fixed
    by (subst sscanf_x_map_hexU)
       (use lt in \<open>auto simp: num_of_fixed_digits simp flip: length_greater_0_conv
                        dest: fixed_digits_bound [rotated]\<close>)
qed

lemma sscanf_x_bound: "sscanf_x bits s = Some n \<Longrightarrow> n < 2 ^ bits \<and> n < 2 ^ 64"
  by (auto simp: sscanf_x_def Let_def split: option.splits if_splits)


section \<open>encoding/binary\<close>

definition be_bytes :: "nat \<Rightarrow> nat \<Rightarrow> bytes" where
  "be_bytes k n = map char_of (fixed_digits 256 k n)"

definition be_num :: "bytes \<Rightarrow> nat" where
  "be_num bs = num_of 256 (map of_char bs)"

definition BigEndian_PutUint32 :: "u32 \<Rightarrow> bytes" where
  "BigEndian_PutUint32 w = be_bytes 4 (unat w)"

definition BigEndian_Uint32 :: "bytes \<Rightarrow> u32" where
  "BigEndian_Uint32 bs = of_nat (be_num bs)"

definition BigEndian_PutUint64 :: "u64 \<Rightarrow> bytes" where
  "BigEndian_PutUint64 w = be_bytes 8 (unat w)"

definition BigEndian_Uint64 :: "bytes \<Rightarrow> u64" where
  "BigEndian_Uint64 bs = of_nat (be_num bs)"

definition LittleEndian_PutUint32 :: "u32 \<Rightarrow> bytes" where
  "LittleEndian_PutUint32 w = rev (be_bytes 4 (unat w))"

definition LittleEndian_Uint32 :: "bytes \<Rightarrow> u32" where
  "LittleEndian_Uint32 bs = of_nat (be_num (rev bs))"

definition LittleEndian_Uint16 :: "bytes \<Rightarrow> u16" where
  "LittleEndian_Uint16 bs = of_nat (be_num (rev bs))"

lemma length_be_bytes [simp]: "length (be_bytes k n) = k"
  by (simp add: be_bytes_def)

lemma be_num_be_bytes: "n < 256 ^ k \<Longrightarrow> be_num (be_bytes k n) = n"
proof -
  assume n: "n < 256 ^ k"
  have "map of_char (map char_of (fixed_digits 256 k n) :: char list) = fixed_digits 256 k n"
    by (auto intro!: map_idI dest: fixed_digits_bound [rotated])
  with n show ?thesis by (simp add: be_num_def be_bytes_def num_of_fixed_digits)
qed

lemma binary_round_trips [simp, go_fmt]:
  "BigEndian_Uint32 (BigEndian_PutUint32 w) = w"
  "BigEndian_Uint64 (BigEndian_PutUint64 v) = v"
  "LittleEndian_Uint32 (LittleEndian_PutUint32 w) = w"
  using unat_lt2p_u32 [of w] unat_lt2p_u64 [of v]
  by (simp_all add: BigEndian_Uint32_def BigEndian_PutUint32_def BigEndian_Uint64_def
      BigEndian_PutUint64_def LittleEndian_Uint32_def LittleEndian_PutUint32_def be_num_be_bytes)

lemma binary_lengths [simp]:
  "length (BigEndian_PutUint32 w) = 4" "length (BigEndian_PutUint64 v) = 8"
  "length (LittleEndian_PutUint32 w) = 4"
  by (simp_all add: BigEndian_PutUint32_def BigEndian_PutUint64_def LittleEndian_PutUint32_def)

text \<open>\<open>io.ReadFull(r, buf)\<close>: exactly \<open>n\<close> bytes and the rest of the stream, or an error.\<close>

definition io_ReadFull :: "nat \<Rightarrow> bytes \<Rightarrow> (bytes \<times> bytes) res" where
  "io_ReadFull n r =
     (if n \<le> length r then Inr (take n r, drop n r)
      else Inl (GoErr ErrEOF ''unexpected EOF''))"

lemma io_ReadFull_append [simp]:
  "n = length a \<Longrightarrow> io_ReadFull n (a @ b) = Inr (a, b)"
  by (simp add: io_ReadFull_def)

end
