(* ===== verification/Go_Time.thy ===== *)
theory Go_Time
  imports Go_Fmt
begin

text \<open>
  Package \<open>time\<close>. An instant is the number of nanoseconds since Go's zero time, January 1 of year 1,
  00:00 UTC, so \<open>IsZero\<close> is equality with 0; a \<open>Duration\<close> is a number of nanoseconds. The civil date
  is the proleptic Gregorian calendar, computed from years that start in March so that the leap
  day is the last of its year. The main facts are that the civil fields grow lexicographically
  with the day number and that the backup-ID layout \<open>20060102T150405\<close> therefore sorts as text the
  way it sorts in time.
\<close>

type_synonym gotime = int
type_synonym duration = int

definition time_Second :: duration where "time_Second = 1000000000"
definition time_Minute :: duration where "time_Minute = 60 * time_Second"
definition time_Hour :: duration where "time_Hour = 3600 * time_Second"

text \<open>\<open>Time.Sub\<close> saturates at the range of a \<open>Duration\<close>.\<close>

definition time_Sub :: "gotime \<Rightarrow> gotime \<Rightarrow> duration" where
  "time_Sub t u = max (- (2 ^ 63)) (min (2 ^ 63 - 1) (t - u))"

definition IsZero :: "gotime \<Rightarrow> bool" where
  "IsZero t \<longleftrightarrow> t = 0"


section \<open>The civil date of a day number\<close>

text \<open>
  Greedy decomposition of the day of a 400-year era: centuries (the last one takes the era's leap
  day), four-year groups, years (the last one takes the leap day), day of the year.
\<close>

definition era_parts :: "int \<Rightarrow> int \<times> int \<times> int \<times> int" where
  "era_parts doe =
     (let c = min 3 (doe div 36524); r1 = doe - 36524 * c;
          q = r1 div 1461; r2 = r1 - 1461 * q;
          a = min 3 (r2 div 365)
      in (c, q, a, r2 - 365 * a))"

text \<open>March-based year, month (0 is March) and day of the month (from 1) of day \<open>d\<close>, where day 0
  is January 1 of year 1.\<close>

definition march_date :: "int \<Rightarrow> int \<times> int \<times> int" where
  "march_date d =
     (let z = d + 306
      in case era_parts (z mod 146097) of
           (c, q, a, doy) \<Rightarrow>
             let mp = (5 * doy + 2) div 153
             in (400 * (z div 146097) + 100 * c + 4 * q + a, mp, doy - (153 * mp + 2) div 5 + 1))"

definition civil_date :: "int \<Rightarrow> int \<times> int \<times> int" where
  "civil_date d =
     (case march_date d of
        (y, mp, dd) \<Rightarrow> if mp < 10 then (y, mp + 3, dd) else (y + 1, mp - 9, dd))"

definition day_number :: "gotime \<Rightarrow> int" where
  "day_number t = t div (86400 * time_Second)"

definition second_of_day :: "gotime \<Rightarrow> int" where
  "second_of_day t = (t div time_Second) mod 86400"

definition Year :: "gotime \<Rightarrow> int" where
  "Year t = (case civil_date (day_number t) of (y, m, d) \<Rightarrow> y)"

definition Month :: "gotime \<Rightarrow> int" where
  "Month t = (case civil_date (day_number t) of (y, m, d) \<Rightarrow> m)"

definition Day :: "gotime \<Rightarrow> int" where
  "Day t = (case civil_date (day_number t) of (y, m, d) \<Rightarrow> d)"

text \<open>\<open>Weekday\<close> with Sunday as 0: January 1 of year 1 was a Monday.\<close>

definition Weekday_of_day :: "int \<Rightarrow> int" where
  "Weekday_of_day d = (d + 1) mod 7"


section \<open>Formatting\<close>

text \<open>\<open>appendInt\<close> of package \<open>time\<close>: zero-padded to a width, sign in front.\<close>

definition pad_d :: "nat \<Rightarrow> nat \<Rightarrow> string" where
  "pad_d w n = (let s = fmt_d n in replicate (w - length s) (CHR ''0'') @ s)"

definition appendInt :: "nat \<Rightarrow> int \<Rightarrow> string" where
  "appendInt w x = (if x < 0 then CHR ''-'' # pad_d w (nat (- x)) else pad_d w (nat x))"

definition clock_fields :: "gotime \<Rightarrow> int \<times> int \<times> int" where
  "clock_fields t =
     (let s = second_of_day t in (s div 3600, (s mod 3600) div 60, s mod 60))"

text \<open>Layouts \<open>20060102T150405\<close>, \<open>2006-01-02 15:04:05 GMT\<close> and \<open>time.RFC3339\<close> (UTC).\<close>

definition format_backup_ts :: "gotime \<Rightarrow> string" where
  "format_backup_ts t =
     (case civil_date (day_number t) of
        (y, mo, d) \<Rightarrow>
          (case clock_fields t of
             (h, mi, s) \<Rightarrow>
               appendInt 4 y @ appendInt 2 mo @ appendInt 2 d @ ''T'' @
               appendInt 2 h @ appendInt 2 mi @ appendInt 2 s))"

definition format_gmt :: "gotime \<Rightarrow> string" where
  "format_gmt t =
     (case civil_date (day_number t) of
        (y, mo, d) \<Rightarrow>
          (case clock_fields t of
             (h, mi, s) \<Rightarrow>
               appendInt 4 y @ ''-'' @ appendInt 2 mo @ ''-'' @ appendInt 2 d @ '' '' @
               appendInt 2 h @ '':'' @ appendInt 2 mi @ '':'' @ appendInt 2 s @ '' GMT''))"

definition format_rfc3339_utc :: "gotime \<Rightarrow> string" where
  "format_rfc3339_utc t =
     (case civil_date (day_number t) of
        (y, mo, d) \<Rightarrow>
          (case clock_fields t of
             (h, mi, s) \<Rightarrow>
               appendInt 4 y @ ''-'' @ appendInt 2 mo @ ''-'' @ appendInt 2 d @ ''T'' @
               appendInt 2 h @ '':'' @ appendInt 2 mi @ '':'' @ appendInt 2 s @ ''Z''))"


section \<open>The calendar grows with the day number\<close>

lemma greedy_step:
  fixes x y b k :: int
  assumes "x < y" "0 < b"
  shows "min k (x div b) < min k (y div b) \<or>
         min k (x div b) = min k (y div b) \<and> x - b * min k (x div b) < y - b * min k (y div b)"
proof -
  have "x div b \<le> y div b" using assms by (simp add: zdiv_mono1)
  then consider "min k (x div b) < min k (y div b)" | "min k (x div b) = min k (y div b)"
    by linarith
  then show ?thesis using assms by cases auto
qed

lemma greedy_step_div:
  fixes x y b :: int
  assumes "x < y" "0 < b"
  shows "x div b < y div b \<or> x div b = y div b \<and> x - b * (x div b) < y - b * (y div b)"
proof -
  have "x div b \<le> y div b" using assms by (simp add: zdiv_mono1)
  then show ?thesis using assms by auto
qed

lemma era_parts_range:
  assumes "0 \<le> doe" "doe < 146097" "era_parts doe = (c, q, a, r)"
  shows "0 \<le> c \<and> c \<le> 3 \<and> 0 \<le> q \<and> q \<le> 24 \<and> 0 \<le> a \<and> a \<le> 3 \<and> 0 \<le> r \<and> r \<le> 365"
proof -
  define r1 where "r1 = doe - 36524 * min 3 (doe div 36524)"
  define r2 where "r2 = r1 - 1461 * (r1 div 1461)"
  have r1: "0 \<le> r1" "r1 \<le> 36524" using assms(1,2) unfolding r1_def by (auto simp: min_def)
  have r2: "0 \<le> r2" "r2 < 1461" unfolding r2_def by (simp_all add: minus_mult_div_eq_mod)
  have parts: "c = min 3 (doe div 36524)" "q = r1 div 1461" "a = min 3 (r2 div 365)" "r = r2 - 365 * a"
    using assms(3) by (auto simp: era_parts_def Let_def r1_def r2_def)
  have "0 \<le> c" "c \<le> 3" using assms(1) parts by (auto simp: pos_imp_zdiv_nonneg_iff)
  moreover have "0 \<le> q" "q \<le> 24" using r1 parts by (auto simp: pos_imp_zdiv_nonneg_iff)
  moreover have "0 \<le> a" "a \<le> 3" using r2 parts by (auto simp: pos_imp_zdiv_nonneg_iff)
  moreover have "0 \<le> r" "r \<le> 365" using r2 parts by (auto simp: min_def)
  ultimately show ?thesis by blast
qed

lemma era_parts_mono:
  assumes "x < y" and x: "era_parts x = (c, q, a, r)" and y: "era_parts y = (c', q', a', r')"
    and "0 \<le> x" "y < 146097"
  shows "100 * c + 4 * q + a < 100 * c' + 4 * q' + a' \<or>
         100 * c + 4 * q + a = 100 * c' + 4 * q' + a' \<and> r < r'"
proof -
  have rx: "0 \<le> c \<and> c \<le> 3 \<and> 0 \<le> q \<and> q \<le> 24 \<and> 0 \<le> a \<and> a \<le> 3"
    using era_parts_range [OF _ _ x] assms by auto
  have ry: "0 \<le> c' \<and> c' \<le> 3 \<and> 0 \<le> q' \<and> q' \<le> 24 \<and> 0 \<le> a' \<and> a' \<le> 3"
    using era_parts_range [OF _ _ y] assms by auto
  define x1 y1 where "x1 = x - 36524 * c" and "y1 = y - 36524 * c'"
  define x2 y2 where "x2 = x1 - 1461 * q" and "y2 = y1 - 1461 * q'"
  have px: "c = min 3 (x div 36524)" "q = x1 div 1461" "a = min 3 (x2 div 365)" "r = x2 - 365 * a"
    using x by (auto simp: era_parts_def Let_def x1_def x2_def)
  have py: "c' = min 3 (y div 36524)" "q' = y1 div 1461" "a' = min 3 (y2 div 365)" "r' = y2 - 365 * a'"
    using y by (auto simp: era_parts_def Let_def y1_def y2_def)
  from greedy_step [OF \<open>x < y\<close>, of 36524 3] have "c < c' \<or> c = c' \<and> x1 < y1"
    unfolding x1_def y1_def px(1) py(1) by simp
  then consider "c < c'" | "c = c'" "x1 < y1" by blast
  then show ?thesis
  proof cases
    case 1
    with rx ry show ?thesis by auto
  next
    case 2
    from greedy_step_div [OF 2(2), of 1461] have "q < q' \<or> q = q' \<and> x2 < y2"
      unfolding x2_def y2_def px(2) py(2) by simp
    then consider "q < q'" | "q = q'" "x2 < y2" by blast
    then show ?thesis
    proof cases
      case 1
      with 2 rx ry show ?thesis by auto
    next
      case q: 2
      from greedy_step [OF q(2), of 365 3] have "a < a' \<or> a = a' \<and> r < r'"
        unfolding px(3,4) py(3,4) by simp
      with 2 q show ?thesis by auto
    qed
  qed
qed

lemma month_split_mono:
  fixes r r' :: int
  assumes "r < r'"
  shows "(5 * r + 2) div 153 < (5 * r' + 2) div 153 \<or>
         (5 * r + 2) div 153 = (5 * r' + 2) div 153 \<and>
         r - (153 * ((5 * r + 2) div 153) + 2) div 5 < r' - (153 * ((5 * r' + 2) div 153) + 2) div 5"
proof -
  have "(5 * r + 2) div 153 \<le> (5 * r' + 2) div 153"
    using assms by (intro zdiv_mono1) auto
  then show ?thesis using assms by auto
qed

lemma march_date_range:
  assumes "march_date d = (y, mp, dd)"
  shows "0 \<le> mp \<and> mp \<le> 11 \<and> 1 \<le> dd \<and> dd \<le> 31"
proof -
  obtain c q a r where e: "era_parts ((d + 306) mod 146097) = (c, q, a, r)"
    by (cases "era_parts ((d + 306) mod 146097)") auto
  have r: "0 \<le> r" "r \<le> 365"
    using era_parts_range [OF _ _ e] by auto
  have mp: "mp = (5 * r + 2) div 153" and dd: "dd = r - (153 * mp + 2) div 5 + 1"
    using assms e by (auto simp: march_date_def Let_def)
  have "0 \<le> mp" "mp \<le> 11" using mp r by auto
  moreover have "1 \<le> dd" "dd \<le> 31"
  proof -
    define u where "u = (153 * mp + 2) div 5"
    have u: "5 * u \<le> 153 * mp + 2" "153 * mp + 2 < 5 * u + 5" unfolding u_def by linarith+
    have m: "153 * mp \<le> 5 * r + 2" "5 * r + 2 < 153 * mp + 153" unfolding mp by linarith+
    have "dd = r - u + 1" using dd u_def by simp
    with u m show "1 \<le> dd" "dd \<le> 31" by linarith+
  qed
  ultimately show ?thesis by blast
qed

lemma march_date_mono:
  assumes "x < y" "march_date x = (Y, mp, dd)" "march_date y = (Y', mp', dd')"
  shows "Y < Y' \<or> Y = Y' \<and> (mp < mp' \<or> mp = mp' \<and> dd < dd')"
proof -
  obtain c q a r where ex: "era_parts ((x + 306) mod 146097) = (c, q, a, r)"
    by (cases "era_parts ((x + 306) mod 146097)") auto
  obtain c' q' a' r' where ey: "era_parts ((y + 306) mod 146097) = (c', q', a', r')"
    by (cases "era_parts ((y + 306) mod 146097)") auto
  have Y: "Y = 400 * ((x + 306) div 146097) + (100 * c + 4 * q + a)"
      "mp = (5 * r + 2) div 153" "dd = r - (153 * mp + 2) div 5 + 1"
    using assms(2) ex by (auto simp: march_date_def Let_def)
  have Y': "Y' = 400 * ((y + 306) div 146097) + (100 * c' + 4 * q' + a')"
      "mp' = (5 * r' + 2) div 153" "dd' = r' - (153 * mp' + 2) div 5 + 1"
    using assms(3) ey by (auto simp: march_date_def Let_def)
  have rx: "0 \<le> c \<and> c \<le> 3 \<and> 0 \<le> q \<and> q \<le> 24 \<and> 0 \<le> a \<and> a \<le> 3"
    using era_parts_range [OF _ _ ex] by auto
  have ry: "0 \<le> c' \<and> c' \<le> 3 \<and> 0 \<le> q' \<and> q' \<le> 24 \<and> 0 \<le> a' \<and> a' \<le> 3"
    using era_parts_range [OF _ _ ey] by auto
  have "(x + 306) div 146097 < (y + 306) div 146097 \<or>
        (x + 306) div 146097 = (y + 306) div 146097 \<and> (x + 306) mod 146097 < (y + 306) mod 146097"
    using greedy_step_div [of "x + 306" "y + 306" 146097] assms(1)
    by (simp add: minus_mult_div_eq_mod)
  then show ?thesis
  proof (elim disjE conjE)
    assume "(x + 306) div 146097 < (y + 306) div 146097"
    with rx ry Y(1) Y'(1) show ?thesis by linarith
  next
    assume same: "(x + 306) div 146097 = (y + 306) div 146097"
      and less: "(x + 306) mod 146097 < (y + 306) mod 146097"
    from era_parts_mono [OF less ex ey] consider
      "100 * c + 4 * q + a < 100 * c' + 4 * q' + a'"
      | "100 * c + 4 * q + a = 100 * c' + 4 * q' + a'" "r < r'"
      by auto
    then show ?thesis
    proof cases
      case 1
      with same Y(1) Y'(1) show ?thesis by linarith
    next
      case 2
      from month_split_mono [OF 2(2)] have
        "mp < mp' \<or> mp = mp' \<and> r - (153 * mp + 2) div 5 < r' - (153 * mp' + 2) div 5"
        unfolding Y(2) Y'(2) .
      then have "mp < mp' \<or> mp = mp' \<and> dd < dd'" unfolding Y(3) Y'(3) by linarith
      moreover have "Y = Y'" using same Y(1) Y'(1) 2(1) by linarith
      ultimately show ?thesis by blast
    qed
  qed
qed

lemma civil_date_range:
  assumes "civil_date d = (y, m, dd)"
  shows "1 \<le> m \<and> m \<le> 12 \<and> 1 \<le> dd \<and> dd \<le> 31"
proof -
  obtain Y mp D where md: "march_date d = (Y, mp, D)" by (cases "march_date d") auto
  from march_date_range [OF md] md assms show ?thesis
    by (auto simp: civil_date_def split: if_splits)
qed

lemma civil_date_mono:
  assumes "x < y" "civil_date x = (Y, m, d)" "civil_date y = (Y', m', d')"
  shows "Y < Y' \<or> Y = Y' \<and> (m < m' \<or> m = m' \<and> d < d')"
proof -
  obtain A mp D where x: "march_date x = (A, mp, D)" by (cases "march_date x") auto
  obtain A' mp' D' where y: "march_date y = (A', mp', D')" by (cases "march_date y") auto
  have rx: "0 \<le> mp \<and> mp \<le> 11" and ry: "0 \<le> mp' \<and> mp' \<le> 11"
    using march_date_range [OF x] march_date_range [OF y] by auto
  from march_date_mono [OF assms(1) x y] rx ry assms(2,3) x y show ?thesis
    by (auto simp: civil_date_def split: if_splits)
qed


section \<open>The backup-ID layout sorts chronologically\<close>

lemma pad_d_fixed: "0 < w \<Longrightarrow> n < 10 ^ w \<Longrightarrow> pad_d w n = map hexU (fixed_digits 10 w n)"
proof -
  assume w: "0 < w" "n < 10 ^ w"
  have "pad_d w n = map hexU (replicate (w - length (digits_of 10 n)) 0 @ digits_of 10 n)"
    by (simp add: pad_d_def fmt_d_def Let_def map_replicate_const hexU_def)
  also have "\<dots> = map hexU (fixed_digits 10 w n)"
    by (subst padded_digits_fixed) (use w in auto)
  finally show ?thesis .
qed

lemma hexU_inj10: "d < 10 \<Longrightarrow> e < 10 \<Longrightarrow> hexU d = hexU e \<Longrightarrow> d = e"
  by (rule hexU_inj) auto

lemma pad_d_less:
  assumes "0 < w" "m < 10 ^ w" "n < 10 ^ w"
  shows "pad_d w m < pad_d w n \<longleftrightarrow> m < n"
proof -
  have "pad_d w m < pad_d w n \<longleftrightarrow> fixed_digits 10 w m < fixed_digits 10 w n"
    unfolding pad_d_fixed [OF assms(1,2)] pad_d_fixed [OF assms(1,3)]
    by (rule map_less_iff [where b = 10])
       (auto simp: hexU_less dest: hexU_inj10 fixed_digits_bound [rotated])
  then show ?thesis using assms by (simp add: fixed_digits_less)
qed

definition fits :: "nat \<Rightarrow> int \<Rightarrow> bool" where
  "fits w x \<longleftrightarrow> 0 \<le> x \<and> x < 10 ^ w"

lemma length_appendInt: "0 < w \<Longrightarrow> fits w x \<Longrightarrow> length (appendInt w x) = w"
  by (auto simp: appendInt_def fits_def pad_d_fixed nat_less_iff)

lemma appendInt_less:
  assumes "0 < w" "fits w x" "fits w y"
  shows "appendInt w x < appendInt w y \<longleftrightarrow> x < y"
proof -
  have "nat x < 10 ^ w" "nat y < 10 ^ w"
    using assms by (auto simp: fits_def nat_less_iff)
  with assms show ?thesis
    by (auto simp: appendInt_def fits_def pad_d_less)
qed

lemma clock_fields_fits:
  assumes "clock_fields t = (h, m, s)"
  shows "fits 2 h \<and> fits 2 m \<and> fits 2 s"
proof -
  define x where "x = second_of_day t"
  have x: "0 \<le> x" "x < 86400" by (simp_all add: x_def second_of_day_def)
  have f: "h = x div 3600" "m = (x mod 3600) div 60" "s = x mod 60"
    using assms by (auto simp: clock_fields_def Let_def x_def)
  have "0 \<le> h" "h < 100" unfolding f using x by linarith+
  moreover have "0 \<le> m" "m < 100"
  proof -
    have "0 \<le> x mod 3600" "x mod 3600 < 3600" by simp_all
    then show "0 \<le> m" "m < 100" unfolding f by linarith+
  qed
  moreover have "0 \<le> s" "s < 60" unfolding f by simp_all
  ultimately show ?thesis by (simp add: fits_def)
qed

lemma civil_fields_fits:
  "civil_date d = (y, m, dd) \<Longrightarrow> fits 2 m \<and> fits 2 dd"
  using civil_date_range by (fastforce simp: fits_def)

lemma clock_fields_mono:
  assumes "second_of_day t < second_of_day u"
    and t: "clock_fields t = (h, m, s)" and u: "clock_fields u = (h', m', s')"
  shows "h < h' \<or> h = h' \<and> (m < m' \<or> m = m' \<and> s < s')"
proof -
  define a b where "a = second_of_day t" and "b = second_of_day u"
  have "a < b" using assms a_def b_def by simp
  have f: "h = a div 3600" "m = (a mod 3600) div 60" "s = a mod 60"
    using t by (auto simp: clock_fields_def Let_def a_def)
  have f': "h' = b div 3600" "m' = (b mod 3600) div 60" "s' = b mod 60"
    using u by (auto simp: clock_fields_def Let_def b_def)
  from greedy_step_div [OF \<open>a < b\<close>, of 3600]
  have "h < h' \<or> h = h' \<and> a mod 3600 < b mod 3600"
    unfolding f f' by (simp add: minus_mult_div_eq_mod)
  moreover have "m < m' \<or> m = m' \<and> s < s'" if "a mod 3600 < b mod 3600"
    using greedy_step_div [OF that, of 60] unfolding f f'
    by (simp add: minus_mult_div_eq_mod mod_mod_cancel)
  ultimately show ?thesis by blast
qed

lemma appendInt_eq: "x = y \<Longrightarrow> appendInt w x = appendInt w y"
  by simp

lemma fields_text_less:
  assumes "fits w x" "fits w y" "0 < w" "x < y \<or> x = y \<and> us < vs"
  shows "appendInt w x @ us < appendInt w y @ vs"
proof -
  have "length (appendInt w x) = length (appendInt w y)"
    using assms length_appendInt by metis
  then show ?thesis
    using assms appendInt_less [of w x y] by (auto simp: list_less_append)
qed

lemma second_split:
  assumes "t div time_Second < u div time_Second"
  shows "day_number t < day_number u \<or>
         day_number t = day_number u \<and> second_of_day t < second_of_day u"
proof -
  have d: "day_number v = (v div time_Second) div 86400" for v
    by (simp add: day_number_def time_Second_def zdiv_zmult2_eq mult.commute [of 86400])
  from greedy_step_div [OF assms, of 86400] show ?thesis
    unfolding d second_of_day_def by (simp add: minus_mult_div_eq_mod)
qed

text \<open>Two instants at least one wall-clock second apart get timestamps in the same order, in the
  years 0 to 9999 that the layout gives four digits.\<close>

lemma format_backup_ts_less:
  assumes "t div time_Second < u div time_Second" "fits 4 (Year t)" "fits 4 (Year u)"
  shows "format_backup_ts t < format_backup_ts u"
proof -
  obtain y m d where ct: "civil_date (day_number t) = (y, m, d)" by (cases "civil_date (day_number t)") auto
  obtain y' m' d' where cu: "civil_date (day_number u) = (y', m', d')" by (cases "civil_date (day_number u)") auto
  obtain h mi s where kt: "clock_fields t = (h, mi, s)" by (cases "clock_fields t") auto
  obtain h' mi' s' where ku: "clock_fields u = (h', mi', s')" by (cases "clock_fields u") auto
  have yr: "fits 4 y" "fits 4 y'" using assms(2,3) ct cu by (auto simp: Year_def)
  have fits: "fits 2 m" "fits 2 d" "fits 2 m'" "fits 2 d'"
    "fits 2 h" "fits 2 mi" "fits 2 s" "fits 2 h'" "fits 2 mi'" "fits 2 s'"
    using civil_fields_fits [OF ct] civil_fields_fits [OF cu]
      clock_fields_fits [OF kt] clock_fields_fits [OF ku] by auto
  have clock: "appendInt 2 h @ appendInt 2 mi @ appendInt 2 s < appendInt 2 h' @ appendInt 2 mi' @ appendInt 2 s'"
    if "second_of_day t < second_of_day u"
    using clock_fields_mono [OF that kt ku] fits
    by (auto intro!: fields_text_less simp: appendInt_less)
  from second_split [OF assms(1)] show ?thesis
  proof (elim disjE conjE)
    assume "day_number t < day_number u"
    from civil_date_mono [OF this ct cu] yr fits show ?thesis
      unfolding format_backup_ts_def ct cu kt ku prod.case
      by (intro fields_text_less) (auto intro!: fields_text_less)
  next
    assume day: "day_number t = day_number u" and "second_of_day t < second_of_day u"
    from clock [OF this(2)] day ct cu show ?thesis
      by (simp add: format_backup_ts_def kt ku list_less_append)
  qed
qed

lemma length_format_backup_ts: "fits 4 (Year t) \<Longrightarrow> length (format_backup_ts t) = 15"
proof -
  assume y4: "fits 4 (Year t)"
  obtain y m d where ct: "civil_date (day_number t) = (y, m, d)" by (cases "civil_date (day_number t)") auto
  obtain h mi s where kt: "clock_fields t = (h, mi, s)" by (cases "clock_fields t") auto
  have "fits 4 y" using y4 ct by (simp add: Year_def)
  then show ?thesis
    using civil_fields_fits [OF ct] clock_fields_fits [OF kt]
    by (simp add: format_backup_ts_def ct kt length_appendInt)
qed

lemma fits_digits:
  "0 < w \<Longrightarrow> fits w x \<Longrightarrow> c \<in> set (appendInt w x) \<Longrightarrow> \<exists>d < 10. c = hexU d"
  by (auto simp: appendInt_def fits_def pad_d_fixed nat_less_iff dest: fixed_digits_bound [rotated])

end
