(* ===== verification/Storage.thy ===== *)
theory Storage
  imports Go_Time Go_Fmt
begin

text \<open>
  \<open>internal/storage/storage.go\<close>: the \<open>Backend\<close> interface as a record of operations on an explicit
  state, and the contract its callers rely on as the locale \<open>storage_backend\<close>. The helpers every
  caller uses (the Put/Write/Close cycle, \<open>io.Copy\<close> into a writer) are defined here over an
  arbitrary backend, and what they do to the stored files is proved once, inside the locale.
\<close>


section \<open>The interface\<close>

record FileInfo =
  fi_Path :: string
  fi_Size :: int
  fi_ModTime :: gotime

text \<open>An open reader: the bytes it delivers, and the error it ends with instead of EOF, if any.\<close>

type_synonym reader = "bytes \<times> goerr option"

record ('s, 'w) Backend =
  b_Open :: "('s, unit) op"
  b_Put :: "string \<Rightarrow> ('s, 'w) op"
  b_Write :: "'w \<Rightarrow> bytes \<Rightarrow> ('s, unit) op"
  b_Close :: "'w \<Rightarrow> ('s, unit) op"
  b_Commit :: "string \<Rightarrow> string \<Rightarrow> ('s, unit) op"
  b_Get :: "string \<Rightarrow> ('s, reader) op"
  b_Stat :: "string \<Rightarrow> ('s, FileInfo) op"
  b_List :: "string \<Rightarrow> ('s, FileInfo list) op"
  b_Delete :: "string \<Rightarrow> ('s, unit) op"


section \<open>Helpers over a backend\<close>

text \<open>\<open>io.ReadAll\<close>: everything, or the reader's error.\<close>

definition io_ReadAll :: "reader \<Rightarrow> bytes res" where
  "io_ReadAll r = (case r of (d, None) \<Rightarrow> Inr d | (d, Some e) \<Rightarrow> Inl e)"

text \<open>\<open>io.Copy\<close> into a writer, in buffers of at most 32 KiB: the first write error or the reader's error.\<close>

fun split_chunks :: "nat \<Rightarrow> bytes \<Rightarrow> bytes list" where
  "split_chunks n d = (if d = [] \<or> n = 0 then [] else take n d # split_chunks n (drop n d))"

declare split_chunks.simps [simp del]

lemma concat_split_chunks: "0 < n \<Longrightarrow> concat (split_chunks n d) = d"
proof (induction n d rule: split_chunks.induct)
  case (1 n d)
  then show ?case by (subst split_chunks.simps) auto
qed

fun write_chunks :: "(bytes \<Rightarrow> ('s, unit) op) \<Rightarrow> bytes list \<Rightarrow> ('s, unit) op" where
  "write_chunks wr [] s = (Inr (), s)"
| "write_chunks wr (c # cs) s =
     (case wr c s of
        (Inl e, s') \<Rightarrow> (Inl e, s')
      | (Inr _, s') \<Rightarrow> write_chunks wr cs s')"

definition io_Copy :: "(bytes \<Rightarrow> ('s, unit) op) \<Rightarrow> reader \<Rightarrow> ('s, nat) op" where
  "io_Copy wr r s =
     (case write_chunks wr (split_chunks 32768 (fst r)) s of
        (Inl e, s') \<Rightarrow> (Inl e, s')
      | (Inr _, s') \<Rightarrow>
          (case snd r of
             Some e \<Rightarrow> (Inl e, s')
           | None \<Rightarrow> (Inr (length (fst r)), s')))"

text \<open>\<open>writeStorageFileAtomic\<close> (\<open>internal/backup/backup.go\<close>): put one in-memory file.\<close>

definition writeStorageFileAtomic :: "('s, 'w) Backend \<Rightarrow> string \<Rightarrow> bytes \<Rightarrow> ('s, unit) op" where
  "writeStorageFileAtomic B relPath d s =
     (case b_Put B relPath s of
        (Inl e, s1) \<Rightarrow> (Inl e, s1)
      | (Inr wc, s1) \<Rightarrow>
          (case b_Write B wc d s1 of
             (Inl e, s2) \<Rightarrow> (Inl e, snd (b_Close B wc s2))
           | (Inr _, s2) \<Rightarrow> b_Close B wc s2))"

text \<open>
  \<open>streamFileTo\<close> (\<open>internal/wal/archive/archive.go\<close>) from the moment the source is open. The arrow
  in its message is one UTF-8 character.
\<close>

definition arrow :: string where
  "arrow = [CHR '' '', CHR 0xE2, CHR 0x86, CHR 0x92, CHR '' '']"

definition stream_reader_to :: "('s, 'w) Backend \<Rightarrow> string \<Rightarrow> reader \<Rightarrow> string \<Rightarrow> ('s, unit) op" where
  "stream_reader_to B sourcePath src key s =
     (case b_Put B key s of
        (Inl e, s1) \<Rightarrow> (Inl (wrapErr (''wal/archive: Put '' @ key) e), s1)
      | (Inr wc, s1) \<Rightarrow>
          (case io_Copy (b_Write B wc) src s1 of
             (Inl e, s2) \<Rightarrow>
               (Inl (wrapErr (''wal/archive: copy '' @ sourcePath @ arrow @ key) e), snd (b_Close B wc s2))
           | (Inr _, s2) \<Rightarrow>
               (case b_Close B wc s2 of
                  (Inl e, s3) \<Rightarrow> (Inl (wrapErr (''wal/archive: close '' @ key) e), s3)
                | (Inr _, s3) \<Rightarrow> (Inr (), s3))))"


section \<open>Sinks\<close>

text \<open>
  A sink takes bytes in pieces: \<open>holds s h k d\<close> says that the handle \<open>h\<close> has taken \<open>d\<close> so far, in a
  context \<open>k\<close> that writing does not change. A failing write has taken a part. Writers of a backend
  and files of the local file system are both sinks, and \<open>io.Copy\<close> into a sink is proved once.
\<close>

locale byte_sink =
  fixes wr :: "'h \<Rightarrow> bytes \<Rightarrow> ('s, unit) op"
    and holds :: "'s \<Rightarrow> 'h \<Rightarrow> 'k \<Rightarrow> bytes \<Rightarrow> bool"
  assumes sink_ok: "holds s h k d \<Longrightarrow> wr h x s = (Inr u, s') \<Longrightarrow> holds s' h k (d @ x)"
    and sink_err: "holds s h k d \<Longrightarrow> wr h x s = (Inl e, s') \<Longrightarrow> \<exists>n. holds s' h k (d @ take n x)"
begin

lemma chunks_ok:
  "holds s h k d \<Longrightarrow> write_chunks (wr h) cs s = (Inr u, s') \<Longrightarrow> holds s' h k (d @ concat cs)"
proof (induction cs arbitrary: s d)
  case (Cons c cs)
  from Cons.prems(2) obtain v s1 where w: "wr h c s = (Inr v, s1)" and r: "write_chunks (wr h) cs s1 = (Inr u, s')"
    by (auto split: prod.splits sum.splits)
  from sink_ok [OF Cons.prems(1) w] Cons.IH [OF _ r, of "d @ c"] show ?case by simp
qed simp

lemma chunks_err:
  "holds s h k d \<Longrightarrow> write_chunks (wr h) cs s = (Inl e, s') \<Longrightarrow> \<exists>n. holds s' h k (d @ take n (concat cs))"
proof (induction cs arbitrary: s d)
  case (Cons c cs)
  obtain r s1 where w: "wr h c s = (r, s1)" by (cases "wr h c s")
  show ?case
  proof (cases r)
    case (Inl e')
    with w Cons.prems(2) have "s' = s1" by simp
    moreover obtain n where "holds s1 h k (d @ take n c)" using sink_err [OF Cons.prems(1) w [unfolded Inl]] by blast
    moreover have "take n c = take (min n (length c)) (concat (c # cs))" by (simp add: min_def)
    ultimately show ?thesis by metis
  next
    case (Inr v)
    with w Cons.prems(2) have r: "write_chunks (wr h) cs s1 = (Inl e, s')" by simp
    from Cons.IH [OF sink_ok [OF Cons.prems(1) w [unfolded Inr]] r] obtain n where
      "holds s' h k ((d @ c) @ take n (concat cs))" by blast
    moreover have "c @ take n (concat cs) = take (length c + n) (concat (c # cs))" by simp
    ultimately show ?thesis by (metis append_assoc)
  qed
qed simp

lemma copy_ok:
  assumes "holds s h k d" "io_Copy (wr h) src s = (Inr n, s')"
  shows "holds s' h k (d @ fst src) \<and> snd src = None \<and> n = length (fst src)"
proof -
  from assms(2) obtain u where "write_chunks (wr h) (split_chunks 32768 (fst src)) s = (Inr u, s')" "snd src = None"
    "n = length (fst src)"
    by (auto simp: io_Copy_def split: prod.splits sum.splits option.splits)
  with chunks_ok [OF assms(1), of "split_chunks 32768 (fst src)"] show ?thesis by (simp add: concat_split_chunks)
qed

lemma copy_err:
  assumes "holds s h k d" "io_Copy (wr h) src s = (Inl e, s')"
  shows "\<exists>n. holds s' h k (d @ take n (fst src))"
proof -
  obtain r s1 where 1: "write_chunks (wr h) (split_chunks 32768 (fst src)) s = (r, s1)"
    by (cases "write_chunks (wr h) (split_chunks 32768 (fst src)) s")
  have s1: "s' = s1" using assms(2) 1 by (auto simp: io_Copy_def split: sum.splits option.splits)
  show ?thesis
  proof (cases r)
    case (Inl e')
    with chunks_err [OF assms(1), of "split_chunks 32768 (fst src)"] 1 s1 show ?thesis by (simp add: concat_split_chunks)
  next
    case (Inr u)
    with chunks_ok [OF assms(1), of "split_chunks 32768 (fst src)"] 1 s1 have
      "holds s' h k (d @ take (length (fst src)) (fst src))" by (simp add: concat_split_chunks)
    then show ?thesis by blast
  qed
qed

end


section \<open>The contract\<close>

text \<open>
  \<open>view s k\<close> is the content a reader finds under the key \<open>k\<close>; \<open>key k\<close> says that \<open>k\<close> is a name
  callers may use; \<open>inv\<close> is what the backend keeps true of its own state; \<open>writing s w p d\<close> says
  that the writer \<open>w\<close> is open on \<open>p\<close> with \<open>d\<close> written so far. Nothing is visible before \<open>Close\<close>;
  a failed \<open>Close\<close> has published either everything that was written or nothing.
  \<open>listed p k\<close> says that \<open>List p\<close> is to report the key \<open>k\<close>.
\<close>

definition listed :: "string \<Rightarrow> string \<Rightarrow> bool" where
  "listed p k \<longleftrightarrow>
     (if p = [] then \<not> strings_HasPrefix k ''wal/'' \<and> k \<noteq> ''wal''
      else k = p \<or> strings_HasPrefix k (p @ ''/''))"

locale storage_backend =
  fixes B :: "('s, 'w) Backend"
    and view :: "'s \<Rightarrow> string \<Rightarrow> bytes option"
    and key :: "string \<Rightarrow> bool"
    and inv :: "'s \<Rightarrow> bool"
    and writing :: "'s \<Rightarrow> 'w \<Rightarrow> string \<Rightarrow> bytes \<Rightarrow> bool"
  assumes put_ok: "inv s \<Longrightarrow> key p \<Longrightarrow> b_Put B p s = (Inr w, s') \<Longrightarrow>
        inv s' \<and> view s' = view s \<and> writing s' w p []"
    and put_err: "inv s \<Longrightarrow> key p \<Longrightarrow> b_Put B p s = (Inl e, s') \<Longrightarrow> inv s' \<and> view s' = view s"
    and write_ok: "inv s \<Longrightarrow> writing s w p d \<Longrightarrow> b_Write B w x s = (Inr u, s') \<Longrightarrow>
        inv s' \<and> view s' = view s \<and> writing s' w p (d @ x)"
    and write_err: "inv s \<Longrightarrow> writing s w p d \<Longrightarrow> b_Write B w x s = (Inl e, s') \<Longrightarrow>
        inv s' \<and> view s' = view s \<and> (\<exists>k. writing s' w p (d @ take k x))"
    and close_ok: "inv s \<Longrightarrow> writing s w p d \<Longrightarrow> b_Close B w s = (Inr u, s') \<Longrightarrow>
        inv s' \<and> view s' = (view s)(p \<mapsto> d)"
    and close_err: "inv s \<Longrightarrow> writing s w p d \<Longrightarrow> b_Close B w s = (Inl e, s') \<Longrightarrow>
        inv s' \<and> (view s' = view s \<or> view s' = (view s)(p \<mapsto> d))"
    and commit_ok: "inv s \<Longrightarrow> view s t \<noteq> None \<Longrightarrow> key f \<Longrightarrow> t \<noteq> f \<Longrightarrow> b_Commit B t f s = (Inr u, s') \<Longrightarrow>
        inv s' \<and> view s f = None \<and> view s' = (view s)(t := None, f := view s t)"
    and commit_exists: "inv s \<Longrightarrow> view s t \<noteq> None \<Longrightarrow> key f \<Longrightarrow> t \<noteq> f \<Longrightarrow> b_Commit B t f s = (Inl e, s') \<Longrightarrow>
        errors_Is e ErrExist \<Longrightarrow> inv s' \<and> view s' = view s"
    and commit_err: "inv s \<Longrightarrow> view s t \<noteq> None \<Longrightarrow> key f \<Longrightarrow> t \<noteq> f \<Longrightarrow> b_Commit B t f s = (Inl e, s') \<Longrightarrow>
        inv s' \<and> (view s' = view s \<or>
          view s f = None \<and> view s' = (view s)(t := None, f := view s t))"
    and get: "inv s \<Longrightarrow> key p \<Longrightarrow> b_Get B p s = (r, s') \<Longrightarrow> inv s' \<and> view s' = view s"
    and get_data: "inv s \<Longrightarrow> key p \<Longrightarrow> b_Get B p s = (Inr (d, None), s') \<Longrightarrow> view s p = Some d"
    and get_missing: "inv s \<Longrightarrow> key p \<Longrightarrow> b_Get B p s = (Inl e, s') \<Longrightarrow> errors_Is e ErrNotExist \<Longrightarrow> view s p = None"
    and stat: "inv s \<Longrightarrow> key p \<Longrightarrow> b_Stat B p s = (rs, s') \<Longrightarrow> inv s' \<and> view s' = view s"
    and stat_missing: "inv s \<Longrightarrow> key p \<Longrightarrow> b_Stat B p s = (Inl e, s') \<Longrightarrow> errors_Is e ErrNotExist \<Longrightarrow> view s p = None"
    and list: "inv s \<Longrightarrow> p = [] \<or> key p \<Longrightarrow> b_List B p s = (rl, s') \<Longrightarrow> inv s' \<and> view s' = view s"
    and list_keys: "inv s \<Longrightarrow> p = [] \<or> key p \<Longrightarrow> b_List B p s = (Inr xs, s') \<Longrightarrow>
        distinct (map fi_Path xs) \<and> set (map fi_Path xs) = {k. view s k \<noteq> None \<and> listed p k} \<and>
        (\<forall>x \<in> set xs. \<forall>d. view s (fi_Path x) = Some d \<longrightarrow> fi_Size x = int (length d))"
    and list_missing: "inv s \<Longrightarrow> p = [] \<or> key p \<Longrightarrow> b_List B p s = (Inl e, s') \<Longrightarrow>
        errors_Is e ErrNotExist \<Longrightarrow> {k. view s k \<noteq> None \<and> listed p k} = {}"
    and delete_ok: "inv s \<Longrightarrow> key p \<Longrightarrow> b_Delete B p s = (Inr u, s') \<Longrightarrow> inv s' \<and> view s' = (view s)(p := None)"
    and delete_err: "inv s \<Longrightarrow> key p \<Longrightarrow> b_Delete B p s = (Inl e, s') \<Longrightarrow> inv s' \<and> view s' = view s"
    and view_key: "inv s \<Longrightarrow> view s k \<noteq> None \<Longrightarrow> key k"

sublocale storage_backend \<subseteq> sink: byte_sink "b_Write B"
  "\<lambda>s w (p, v) d. inv s \<and> view s = v \<and> writing s w p d"
proof (unfold_locales, goal_cases)
  case (1 s h k d x u s')
  then show ?case using write_ok [of s h "fst k" d x u s'] by (auto split: prod.splits)
next
  case (2 s h k d x e s')
  then show ?case using write_err [of s h "fst k" d x e s'] by (auto split: prod.splits)
qed

context storage_backend
begin

lemma close_view:
  assumes "inv s" "writing s w p d"
  shows "inv (snd (b_Close B w s)) \<and>
         (view (snd (b_Close B w s)) = view s \<or> view (snd (b_Close B w s)) = (view s)(p \<mapsto> d))"
proof (cases "b_Close B w s")
  case (Pair r s')
  then show ?thesis using close_ok [OF assms] close_err [OF assms] by (cases r) auto
qed

text \<open>A successful put stores exactly the data; a failed one leaves the key alone or holds a prefix.\<close>

lemma writeStorageFileAtomic_ok:
  assumes "inv s" "key p" "writeStorageFileAtomic B p d s = (Inr u, s')"
  shows "inv s' \<and> view s' = (view s)(p \<mapsto> d)"
proof -
  from assms(3) obtain w s1 where 1: "b_Put B p s = (Inr w, s1)"
    by (auto simp: writeStorageFileAtomic_def split: prod.splits sum.splits)
  with assms(3) obtain v s2 where 2: "b_Write B w d s1 = (Inr v, s2)" "b_Close B w s2 = (Inr u, s')"
    by (auto simp: writeStorageFileAtomic_def split: prod.splits sum.splits)
  note p = put_ok [OF assms(1,2) 1]
  note q = write_ok [OF _ _ 2(1), of p "[]"]
  from p q close_ok [OF _ _ 2(2), of p d] show ?thesis by auto
qed

lemma writeStorageFileAtomic_err:
  assumes "inv s" "key p" "writeStorageFileAtomic B p d s = (Inl e, s')"
  shows "inv s' \<and> (view s' = view s \<or> (\<exists>k. view s' = (view s)(p \<mapsto> take k d)))"
proof (cases "b_Put B p s")
  case (Pair r s1)
  show ?thesis
  proof (cases r)
    case (Inl e')
    with Pair assms put_err [OF assms(1,2)] show ?thesis by (auto simp: writeStorageFileAtomic_def)
  next
    case (Inr w)
    note p = put_ok [OF assms(1,2) Pair [unfolded Inr]]
    show ?thesis
    proof (cases "b_Write B w d s1")
      case (Pair r2 s2)
      show ?thesis
      proof (cases r2)
        case (Inl e2)
        with Pair have wr: "b_Write B w d s1 = (Inl e2, s2)" by simp
        from write_err [OF _ _ wr, of p "[]"] p obtain k where
          k: "inv s2" "view s2 = view s" "writing s2 w p (take k d)" by auto
        have "s' = snd (b_Close B w s2)"
          using assms(3) \<open>b_Put B p s = (r, s1)\<close> Inr wr by (simp add: writeStorageFileAtomic_def)
        with close_view [OF k(1,3)] k(2) show ?thesis by auto
      next
        case (Inr v)
        with Pair have wr: "b_Write B w d s1 = (Inr v, s2)" by simp
        have q: "inv s2" "view s2 = view s" "writing s2 w p d"
          using write_ok [OF _ _ wr, of p "[]"] p by auto
        have "b_Close B w s2 = (Inl e, s')"
          using assms(3) \<open>b_Put B p s = (r, s1)\<close> \<open>r = Inr w\<close> wr by (simp add: writeStorageFileAtomic_def)
        from close_err [OF q(1,3) this] q(2) show ?thesis by (metis take_all_iff order.refl)
      qed
    qed
  qed
qed

lemma io_Copy_ok:
  assumes "inv s" "writing s w p d" "io_Copy (b_Write B w) src s = (Inr n, s')"
  shows "inv s' \<and> view s' = view s \<and> writing s' w p (d @ fst src) \<and> snd src = None"
  using sink.copy_ok [of s w "(p, view s)" d src n s'] assms by simp

lemma io_Copy_err:
  assumes "inv s" "writing s w p d" "io_Copy (b_Write B w) src s = (Inl e, s')"
  shows "inv s' \<and> view s' = view s \<and> (\<exists>k. writing s' w p (d @ take k (fst src)))"
  using sink.copy_err [of s w "(p, view s)" d src e s'] assms by simp

lemma stream_reader_to_ok:
  assumes "inv s" "key p" "stream_reader_to B nm src p s = (Inr u, s')"
  shows "inv s' \<and> view s' = (view s)(p \<mapsto> fst src) \<and> snd src = None"
proof -
  from assms(3) obtain w s1 where 1: "b_Put B p s = (Inr w, s1)"
    by (auto simp: stream_reader_to_def split: prod.splits sum.splits)
  with assms(3) obtain n s2 v where 2: "io_Copy (b_Write B w) src s1 = (Inr n, s2)" "b_Close B w s2 = (Inr v, s')"
    by (auto simp: stream_reader_to_def split: prod.splits sum.splits)
  note p = put_ok [OF assms(1,2) 1]
  have q: "inv s2 \<and> view s2 = view s \<and> writing s2 w p (fst src) \<and> snd src = None"
    using io_Copy_ok [OF _ _ 2(1), of p "[]"] p by auto
  from q close_ok [OF _ _ 2(2)] show ?thesis by auto
qed

lemma stream_reader_to_err:
  assumes "inv s" "key p" "stream_reader_to B nm src p s = (Inl e, s')"
  shows "inv s' \<and> (view s' = view s \<or> (\<exists>k. view s' = (view s)(p \<mapsto> take k (fst src))))"
proof -
  obtain r s1 where put: "b_Put B p s = (r, s1)" by (cases "b_Put B p s")
  show ?thesis
  proof (cases r)
    case (Inl e')
    with put assms put_err [OF assms(1,2)] show ?thesis by (auto simp: stream_reader_to_def)
  next
    case (Inr w)
    have p: "inv s1" "view s1 = view s" "writing s1 w p []"
      using put_ok [OF assms(1,2) put [unfolded Inr]] by auto
    obtain r2 s2 where cp: "io_Copy (b_Write B w) src s1 = (r2, s2)" by (cases "io_Copy (b_Write B w) src s1")
    have "\<exists>k. inv s2 \<and> view s2 = view s \<and> writing s2 w p (take k (fst src))"
    proof (cases r2)
      case (Inl e2)
      with io_Copy_err [OF p(1,3) cp [unfolded Inl]] p(2) show ?thesis by auto
    next
      case (Inr n)
      with io_Copy_ok [OF p(1,3) cp [unfolded Inr]] p(2) show ?thesis by (metis append_Nil take_all_iff order.refl)
    qed
    then obtain k where k: "inv s2" "view s2 = view s" "writing s2 w p (take k (fst src))" by blast
    have "s' = snd (b_Close B w s2)"
      using assms(3) put Inr cp by (auto simp: stream_reader_to_def split: sum.splits prod.splits)
    with close_view [OF k(1,3)] k(2) show ?thesis by auto
  qed
qed

lemma commit_cases:
  assumes "inv s" "view s t \<noteq> None" "key f" "t \<noteq> f" "b_Commit B t f s = (r, s')"
  shows "inv s' \<and> (view s' = view s \<or>
           view s f = None \<and> view s' = (view s)(t := None, f := view s t))"
  using assms commit_ok [OF assms(1-4)] commit_err [OF assms(1-4)] by (cases r) auto

lemma delete_cases:
  assumes "inv s" "key p" "b_Delete B p s = (r, s')"
  shows "inv s' \<and> (view s' = view s \<or> view s' = (view s)(p := None))"
  using assms delete_ok [OF assms(1,2)] delete_err [OF assms(1,2)] by (cases r) auto

end

text \<open>
  On a hierarchical backend a name may be taken by a directory: \<open>Stat\<close> and \<open>Commit\<close> then report it
  as existing although no file can be read there. \<open>blocked s k\<close> says so; only \<open>Put\<close> makes
  directories, and only above the key it writes.
\<close>

locale named_backend = storage_backend B view key inv writing
  for B :: "('s, 'w) Backend" and view key inv writing +
  fixes blocked :: "'s \<Rightarrow> string \<Rightarrow> bool"
  assumes stat_found: "inv s \<Longrightarrow> key p \<Longrightarrow> b_Stat B p s = (Inr fi, s') \<Longrightarrow> view s p \<noteq> None \<or> blocked s p"
    and commit_found: "inv s \<Longrightarrow> view s t \<noteq> None \<Longrightarrow> key f \<Longrightarrow> t \<noteq> f \<Longrightarrow> b_Commit B t f s = (Inl e, s') \<Longrightarrow>
        errors_Is e ErrExist \<Longrightarrow> view s f \<noteq> None \<or> blocked s f"
    and stat_dirs: "inv s \<Longrightarrow> key p \<Longrightarrow> b_Stat B p s = (rs, s') \<Longrightarrow> blocked s' k \<Longrightarrow> blocked s k"
    and list_dirs: "inv s \<Longrightarrow> p = [] \<or> key p \<Longrightarrow> b_List B p s = (rl, s') \<Longrightarrow> blocked s' k \<Longrightarrow> blocked s k"
    and put_dirs: "inv s \<Longrightarrow> key p \<Longrightarrow> b_Put B p s = (rw, s') \<Longrightarrow> key k \<Longrightarrow> blocked s' k \<Longrightarrow>
        blocked s k \<or> strings_HasPrefix p (k @ ''/'')"
    and write_dirs: "inv s \<Longrightarrow> writing s w p d \<Longrightarrow> b_Write B w x s = (ru, s') \<Longrightarrow> blocked s' k \<Longrightarrow> blocked s k"
    and close_dirs: "inv s \<Longrightarrow> writing s w p d \<Longrightarrow> b_Close B w s = (ru, s') \<Longrightarrow> blocked s' k \<Longrightarrow> blocked s k"

sublocale named_backend \<subseteq> dsink: byte_sink "b_Write B"
  "\<lambda>s w (p, v, k) d. inv s \<and> view s = v \<and> writing s w p d \<and> \<not> blocked s k"
proof (unfold_locales, goal_cases)
  case (1 s h k d x u s')
  then show ?case using write_ok [of s h "fst k" d x u s'] write_dirs [of s h "fst k" d x "Inr u" s' "snd (snd k)"]
    by (auto split: prod.splits)
next
  case (2 s h k d x e s')
  then show ?case using write_err [of s h "fst k" d x e s'] write_dirs [of s h "fst k" d x "Inl e" s' "snd (snd k)"]
    by (auto split: prod.splits)
qed

context named_backend
begin

lemma stream_reader_to_dirs:
  assumes "inv s" "key p" "key k" "\<not> blocked s k" "\<not> strings_HasPrefix p (k @ ''/'')"
    "stream_reader_to B nm src p s = (Inr u, s')"
  shows "\<not> blocked s' k"
proof -
  from assms(6) obtain w s1 where 1: "b_Put B p s = (Inr w, s1)"
    by (auto simp: stream_reader_to_def split: prod.splits sum.splits)
  with assms(6) obtain n s2 v where 2: "io_Copy (b_Write B w) src s1 = (Inr n, s2)" "b_Close B w s2 = (Inr v, s')"
    by (auto simp: stream_reader_to_def split: prod.splits sum.splits)
  have "inv s1" "view s1 = view s" "writing s1 w p []" "\<not> blocked s1 k"
    using put_ok [OF assms(1,2) 1] put_dirs [OF assms(1,2) 1 assms(3)] assms(4,5) by auto
  then have "inv s2 \<and> writing s2 w p (fst src) \<and> \<not> blocked s2 k"
    using dsink.copy_ok [OF _ 2(1), of "(p, view s, k)" "[]"] by simp
  with close_dirs [OF _ _ 2(2)] show ?thesis by blast
qed

end

end
