(* ===== verification/Posix_Fs.thy ===== *)
theory Posix_Fs
  imports Storage "HOL-Library.AList"
begin

text \<open>
  The file system calls of package \<open>os\<close> that the POSIX driver makes, over an explicit file system:
  a name space of files (inodes) and directories, the bytes of every inode, and which of it would
  survive a crash. A directory change is volatile until the directory is fsynced (it waits in
  \<open>fs_pend\<close>), the bytes of an inode are volatile until the file is fsynced (\<open>fs_clean\<close>). Every call
  may fail: \<open>fs_fault\<close> is the environment's choice, indexed by the call's position in time. There
  are no symbolic links and no second process in this file system.
\<close>


section \<open>State\<close>

datatype node = NFile nat | NDir

datatype dirop = OLink string node | OMove string string | OUnlink string

record pfs =
  fs_now :: "(string \<times> node) list"
  fs_data :: "nat \<Rightarrow> bytes"
  fs_mtime :: "nat \<Rightarrow> gotime"
  fs_clean :: "nat \<Rightarrow> bool"
  fs_dur :: "(string \<times> node) list"
  fs_pend :: "dirop list"
  fs_next :: nat
  fs_tick :: nat
  fs_fault :: "nat \<Rightarrow> (string \<times> nat) option"
  fs_clock :: "nat \<Rightarrow> gotime"
  fs_handles :: nat
  fs_closed :: "nat list"

definition tick :: "pfs \<Rightarrow> pfs" where
  "tick s = s\<lparr>fs_tick := Suc (fs_tick s)\<rparr>"

definition fault_now :: "pfs \<Rightarrow> goerr option" where
  "fault_now s = map_option (\<lambda>(m, _). GoErr ErrOther m) (fs_fault s (fs_tick s))"

definition ENOTDIR :: goerr where "ENOTDIR = GoErr ErrOther ''not a directory''"

definition EISDIR :: goerr where "EISDIR = GoErr ErrOther ''is a directory''"

definition ENOTEMPTY :: goerr where "ENOTEMPTY = GoErr ErrOther ''directory not empty''"

definition ENOENT :: goerr where "ENOENT = GoErr ErrNotExist ''no such file or directory''"

text \<open>The proper ancestors of a rooted path, nearest the root first.\<close>

definition ancestors :: "string \<Rightarrow> string list" where
  "ancestors p = map (\<lambda>i. take i p) (filter (\<lambda>i. 0 < i \<and> p ! i = CHR ''/'') [0..<length p])"

definition lookup :: "string \<Rightarrow> pfs \<Rightarrow> node res" where
  "lookup p s =
     (case map_of (fs_now s) p of
        Some n \<Rightarrow> Inr n
      | None \<Rightarrow>
          if list_ex (\<lambda>a. case map_of (fs_now s) a of Some (NFile _) \<Rightarrow> True | _ \<Rightarrow> False) (ancestors p)
          then Inl ENOTDIR else Inl ENOENT)"

definition is_dir :: "string \<Rightarrow> pfs \<Rightarrow> bool" where
  "is_dir p s \<longleftrightarrow> map_of (fs_now s) p = Some NDir"


section \<open>Calls\<close>

text \<open>\<open>stat\<close>, and opening a file for reading: the bytes it will deliver.\<close>

definition os_Stat :: "string \<Rightarrow> (pfs, node) op" where
  "os_Stat p s =
     (case fault_now s of
        Some e \<Rightarrow> (Inl e, tick s)
      | None \<Rightarrow> (lookup p s, tick s))"

definition os_Open :: "string \<Rightarrow> (pfs, reader) op" where
  "os_Open p s =
     (case fault_now s of
        Some e \<Rightarrow> (Inl e, tick s)
      | None \<Rightarrow>
          (case lookup p s of
             Inl e \<Rightarrow> (Inl e, tick s)
           | Inr NDir \<Rightarrow> (Inr ([], Some EISDIR), tick s)
           | Inr (NFile i) \<Rightarrow>
               (case fs_fault s (Suc (fs_tick s)) of
                  None \<Rightarrow> (Inr (fs_data s i, None), tick (tick s))
                | Some (m, k) \<Rightarrow> (Inr (take k (fs_data s i), Some (GoErr ErrOther m)), tick (tick s)))))"

definition os_Mkdir :: "string \<Rightarrow> (pfs, unit) op" where
  "os_Mkdir p s =
     (case fault_now s of
        Some e \<Rightarrow> (Inl e, tick s)
      | None \<Rightarrow>
          (Inr (), (tick s)\<lparr>fs_now := AList.update p NDir (fs_now s), fs_pend := fs_pend s @ [OLink p NDir]\<rparr>))"

text \<open>\<open>MkdirAll\<close>: make every missing directory on the way, stop at a file.\<close>

fun mkdir_chain :: "string list \<Rightarrow> (pfs, unit) op" where
  "mkdir_chain [] s = (Inr (), s)"
| "mkdir_chain (a # as) s =
     (case map_of (fs_now s) a of
        Some NDir \<Rightarrow> mkdir_chain as s
      | Some (NFile _) \<Rightarrow> (Inl ENOTDIR, s)
      | None \<Rightarrow>
          (case os_Mkdir a s of
             (Inl e, s') \<Rightarrow> (Inl e, s')
           | (Inr _, s') \<Rightarrow> mkdir_chain as s'))"

definition os_MkdirAll :: "string \<Rightarrow> (pfs, unit) op" where
  "os_MkdirAll p s = mkdir_chain (ancestors p @ [p]) s"

text \<open>\<open>open\<close> with \<open>O_CREATE|O_TRUNC\<close>: a new inode, or the existing one emptied.\<close>

definition os_Create :: "string \<Rightarrow> (pfs, nat) op" where
  "os_Create p s =
     (case fault_now s of
        Some e \<Rightarrow> (Inl e, tick s)
      | None \<Rightarrow>
          (case lookup p s of
             Inr NDir \<Rightarrow> (Inl EISDIR, tick s)
           | Inr (NFile i) \<Rightarrow>
               (Inr i, (tick s)\<lparr>fs_data := (fs_data s)(i := []), fs_clean := (fs_clean s)(i := False),
                                fs_mtime := (fs_mtime s)(i := fs_clock s (fs_tick s))\<rparr>)
           | Inl e \<Rightarrow>
               if errors_Is e ErrNotExist \<and> is_dir (path_Dir p) s then
                 (let i = fs_next s
                  in (Inr i, (tick s)\<lparr>fs_next := Suc i, fs_now := AList.update p (NFile i) (fs_now s),
                                      fs_pend := fs_pend s @ [OLink p (NFile i)],
                                      fs_data := (fs_data s)(i := []), fs_clean := (fs_clean s)(i := False),
                                      fs_mtime := (fs_mtime s)(i := fs_clock s (fs_tick s))\<rparr>))
               else (Inl e, tick s)))"

text \<open>A failing write may have written a part.\<close>

definition fd_Write :: "nat \<Rightarrow> bytes \<Rightarrow> (pfs, unit) op" where
  "fd_Write i x s =
     (let put = (\<lambda>y. (tick s)\<lparr>fs_data := (fs_data s)(i := fs_data s i @ y), fs_clean := (fs_clean s)(i := False),
                              fs_mtime := (fs_mtime s)(i := fs_clock s (fs_tick s))\<rparr>)
      in case fs_fault s (fs_tick s) of
           Some (m, k) \<Rightarrow> (Inl (GoErr ErrOther m), put (take k x))
         | None \<Rightarrow> (Inr (), put x))"

definition fd_Sync :: "nat \<Rightarrow> (pfs, unit) op" where
  "fd_Sync i s =
     (case fault_now s of
        Some e \<Rightarrow> (Inl e, tick s)
      | None \<Rightarrow> (Inr (), (tick s)\<lparr>fs_clean := (fs_clean s)(i := True)\<rparr>))"

definition fd_Close :: "(pfs, unit) op" where
  "fd_Close s = (case fault_now s of Some e \<Rightarrow> (Inl e, tick s) | None \<Rightarrow> (Inr (), tick s))"

definition os_OpenDir :: "string \<Rightarrow> (pfs, unit) op" where
  "os_OpenDir p s =
     (case fault_now s of
        Some e \<Rightarrow> (Inl e, tick s)
      | None \<Rightarrow> (case lookup p s of Inl e \<Rightarrow> (Inl e, tick s) | Inr _ \<Rightarrow> (Inr (), tick s)))"

text \<open>What a directory change does to a name space, and which directory must be fsynced to keep it.\<close>

fun apply_op :: "dirop \<Rightarrow> (string \<times> node) list \<Rightarrow> (string \<times> node) list" where
  "apply_op (OLink p n) es = AList.update p n es"
| "apply_op (OUnlink p) es = AList.delete p es"
| "apply_op (OMove p q) es =
     (case map_of es p of
        None \<Rightarrow> es
      | Some n \<Rightarrow> AList.update q n (AList.delete p es))"

fun op_dir :: "dirop \<Rightarrow> string" where
  "op_dir (OLink p n) = path_Dir p"
| "op_dir (OUnlink p) = path_Dir p"
| "op_dir (OMove p q) = path_Dir q"

definition fd_SyncDir :: "string \<Rightarrow> (pfs, unit) op" where
  "fd_SyncDir d s =
     (case fault_now s of
        Some e \<Rightarrow> (Inl e, tick s)
      | None \<Rightarrow>
          (Inr (), (tick s)\<lparr>fs_dur := fold apply_op (filter (\<lambda>x. op_dir x = d) (fs_pend s)) (fs_dur s),
                            fs_pend := filter (\<lambda>x. op_dir x \<noteq> d) (fs_pend s)\<rparr>))"

text \<open>
  \<open>rename\<close> of a file replaces a file at the target. Renaming a directory carries its tree; no
  operation of the driver is used that way, and the model refuses it.
\<close>

definition os_Rename :: "string \<Rightarrow> string \<Rightarrow> (pfs, unit) op" where
  "os_Rename p q s =
     (case fault_now s of
        Some e \<Rightarrow> (Inl e, tick s)
      | None \<Rightarrow>
          (case lookup p s of
             Inl e \<Rightarrow> (Inl e, tick s)
           | Inr NDir \<Rightarrow> (Inl EISDIR, tick s)
           | Inr (NFile i) \<Rightarrow>
               if \<not> is_dir (path_Dir q) s then (Inl ENOENT, tick s)
               else if is_dir q s then (Inl EISDIR, tick s)
               else if p = q then (Inr (), tick s)
               else (Inr (), (tick s)\<lparr>fs_now := AList.update q (NFile i) (AList.delete p (fs_now s)),
                                      fs_pend := fs_pend s @ [OMove p q]\<rparr>)))"

text \<open>\<open>os.Remove\<close>: a file or an empty directory.\<close>

definition has_child :: "string \<Rightarrow> pfs \<Rightarrow> bool" where
  "has_child p s = list_ex (\<lambda>(q, _). strings_HasPrefix q (p @ ''/'')) (fs_now s)"

definition os_Remove :: "string \<Rightarrow> (pfs, unit) op" where
  "os_Remove p s =
     (case fault_now s of
        Some e \<Rightarrow> (Inl e, tick s)
      | None \<Rightarrow>
          (case lookup p s of
             Inl e \<Rightarrow> (Inl e, tick s)
           | Inr n \<Rightarrow>
               if n = NDir \<and> has_child p s then (Inl ENOTEMPTY, tick s)
               else (Inr (), (tick s)\<lparr>fs_now := AList.delete p (fs_now s), fs_pend := fs_pend s @ [OUnlink p]\<rparr>)))"


section \<open>Crashes\<close>

text \<open>
  After a crash the name space is the durable one with any selection of the waiting changes, in
  order; a file that was not fsynced holds arbitrary bytes. A path can be read when every
  directory on the way survived.
\<close>

fun select_ops :: "bool list \<Rightarrow> 'a list \<Rightarrow> 'a list" where
  "select_ops (b # bs) (x # xs) = (if b then x # select_ops bs xs else select_ops bs xs)"
| "select_ops _ _ = []"

definition crash_names :: "bool list \<Rightarrow> pfs \<Rightarrow> (string \<times> node) list" where
  "crash_names sel s = fold apply_op (select_ops sel (fs_pend s)) (fs_dur s)"

definition crash_data :: "(nat \<Rightarrow> bytes) \<Rightarrow> pfs \<Rightarrow> nat \<Rightarrow> bytes" where
  "crash_data junk s i = (if fs_clean s i then fs_data s i else junk i)"

definition crash_read :: "bool list \<Rightarrow> (nat \<Rightarrow> bytes) \<Rightarrow> pfs \<Rightarrow> string \<Rightarrow> bytes option" where
  "crash_read sel junk s p =
     (let es = crash_names sel s
      in if list_all (\<lambda>a. map_of es a = Some NDir) (ancestors p)
         then (case map_of es p of Some (NFile i) \<Rightarrow> Some (crash_data junk s i) | _ \<Rightarrow> None)
         else None)"


section \<open>Facts about the calls\<close>

declare map_of_eq_Some_iff [simp del]

definition file_at :: "pfs \<Rightarrow> string \<Rightarrow> bytes option" where
  "file_at s p = (case map_of (fs_now s) p of Some (NFile i) \<Rightarrow> Some (fs_data s i) | _ \<Rightarrow> None)"

text \<open>
  What every call keeps true: names are unique, every file has its own inode, no inode is ahead of
  the allocator, every name is a clean rooted path and stands below directories.
\<close>

definition tree_ok :: "(string \<times> node) list \<Rightarrow> bool" where
  "tree_ok es \<longleftrightarrow> (\<forall>(p, n) \<in> set es. \<forall>a \<in> set (ancestors p). map_of es a = Some NDir)"

definition fs_ok :: "pfs \<Rightarrow> bool" where
  "fs_ok s \<longleftrightarrow>
     distinct (map fst (fs_now s)) \<and>
     (\<forall>p q i. map_of (fs_now s) p = Some (NFile i) \<longrightarrow> map_of (fs_now s) q = Some (NFile i) \<longrightarrow> p = q) \<and>
     (\<forall>p i. map_of (fs_now s) p = Some (NFile i) \<longrightarrow> i < fs_next s) \<and>
     (\<forall>h \<in> set (fs_closed s). h < fs_handles s) \<and>
     (\<forall>p n. map_of (fs_now s) p = Some n \<longrightarrow> clean_abs p) \<and>
     tree_ok (fs_now s)"

lemma set_ancestors: "set (ancestors p) = {q. q \<noteq> [] \<and> strings_HasPrefix p (q @ ''/'')}"
proof -
  have "(\<exists>i. i < length p \<and> 0 < i \<and> p ! i = CHR ''/'' \<and> q = take i p) \<longleftrightarrow>
        q \<noteq> [] \<and> strings_HasPrefix p (q @ ''/'')" for q
  proof
    assume "\<exists>i. i < length p \<and> 0 < i \<and> p ! i = CHR ''/'' \<and> q = take i p"
    then obtain i where i: "i < length p" "0 < i" "p ! i = CHR ''/''" "q = take i p" by blast
    then have "q @ ''/'' = take (Suc i) p" by (simp add: take_Suc_conv_app_nth)
    then have "strings_HasPrefix p (q @ ''/'')" by (simp only: take_is_prefix)
    moreover have "q \<noteq> []" using i by auto
    ultimately show "q \<noteq> [] \<and> strings_HasPrefix p (q @ ''/'')" by simp
  next
    assume "q \<noteq> [] \<and> strings_HasPrefix p (q @ ''/'')"
    then obtain r where "p = q @ CHR ''/'' # r" "q \<noteq> []" by (auto simp: prefix_def)
    then show "\<exists>i. i < length p \<and> 0 < i \<and> p ! i = CHR ''/'' \<and> q = take i p"
      by (intro exI [of _ "length q"]) auto
  qed
  then show ?thesis by (auto simp: ancestors_def)
qed

lemma tree_ok_map:
  assumes "distinct (map fst es)"
  shows "tree_ok es \<longleftrightarrow> (\<forall>p n. map_of es p = Some n \<longrightarrow> (\<forall>a \<in> set (ancestors p). map_of es a = Some NDir))"
  unfolding tree_ok_def map_of_eq_Some_iff [OF assms, of _ "_ :: node", symmetric]
proof safe
  fix p n a
  assume "\<forall>(p, n) \<in> set es. \<forall>a \<in> set (ancestors p). map_of es a = Some NDir"
    and "map_of es p = Some n" "a \<in> set (ancestors p)"
  then show "map_of es a = Some NDir" by (auto dest: map_of_SomeD)
next
  fix p n a
  assume "\<forall>p n. map_of es p = Some n \<longrightarrow> (\<forall>a \<in> set (ancestors p). map_of es a = Some NDir)"
    and "(p, n) \<in> set es" "a \<in> set (ancestors p)"
  then show "map_of es a = Some NDir" using map_of_is_SomeI [OF assms] by blast
qed

lemma ancestors_step:
  "CHR ''/'' \<notin> set b \<Longrightarrow> d \<noteq> [] \<Longrightarrow> set (ancestors (d @ CHR ''/'' # b)) = insert d (set (ancestors d))"
proof -
  assume b: "CHR ''/'' \<notin> set b" "d \<noteq> []"
  have "strings_HasPrefix (d @ CHR ''/'' # b) (q @ ''/'') \<longleftrightarrow> q = d \<or> strings_HasPrefix d (q @ ''/'')" for q
  proof
    assume "strings_HasPrefix (d @ CHR ''/'' # b) (q @ ''/'')"
    then obtain r where r: "d @ CHR ''/'' # b = q @ CHR ''/'' # r" by (auto simp: prefix_def)
    then consider u where "d = q @ u" "u @ CHR ''/'' # b = CHR ''/'' # r"
      | u where "q = d @ u" "CHR ''/'' # b = u @ CHR ''/'' # r"
      by (auto simp: append_eq_append_conv2)
    then show "q = d \<or> strings_HasPrefix d (q @ ''/'')"
    proof cases
      case 1
      then show ?thesis by (cases u) (auto simp: prefix_def)
    next
      case 2
      then show ?thesis using b(1) by (cases u) auto
    qed
  qed (auto simp: prefix_def)
  then show ?thesis using b(2) by (auto simp: set_ancestors)
qed

lemmas fs_calls = tick_def fault_now_def os_Stat_def os_Open_def os_Mkdir_def os_Create_def fd_Write_def
  fd_Sync_def fd_Close_def os_OpenDir_def fd_SyncDir_def os_Rename_def os_Remove_def

lemma fs_ok_tick [simp]: "fs_ok (tick s) = fs_ok s" "file_at (tick s) = file_at s"
  by (simp_all add: fs_ok_def tick_def file_at_def fun_eq_iff split: option.splits node.splits)

text \<open>Calls that change no name and no byte.\<close>

definition quiet :: "pfs \<Rightarrow> pfs \<Rightarrow> bool" where
  "quiet s s' \<longleftrightarrow> fs_now s' = fs_now s \<and> fs_data s' = fs_data s \<and> fs_next s' = fs_next s \<and>
     fs_handles s' = fs_handles s \<and> fs_closed s' = fs_closed s"

lemma quietD: "quiet s s' \<Longrightarrow> fs_ok s' = fs_ok s \<and> file_at s' = file_at s"
  by (simp add: quiet_def fs_ok_def file_at_def fun_eq_iff split: option.splits node.splits)

lemma quiet_refl [simp]: "quiet s s" "quiet s (tick s)" "quiet s (tick (tick s))"
  by (simp_all add: quiet_def tick_def)

lemma quiet_trans: "quiet s t \<Longrightarrow> quiet t u \<Longrightarrow> quiet s u"
  by (simp add: quiet_def)

lemma quiet_calls:
  "quiet s (snd (os_Stat p s))" "quiet s (snd (os_Open p s))" "quiet s (snd (fd_Sync i s))"
  "quiet s (snd (fd_Close s))" "quiet s (snd (os_OpenDir p s))" "quiet s (snd (fd_SyncDir p s))"
  by (auto simp: quiet_def fs_calls split: option.splits sum.splits node.splits prod.splits)

text \<open>Adding a name below existing directories, removing a file, and the inode of a new file.\<close>

lemma fs_ok_I:
  assumes "fs_ok s" "distinct (map fst (fs_now s'))" "fs_closed s' = fs_closed s" "fs_handles s' = fs_handles s"
    "fs_next s \<le> fs_next s'"
    "\<And>p q i. map_of (fs_now s') p = Some (NFile i) \<Longrightarrow> map_of (fs_now s') q = Some (NFile i) \<Longrightarrow> p = q"
    "\<And>p i. map_of (fs_now s') p = Some (NFile i) \<Longrightarrow> i < fs_next s'"
    "\<And>p n. map_of (fs_now s') p = Some n \<Longrightarrow> clean_abs p"
    "\<And>p n a. map_of (fs_now s') p = Some n \<Longrightarrow> a \<in> set (ancestors p) \<Longrightarrow> map_of (fs_now s') a = Some NDir"
  shows "fs_ok s'"
  using assms unfolding fs_ok_def by (simp add: tree_ok_map)

lemma fs_okD:
  assumes "fs_ok s"
  shows "distinct (map fst (fs_now s))"
    "map_of (fs_now s) p = Some (NFile i) \<Longrightarrow> map_of (fs_now s) q = Some (NFile i) \<Longrightarrow> p = q"
    "map_of (fs_now s) p = Some (NFile i) \<Longrightarrow> i < fs_next s"
    "h \<in> set (fs_closed s) \<Longrightarrow> h < fs_handles s"
    "map_of (fs_now s) p = Some n \<Longrightarrow> a \<in> set (ancestors p) \<Longrightarrow> map_of (fs_now s) a = Some NDir"
    "map_of (fs_now s) p = Some n \<Longrightarrow> clean_abs p"
proof -
  have d: "distinct (map fst (fs_now s))" using assms by (simp add: fs_ok_def)
  show "map_of (fs_now s) p = Some n \<Longrightarrow> a \<in> set (ancestors p) \<Longrightarrow> map_of (fs_now s) a = Some NDir"
    using assms tree_ok_map [OF d] unfolding fs_ok_def by blast
qed (use assms in \<open>auto simp: fs_ok_def\<close>)

lemma not_own_ancestor: "p \<notin> set (ancestors p)"
  by (auto simp: set_ancestors dest: prefix_length_le)

lemma os_Mkdir_ok:
  assumes "fs_ok s" "map_of (fs_now s) p = None" "\<forall>a \<in> set (ancestors p). is_dir a s"
    "os_Mkdir p s = (Inr u, s')" "clean_abs p"
  shows "fs_ok s' \<and> file_at s' = file_at s \<and> map_of (fs_now s') = (map_of (fs_now s))(p \<mapsto> NDir)"
proof -
  have s': "map_of (fs_now s') = (map_of (fs_now s))(p \<mapsto> NDir)" "fs_data s' = fs_data s" "fs_next s' = fs_next s"
    "fs_closed s' = fs_closed s" "fs_handles s' = fs_handles s" "distinct (map fst (fs_now s'))"
    using assms(4) fs_okD(1) [OF assms(1)]
    by (auto simp: os_Mkdir_def tick_def update_conv' distinct_update split: option.splits)
  have "fs_ok s'"
  proof (rule fs_ok_I [OF assms(1) s'(6,4,5)])
    show "fs_next s \<le> fs_next s'" by (simp add: s')
    show "map_of (fs_now s') p = Some (NFile i) \<Longrightarrow> map_of (fs_now s') q = Some (NFile i) \<Longrightarrow> p = q" for p q i
      using fs_okD(2) [OF assms(1)] by (auto simp: s' split: if_splits)
    show "map_of (fs_now s') p = Some (NFile i) \<Longrightarrow> i < fs_next s'" for p i
      using fs_okD(3) [OF assms(1)] by (auto simp: s' split: if_splits)
    show "map_of (fs_now s') q = Some n \<Longrightarrow> clean_abs q" for q n
      using fs_okD(6) [OF assms(1)] assms(5) by (auto simp: s' split: if_splits)
    show "map_of (fs_now s') q = Some n \<Longrightarrow> a \<in> set (ancestors q) \<Longrightarrow> map_of (fs_now s') a = Some NDir" for q n a
      using fs_okD(5) [OF assms(1)] assms(3) by (auto simp: s' is_dir_def split: if_splits)
  qed
  moreover have "file_at s' = file_at s"
    using assms(2) by (simp add: file_at_def s' fun_eq_iff split: option.splits node.splits)
  ultimately show ?thesis by (simp add: s')
qed

lemma os_Mkdir_err: "os_Mkdir p s = (Inl e, s') \<Longrightarrow> quiet s s'"
  by (auto simp: os_Mkdir_def split: option.splits)

lemma mkdir_chain_facts:
  assumes "fs_ok s" "\<And>pre a post. as = pre @ a # post \<Longrightarrow> set (ancestors a) \<subseteq> set pre \<union> {d. is_dir d s}"
    "\<forall>a \<in> set as. clean_abs a"
  shows "fs_ok (snd (mkdir_chain as s)) \<and> file_at (snd (mkdir_chain as s)) = file_at s \<and>
         (\<forall>d. is_dir d s \<longrightarrow> is_dir d (snd (mkdir_chain as s))) \<and>
         (\<forall>q n. map_of (fs_now s) q = Some n \<longrightarrow> map_of (fs_now (snd (mkdir_chain as s))) q = Some n) \<and>
         (\<forall>u. fst (mkdir_chain as s) = Inr u \<longrightarrow> (\<forall>a \<in> set as. is_dir a (snd (mkdir_chain as s))))"
  using assms
proof (induction as arbitrary: s)
  case (Cons a as)
  have anc: "\<forall>b \<in> set (ancestors a). is_dir b s" using Cons.prems(2) [of "[]" a as] by auto
  have rest: "set (ancestors b) \<subseteq> set pre \<union> {d. is_dir d t}"
    if "as = pre @ b # post" "is_dir a t" "\<And>d. is_dir d s \<Longrightarrow> is_dir d t" for pre b post t
  proof -
    have "set (ancestors b) \<subseteq> set (a # pre) \<union> {d. is_dir d s}"
      using Cons.prems(2) [of "a # pre" b post] that(1) by simp
    then show ?thesis using that(2,3) by auto
  qed
  consider "map_of (fs_now s) a = Some NDir" | i where "map_of (fs_now s) a = Some (NFile i)"
    | "map_of (fs_now s) a = None" by (metis node.exhaust option.exhaust)
  then show ?case
  proof cases
    case 1
    then show ?thesis using Cons.IH [OF Cons.prems(1) rest [of _ _ _ s]] Cons.prems(3) by (auto simp: is_dir_def)
  next
    case 2
    then show ?thesis using Cons.prems(1) by simp
  next
    case 3
    obtain r t where mk: "os_Mkdir a s = (r, t)" by (cases "os_Mkdir a s")
    show ?thesis
    proof (cases r)
      case (Inl e)
      then have "quiet s t" using os_Mkdir_err mk by blast
      then show ?thesis using 3 mk Inl Cons.prems(1) quietD [of s t] by (simp add: is_dir_def quiet_def)
    next
      case (Inr u)
      have t: "fs_ok t" "file_at t = file_at s" "map_of (fs_now t) = (map_of (fs_now s))(a \<mapsto> NDir)"
        using os_Mkdir_ok [OF Cons.prems(1) 3 anc mk [unfolded Inr]] Cons.prems(3) by auto
      have d: "is_dir a t" "\<And>d. is_dir d s \<Longrightarrow> is_dir d t"
        "\<And>q n. map_of (fs_now s) q = Some n \<Longrightarrow> map_of (fs_now t) q = Some n"
        using 3 by (auto simp: is_dir_def t(3))
      have "mkdir_chain (a # as) s = mkdir_chain as t" using 3 mk Inr by simp
      then show ?thesis
        using Cons.IH [OF t(1) rest [OF _ d(1,2)]] Cons.prems(3) t(2) d by (simp add: is_dir_def)
    qed
  qed
qed simp

lemma ancestors_closed:
  assumes "ancestors p @ [p] = pre @ a # post"
  shows "set (ancestors a) \<subseteq> set pre"
proof
  fix q
  assume q: "q \<in> set (ancestors a)"
  define ix where "ix = filter (\<lambda>i. 0 < i \<and> p ! i = CHR ''/'') [0..<length p] @ [length p]"
  have L: "map (\<lambda>i. take i p) ix = pre @ a # post" using assms by (simp add: ix_def ancestors_def)
  obtain xs i ys where x: "ix = xs @ i # ys" "pre = map (\<lambda>i. take i p) xs" "a = take i p"
    using L by (auto simp: map_eq_append_conv map_eq_Cons_conv)
  have "sorted ix" unfolding ix_def by (auto simp: sorted_append sorted_wrt_filter)
  then have ge: "\<forall>j \<in> set (i # ys). i \<le> j" by (simp add: x sorted_append)
  have "\<forall>k \<in> set ix. k \<le> length p" by (auto simp: ix_def)
  then have i: "i \<le> length p" by (simp add: x(1))
  obtain r where r: "a = q @ CHR ''/'' # r" "q \<noteq> []" using q by (auto simp: set_ancestors prefix_def)
  let ?j = "length q"
  have j: "?j < i" using r x(3) i by (metis add_Suc_right le_add1 length_Cons length_append length_take min.absorb2 less_Suc_eq_le add_Suc)
  have p: "p = q @ CHR ''/'' # r @ drop i p" using r(1) x(3) by (metis append_take_drop_id append_Cons append_assoc)
  then have "p ! ?j = CHR ''/''" "?j < length p" "take ?j p = q" by (metis nth_append_length, metis length_append length_Cons less_add_Suc1 add_Suc_right, metis append_eq_conv_conj)
  then have "?j \<in> set ix" using r(2) by (simp add: ix_def)
  then have "?j \<in> set xs" using ge j x(1) by auto
  then show "q \<in> set pre" using x(2) \<open>take ?j p = q\<close> by force
qed

lemma clean_abs_ancestor: "clean_abs p \<Longrightarrow> a \<in> set (ancestors p) \<Longrightarrow> clean_abs a"
proof -
  assume p: "clean_abs p" and "a \<in> set (ancestors p)"
  then obtain r where r: "p = a @ CHR ''/'' # r" "a \<noteq> []" by (auto simp: set_ancestors prefix_def)
  then obtain a' where "a = CHR ''/'' # a'" using p by (cases a) (auto simp: clean_abs_def)
  then show ?thesis using p r by (auto simp: clean_abs_def clean_rel_append)
qed

lemma os_MkdirAll_facts:
  assumes "fs_ok s" "clean_abs p"
  shows "fs_ok (snd (os_MkdirAll p s)) \<and> file_at (snd (os_MkdirAll p s)) = file_at s \<and>
         (\<forall>q n. map_of (fs_now s) q = Some n \<longrightarrow> map_of (fs_now (snd (os_MkdirAll p s))) q = Some n) \<and>
         (\<forall>u. fst (os_MkdirAll p s) = Inr u \<longrightarrow> (\<forall>a \<in> insert p (set (ancestors p)). is_dir a (snd (os_MkdirAll p s))))"
proof -
  have "set (ancestors a) \<subseteq> set pre \<union> {d. is_dir d s}" if "ancestors p @ [p] = pre @ a # post" for pre a post
    using ancestors_closed [OF that] by auto
  moreover have "\<forall>a \<in> set (ancestors p @ [p]). clean_abs a" using assms(2) clean_abs_ancestor by auto
  ultimately show ?thesis
    using mkdir_chain_facts [OF assms(1), of "ancestors p @ [p]"] unfolding os_MkdirAll_def by auto
qed

lemma lookup_simps:
  "map_of (fs_now s) p = Some n \<Longrightarrow> lookup p s = Inr n"
  "lookup p s = Inr n \<Longrightarrow> map_of (fs_now s) p = Some n"
  "lookup p s = Inl e \<Longrightarrow> map_of (fs_now s) p = None"
  by (auto simp: lookup_def split: option.splits if_splits)

lemma file_at_upd:
  assumes ok: "fs_ok s" and p: "map_of (fs_now s) p = Some (NFile i)"
    and s': "fs_now s' = fs_now s" "fs_data s' = (fs_data s)(i := x)"
  shows "file_at s' = (file_at s)(p \<mapsto> x)"
proof
  fix q
  show "file_at s' q = ((file_at s)(p \<mapsto> x)) q"
  proof (cases "q = p")
    case True
    then show ?thesis using p by (simp add: file_at_def s')
  next
    case False
    then have "map_of (fs_now s) q \<noteq> Some (NFile i)" using fs_okD(2) [OF ok p] by metis
    with False show ?thesis by (simp add: file_at_def s' split: option.splits node.splits)
  qed
qed

text \<open>Creating a file whose directory exists: it is empty, nothing else changes.\<close>

lemma os_Create_ok:
  assumes ok: "fs_ok s" and p: "p = d @ CHR ''/'' # b" "CHR ''/'' \<notin> set b" "d \<noteq> []" "is_dir d s"
    and cl: "clean_abs p" and c: "os_Create p s = (Inr i, s')"
  shows "fs_ok s'" "file_at s' = (file_at s)(p \<mapsto> [])" "map_of (fs_now s') p = Some (NFile i)"
    "fs_data s' i = []" "fs_handles s' = fs_handles s" "fs_closed s' = fs_closed s"
proof -
  have f: "fs_fault s (fs_tick s) = None" using c by (auto simp: os_Create_def fault_now_def split: option.splits)
  note own = fs_okD(2) [OF ok]
  have "fs_ok s' \<and> file_at s' = (file_at s)(p \<mapsto> []) \<and> map_of (fs_now s') p = Some (NFile i) \<and>
      fs_data s' i = [] \<and> fs_handles s' = fs_handles s \<and> fs_closed s' = fs_closed s"
  proof (cases "map_of (fs_now s) p")
    case (Some n)
    then have l: "lookup p s = Inr n" by (rule lookup_simps)
    then obtain j where n: "n = NFile j" using c f by (cases n) (auto simp: os_Create_def fault_now_def)
    have ij: "i = j" and s': "fs_now s' = fs_now s" "fs_data s' = (fs_data s)(i := [])" "fs_next s' = fs_next s"
      "fs_handles s' = fs_handles s" "fs_closed s' = fs_closed s"
      using c f l n by (auto simp: os_Create_def fault_now_def tick_def)
    have "file_at s' = (file_at s)(p \<mapsto> [])"
      using file_at_upd [OF ok _ s'(1,2)] Some n ij by simp
    with ok Some n ij show ?thesis by (simp add: fs_ok_def s')
  next
    case None
    then obtain e where l: "lookup p s = Inl e" using lookup_simps(2) [of p s] by (cases "lookup p s") auto
    have i: "i = fs_next s" and s': "map_of (fs_now s') = (map_of (fs_now s))(p \<mapsto> NFile i)"
      "fs_data s' = (fs_data s)(i := [])" "fs_next s' = Suc (fs_next s)" "fs_handles s' = fs_handles s"
      "fs_closed s' = fs_closed s" "distinct (map fst (fs_now s'))"
      using c f l fs_okD(1) [OF ok]
      by (auto simp: os_Create_def fault_now_def tick_def Let_def update_conv' distinct_update split: if_splits)
    have anc: "a \<in> set (ancestors p) \<Longrightarrow> map_of (fs_now s) a = Some NDir" for a
      using p(4) fs_okD(5) [OF ok, of d NDir] unfolding p(1) ancestors_step [OF p(2,3)] by (auto simp: is_dir_def)
    have fresh: "map_of (fs_now s) q \<noteq> Some (NFile i)" for q using fs_okD(3) [OF ok, of q i] i by auto
    have "fs_ok s'"
    proof (rule fs_ok_I [OF ok s'(6,5,4)])
      show "map_of (fs_now s') q = Some (NFile j) \<Longrightarrow> map_of (fs_now s') q' = Some (NFile j) \<Longrightarrow> q = q'" for q q' j
        using own [of q j q'] fresh by (auto simp: s' split: if_splits)
      show "map_of (fs_now s') q = Some (NFile j) \<Longrightarrow> j < fs_next s'" for q j
        using fs_okD(3) [OF ok, of q j] i by (auto simp: s' split: if_splits)
      show "map_of (fs_now s') q = Some n \<Longrightarrow> clean_abs q" for q n
        using fs_okD(6) [OF ok, of q n] cl by (auto simp: s' split: if_splits)
      show "map_of (fs_now s') q = Some n \<Longrightarrow> a \<in> set (ancestors q) \<Longrightarrow> map_of (fs_now s') a = Some NDir" for q n a
        using fs_okD(5) [OF ok, of q n a] anc [of a] None not_own_ancestor [of p] by (auto simp: s' split: if_splits)
    qed (simp add: s')
    moreover have "file_at s' = (file_at s)(p \<mapsto> [])"
      using fresh by (auto simp: file_at_def s' fun_eq_iff split: option.splits node.splits)
    ultimately show ?thesis by (simp add: s')
  qed
  then show "fs_ok s'" "file_at s' = (file_at s)(p \<mapsto> [])" "map_of (fs_now s') p = Some (NFile i)"
    "fs_data s' i = []" "fs_handles s' = fs_handles s" "fs_closed s' = fs_closed s" by auto
qed

lemma os_Create_err: "os_Create p s = (Inl e, s') \<Longrightarrow> quiet s s'"
  by (auto simp: os_Create_def Let_def split: option.splits sum.splits node.splits if_splits)

lemma fd_Write_facts:
  assumes ok: "fs_ok s" and p: "map_of (fs_now s) p = Some (NFile i)" and c: "fd_Write i x s = (r, s')"
  shows "fs_ok s' \<and> fs_now s' = fs_now s \<and> fs_closed s' = fs_closed s \<and> fs_handles s' = fs_handles s \<and>
         (\<exists>k. fs_data s' i = fs_data s i @ take k x \<and> file_at s' = (file_at s)(p \<mapsto> fs_data s i @ take k x) \<and>
              (r = Inr () \<longrightarrow> take k x = x))"
proof -
  define k where "k = (case fs_fault s (fs_tick s) of Some (m, k) \<Rightarrow> k | None \<Rightarrow> length x)"
  have s': "fs_now s' = fs_now s" "fs_data s' = (fs_data s)(i := fs_data s i @ take k x)" "fs_next s' = fs_next s"
    "fs_handles s' = fs_handles s" "fs_closed s' = fs_closed s" "r = Inr () \<Longrightarrow> take k x = x"
    using c by (auto simp: fd_Write_def tick_def k_def Let_def split: option.splits)
  have "file_at s' = (file_at s)(p \<mapsto> fs_data s i @ take k x)"
    by (rule file_at_upd [OF ok p s'(1,2)])
  with ok s' show ?thesis by (auto simp: fs_ok_def)
qed

lemma file_not_ancestor:
  "fs_ok s \<Longrightarrow> map_of (fs_now s) p = Some (NFile i) \<Longrightarrow> map_of (fs_now s) q = Some n \<Longrightarrow> p \<notin> set (ancestors q)"
  using fs_okD(5) by fastforce

text \<open>A successful rename moves the file; a failed one changes nothing.\<close>

lemma os_Rename_ok:
  assumes ok: "fs_ok s" and t: "file_at s t \<noteq> None" and f: "f = d @ CHR ''/'' # b" "CHR ''/'' \<notin> set b" "d \<noteq> []"
    "path_Dir f = d" "t \<noteq> f" and cl: "clean_abs f" and c: "os_Rename t f s = (Inr u, s')"
  shows "fs_ok s' \<and> file_at s' = (file_at s)(t := None, f := file_at s t) \<and> fs_closed s' = fs_closed s \<and>
         fs_handles s' = fs_handles s"
proof -
  from t obtain i where i: "map_of (fs_now s) t = Some (NFile i)"
    by (auto simp: file_at_def split: option.splits node.splits)
  have fl: "fs_fault s (fs_tick s) = None" using c by (auto simp: os_Rename_def fault_now_def split: option.splits)
  have dir: "is_dir d s" "\<not> is_dir f s"
    using c fl f by (auto simp: os_Rename_def fault_now_def lookup_simps(1) [OF i] split: if_splits)
  have s': "map_of (fs_now s') = (map_of (fs_now s))(t := None, f \<mapsto> NFile i)" "fs_data s' = fs_data s"
    "fs_next s' = fs_next s" "fs_handles s' = fs_handles s" "fs_closed s' = fs_closed s"
    "distinct (map fst (fs_now s'))"
    using c fl dir f fs_okD(1) [OF ok]
    by (auto simp: os_Rename_def fault_now_def tick_def lookup_simps(1) [OF i] update_conv' delete_conv'
        distinct_update distinct_delete)
  have anc: "a \<in> set (ancestors f) \<Longrightarrow> map_of (fs_now s) a = Some NDir" for a
    using dir(1) fs_okD(5) [OF ok, of d NDir] unfolding f(1) ancestors_step [OF f(2,3)] by (auto simp: is_dir_def)
  have tf: "t \<notin> set (ancestors f)" using anc i by fastforce
  have "fs_ok s'"
  proof (rule fs_ok_I [OF ok s'(6,5,4)])
    have *: "x = f \<and> j = i \<or> x \<noteq> t \<and> map_of (fs_now s) x = Some (NFile j)"
      if "map_of (fs_now s') x = Some (NFile j)" for x j
      using that by (simp add: s' split: if_splits)
    show "map_of (fs_now s') q = Some (NFile j) \<Longrightarrow> map_of (fs_now s') q' = Some (NFile j) \<Longrightarrow> q = q'" for q q' j
      using * [of q j] * [of q' j] fs_okD(2) [OF ok] i by metis
    show "map_of (fs_now s') q = Some (NFile j) \<Longrightarrow> j < fs_next s'" for q j
      using fs_okD(3) [OF ok, of q j] fs_okD(3) [OF ok i] by (auto simp: s' split: if_splits)
    show "map_of (fs_now s') q = Some n \<Longrightarrow> clean_abs q" for q n
      using fs_okD(6) [OF ok, of q n] cl by (auto simp: s' split: if_splits)
    show "map_of (fs_now s') a = Some NDir" if q: "map_of (fs_now s') q = Some n" and a: "a \<in> set (ancestors q)" for q n a
    proof -
      have "map_of (fs_now s) a = Some NDir \<and> a \<noteq> t"
      proof (cases "q = f")
        case True
        then show ?thesis using anc a tf by auto
      next
        case False
        then have "map_of (fs_now s) q = Some n" using q by (auto simp: s' split: if_splits)
        then show ?thesis using fs_okD(5) [OF ok _ a] file_not_ancestor [OF ok i, of q n] a by auto
      qed
      then show ?thesis using dir(2) by (auto simp: s' is_dir_def)
    qed
  qed (simp add: s')
  moreover have "file_at s' = (file_at s)(t := None, f := file_at s t)"
    using i f(5) by (auto simp: file_at_def s' fun_eq_iff split: option.splits node.splits)
  ultimately show ?thesis by (simp add: s')
qed

lemma os_Rename_err: "os_Rename t f s = (Inl e, s') \<Longrightarrow> quiet s s'"
  by (auto simp: os_Rename_def split: option.splits sum.splits node.splits if_splits)

lemma os_Remove_ok:
  assumes ok: "fs_ok s" and c: "os_Remove p s = (Inr u, s')"
  shows "fs_ok s' \<and> file_at s' = (file_at s)(p := None) \<and> fs_closed s' = fs_closed s \<and> fs_handles s' = fs_handles s"
proof -
  have fl: "fs_fault s (fs_tick s) = None" using c by (auto simp: os_Remove_def fault_now_def split: option.splits)
  obtain n where n: "map_of (fs_now s) p = Some n" "\<not> (n = NDir \<and> has_child p s)"
    using c fl by (auto simp: os_Remove_def fault_now_def split: sum.splits if_splits dest: lookup_simps(2))
  have s': "map_of (fs_now s') = (map_of (fs_now s))(p := None)" "fs_data s' = fs_data s"
    "fs_next s' = fs_next s" "fs_handles s' = fs_handles s" "fs_closed s' = fs_closed s"
    "distinct (map fst (fs_now s'))"
    using c fl n fs_okD(1) [OF ok]
    by (auto simp: os_Remove_def fault_now_def tick_def lookup_simps(1) [OF n(1)] delete_conv' distinct_delete)
  have np: "p \<notin> set (ancestors q)" if q: "map_of (fs_now s) q = Some m" for q m
  proof
    assume a: "p \<in> set (ancestors q)"
    then have "n = NDir" using fs_okD(5) [OF ok q a] n(1) by simp
    moreover have "has_child p s"
      using a map_of_SomeD [OF q] by (auto simp: has_child_def list_ex_iff set_ancestors)
    ultimately show False using n(2) by simp
  qed
  have "fs_ok s'"
  proof (rule fs_ok_I [OF ok s'(6,5,4)])
    show "map_of (fs_now s') q = Some (NFile j) \<Longrightarrow> map_of (fs_now s') q' = Some (NFile j) \<Longrightarrow> q = q'" for q q' j
      using fs_okD(2) [OF ok, of q j q'] by (auto simp: s' split: if_splits)
    show "map_of (fs_now s') q = Some (NFile j) \<Longrightarrow> j < fs_next s'" for q j
      using fs_okD(3) [OF ok, of q j] by (auto simp: s' split: if_splits)
    show "map_of (fs_now s') q = Some m \<Longrightarrow> clean_abs q" for q m
      using fs_okD(6) [OF ok, of q m] by (auto simp: s' split: if_splits)
    show "map_of (fs_now s') q = Some m \<Longrightarrow> a \<in> set (ancestors q) \<Longrightarrow> map_of (fs_now s') a = Some NDir" for q m a
      using fs_okD(5) [OF ok, of q m a] np [of q m] by (auto simp: s' split: if_splits)
  qed (simp add: s')
  moreover have "file_at s' = (file_at s)(p := None)"
    by (auto simp: file_at_def s' fun_eq_iff split: option.splits node.splits)
  ultimately show ?thesis by (simp add: s')
qed

lemma os_Remove_err: "os_Remove p s = (Inl e, s') \<Longrightarrow> quiet s s'"
  by (auto simp: os_Remove_def split: option.splits sum.splits node.splits if_splits)

end
