(* ===== verification/Posix.thy ===== *)
theory Posix
  imports Posix_Fs
begin

text \<open>
  \<open>internal/storage/posix/posix.go\<close>: the POSIX driver, one definition per method, over the file
  system of \<open>Posix_Fs\<close>. The fault hook that the tests inject is part of the model. The driver is
  an instance of the storage contract, and its Put keeps the durability promise of Invariant 6:
  a crash at any point leaves the old file or the whole new one.
\<close>


section \<open>The driver\<close>

type_synonym FaultFn = "string \<Rightarrow> nat \<Rightarrow> goerr option"

record PosixBackend =
  pb_root :: string
  pb_fault :: "FaultFn option"

definition StepWriteTemp :: string where "StepWriteTemp = ''write_temp''"
definition StepFsyncFile :: string where "StepFsyncFile = ''fsync_file''"
definition StepCloseFile :: string where "StepCloseFile = ''close_file''"
definition StepOpenDir :: string where "StepOpenDir = ''open_dir''"
definition StepFsyncDirPre :: string where "StepFsyncDirPre = ''fsync_dir_pre''"
definition StepRename :: string where "StepRename = ''rename''"
definition StepFsyncDirPost :: string where "StepFsyncDirPost = ''fsync_dir_post''"
definition StepCommitRename :: string where "StepCommitRename = ''commit_rename''"
definition StepCommitFsync :: string where "StepCommitFsync = ''commit_fsync_dir''"

definition New :: "string \<Rightarrow> FaultFn option \<Rightarrow> PosixBackend res" where
  "New root fault =
     (if root = [] then Inl (errors_New ''posix: Root is required'')
      else if \<not> filepath_IsAbs root then Inl (errors_New ''posix: Root must be an absolute path'')
      else Inr \<lparr>pb_root = path_Clean root, pb_fault = fault\<rparr>)"

definition posix_Open :: "PosixBackend \<Rightarrow> (pfs, unit) op" where
  "posix_Open r s =
     (case os_MkdirAll (pb_root r) s of
        (Inl e, s1) \<Rightarrow> (Inl (wrapErr ''posix: mkdir: '' e), s1)
      | (Inr _, s1) \<Rightarrow>
          (case os_MkdirAll (path_Join [pb_root r, ''wal'']) s1 of
             (Inl e, s2) \<Rightarrow> (Inl (wrapErr ''posix: mkdir: '' e), s2)
           | (Inr _, s2) \<Rightarrow> (Inr (), s2)))"

definition abs_path :: "PosixBackend \<Rightarrow> string \<Rightarrow> string res" where
  "abs_path r rel =
     (if \<not> filepath_IsLocal rel
      then Inl (errors_New (''posix: relPath '' @ rel @ '' must be a relative, non-traversing path''))
      else Inr (path_Join [pb_root r, rel]))"

text \<open>\<open>hook\<close>: the injected fault of a step, if any; the step's position in time makes it repeatable.\<close>

definition hook :: "PosixBackend \<Rightarrow> string \<Rightarrow> pfs \<Rightarrow> goerr option" where
  "hook r step s = (case pb_fault r of None \<Rightarrow> None | Some f \<Rightarrow> f step (fs_tick s))"

record pwriter =
  pw_file :: nat
  pw_tmpAbs :: string
  pw_finalAbs :: string
  pw_id :: nat

definition posix_Put :: "PosixBackend \<Rightarrow> string \<Rightarrow> (pfs, pwriter) op" where
  "posix_Put r relPath s =
     (case abs_path r relPath of
        Inl e \<Rightarrow> (Inl e, s)
      | Inr ap \<Rightarrow>
          (let parent = path_Dir ap
           in case os_MkdirAll parent s of
                (Inl e, s1) \<Rightarrow> (Inl (wrapErr ''posix: mkdir: '' e), s1)
              | (Inr _, s1) \<Rightarrow>
                  (let tmp = ap @ ''.pgsafe-tmp''
                   in case os_Create tmp s1 of
                        (Inl e, s2) \<Rightarrow> (Inl (wrapErr ''posix: create: '' e), s2)
                      | (Inr f, s2) \<Rightarrow>
                          (case hook r StepWriteTemp s2 of
                             Some e \<Rightarrow> (Inl e, snd (fd_Close s2))
                           | None \<Rightarrow>
                               (Inr \<lparr>pw_file = f, pw_tmpAbs = tmp, pw_finalAbs = ap, pw_id = fs_handles s2\<rparr>,
                                s2\<lparr>fs_handles := Suc (fs_handles s2)\<rparr>)))))"

definition posix_Write :: "pwriter \<Rightarrow> bytes \<Rightarrow> (pfs, unit) op" where
  "posix_Write w p s = fd_Write (pw_file w) p s"

text \<open>
  \<open>Close\<close>, step by step: a failing call (\<open>sys\<close>) or a failing hook (\<open>hook_step\<close>) ends it. The
  directory stays open from \<open>StepOpenDir\<close> on; its deferred close changes nothing here.
\<close>

definition sys :: "string \<Rightarrow> (pfs, 'a) op \<Rightarrow> (pfs, unit) op \<Rightarrow> (pfs, unit) op" where
  "sys msg call k s =
     (case call s of
        (Inl e, s') \<Rightarrow> (Inl (wrapErr msg e), s')
      | (Inr _, s') \<Rightarrow> k s')"

definition hook_step :: "PosixBackend \<Rightarrow> string \<Rightarrow> (pfs, unit) op \<Rightarrow> (pfs, unit) op" where
  "hook_step r step k s = (case hook r step s of Some e \<Rightarrow> (Inl e, s) | None \<Rightarrow> k s)"

definition done_op :: "(pfs, unit) op" where
  "done_op s = (Inr (), s)"

definition close_rename :: "PosixBackend \<Rightarrow> pwriter \<Rightarrow> (pfs, unit) op" where
  "close_rename r w =
     sys ''posix: rename: '' (os_Rename (pw_tmpAbs w) (pw_finalAbs w)) (
     hook_step r StepRename (
     sys ''posix: fsync(dir) post: '' (fd_SyncDir (path_Dir (pw_finalAbs w))) (
     hook_step r StepFsyncDirPost done_op)))"

definition close_dir :: "PosixBackend \<Rightarrow> pwriter \<Rightarrow> (pfs, unit) op" where
  "close_dir r w =
     sys ''posix: open(dir): '' (os_OpenDir (path_Dir (pw_finalAbs w))) (
     hook_step r StepOpenDir (
     sys ''posix: fsync(dir) pre: '' (fd_SyncDir (path_Dir (pw_finalAbs w))) (
     hook_step r StepFsyncDirPre (close_rename r w))))"

definition posix_Close :: "PosixBackend \<Rightarrow> pwriter \<Rightarrow> (pfs, unit) op" where
  "posix_Close r w s =
     (if pw_id w \<in> set (fs_closed s) then (Inr (), s)
      else
        (let s0 = s\<lparr>fs_closed := pw_id w # fs_closed s\<rparr>
         in case fd_Sync (pw_file w) s0 of
              (Inl e, s1) \<Rightarrow> (Inl (wrapErr ''posix: fsync(file): '' e), snd (fd_Close s1))
            | (Inr _, s1) \<Rightarrow>
                (case hook r StepFsyncFile s1 of
                   Some e \<Rightarrow> (Inl e, snd (fd_Close s1))
                 | None \<Rightarrow>
                     sys ''posix: close(file): '' fd_Close (
                     hook_step r StepCloseFile (close_dir r w)) s1)))"

definition commit_move :: "PosixBackend \<Rightarrow> string \<Rightarrow> string \<Rightarrow> (pfs, unit) op" where
  "commit_move r tmpAbs finalAbs =
     sys ''posix: Commit rename: '' (os_Rename tmpAbs finalAbs) (
     hook_step r StepCommitRename (
     sys ''posix: Commit open(dir): '' (os_OpenDir (path_Dir finalAbs)) (
     sys ''posix: Commit fsync(dir): '' (fd_SyncDir (path_Dir finalAbs)) (
     hook_step r StepCommitFsync done_op))))"

definition posix_Commit :: "PosixBackend \<Rightarrow> string \<Rightarrow> string \<Rightarrow> (pfs, unit) op" where
  "posix_Commit r tmp final s =
     (case abs_path r tmp of
        Inl e \<Rightarrow> (Inl e, s)
      | Inr tmpAbs \<Rightarrow>
          (case abs_path r final of
             Inl e \<Rightarrow> (Inl e, s)
           | Inr finalAbs \<Rightarrow>
               (case os_Stat finalAbs s of
                  (Inr _, s1) \<Rightarrow>
                    (Inl (GoErr ErrExist (''posix: Commit refuses to overwrite existing '' @ final)), s1)
                | (Inl e, s1) \<Rightarrow>
                    if errors_Is e ErrNotExist then commit_move r tmpAbs finalAbs s1
                    else (Inl (wrapErr ''posix: stat final: '' e), s1))))"

definition posix_Get :: "PosixBackend \<Rightarrow> string \<Rightarrow> (pfs, reader) op" where
  "posix_Get r relPath s =
     (case abs_path r relPath of
        Inl e \<Rightarrow> (Inl e, s)
      | Inr ap \<Rightarrow>
          (case os_Open ap s of
             (Inl e, s1) \<Rightarrow> (Inl (wrapErr (''posix: open '' @ relPath @ '': '') e), s1)
           | (Inr f, s1) \<Rightarrow> (Inr f, s1)))"

definition node_info :: "string \<Rightarrow> node \<Rightarrow> pfs \<Rightarrow> FileInfo" where
  "node_info path n s =
     (case n of
        NFile i \<Rightarrow> \<lparr>fi_Path = path, fi_Size = int (length (fs_data s i)), fi_ModTime = fs_mtime s i\<rparr>
      | NDir \<Rightarrow> \<lparr>fi_Path = path, fi_Size = 4096, fi_ModTime = 0\<rparr>)"

definition posix_Stat :: "PosixBackend \<Rightarrow> string \<Rightarrow> (pfs, FileInfo) op" where
  "posix_Stat r relPath s =
     (case abs_path r relPath of
        Inl e \<Rightarrow> (Inl e, s)
      | Inr ap \<Rightarrow>
          (case os_Stat ap s of
             (Inl e, s1) \<Rightarrow> (Inl (wrapErr (''posix: stat '' @ relPath @ '': '') e), s1)
           | (Inr n, s1) \<Rightarrow> (Inr (node_info relPath n s), s1)))"

text \<open>
  The walk visits the files below the root of the walk in the lexical order of their components.
  \<open>walk_rel\<close> is the path relative to that root, \<open>.\<close> for the root itself.
\<close>

definition walk_files :: "string \<Rightarrow> pfs \<Rightarrow> (string \<times> nat) list" where
  "walk_files rootAbs s =
     sort_key (\<lambda>(p, _). strings_Split (CHR ''/'') p)
       (concat (map (\<lambda>(p, n).
          case n of
            NDir \<Rightarrow> []
          | NFile i \<Rightarrow> if p = rootAbs \<or> strings_HasPrefix p (rootAbs @ ''/'') then [(p, i)] else []) (fs_now s)))"

definition walk_rel :: "string \<Rightarrow> string \<Rightarrow> string" where
  "walk_rel rootAbs p = (if p = rootAbs then ''.'' else drop (Suc (length rootAbs)) p)"

definition list_entry :: "string \<Rightarrow> string \<Rightarrow> pfs \<Rightarrow> string \<times> nat \<Rightarrow> FileInfo list" where
  "list_entry pfx rootAbs s pi =
     (let relInWalk = walk_rel rootAbs (fst pi);
          rel = (if pfx = [] then relInWalk else path_Join [pfx, relInWalk])
      in if strings_Contains (path_Base (fst pi)) ''.pgsafe-tmp'' then []
         else if pfx = [] \<and> (strings_HasPrefix rel ''wal/'' \<or> rel = ''wal'') then []
         else [\<lparr>fi_Path = rel, fi_Size = int (length (fs_data s (snd pi))), fi_ModTime = fs_mtime s (snd pi)\<rparr>])"

definition posix_List :: "PosixBackend \<Rightarrow> string \<Rightarrow> (pfs, FileInfo list) op" where
  "posix_List r pfx s =
     (case (if pfx = [] then Inr (pb_root r) else abs_path r pfx) of
        Inl e \<Rightarrow> (Inl e, s)
      | Inr rootAbs \<Rightarrow>
          (case os_Stat rootAbs s of
             (Inl e, s1) \<Rightarrow> if errors_Is e ErrNotExist then (Inr [], s1) else (Inl e, s1)
           | (Inr _, s1) \<Rightarrow>
               (case fault_now s1 of
                  Some e \<Rightarrow> (Inl e, tick s1)
                | None \<Rightarrow> (Inr (concat (map (list_entry pfx rootAbs s1) (walk_files rootAbs s1))), tick s1))))"

definition posix_Delete :: "PosixBackend \<Rightarrow> string \<Rightarrow> (pfs, unit) op" where
  "posix_Delete r relPath s =
     (case abs_path r relPath of
        Inl e \<Rightarrow> (Inl e, s)
      | Inr ap \<Rightarrow>
          (case os_Remove ap s of
             (Inl e, s1) \<Rightarrow>
               if errors_Is e ErrNotExist
               then (Inl (GoErr ErrNotExist (''posix: Delete '' @ relPath)), s1)
               else (Inl (wrapErr (''posix: Delete '' @ relPath @ '': '') e), s1)
           | (Inr _, s1) \<Rightarrow>
               (case os_OpenDir (path_Dir ap) s1 of
                  (Inl _, s2) \<Rightarrow> (Inr (), s2)
                | (Inr _, s2) \<Rightarrow> (Inr (), snd (fd_SyncDir (path_Dir ap) s2)))))"

definition posix_backend :: "PosixBackend \<Rightarrow> (pfs, pwriter) Backend" where
  "posix_backend r =
     \<lparr>b_Open = posix_Open r, b_Put = posix_Put r, b_Write = posix_Write, b_Close = posix_Close r,
      b_Commit = posix_Commit r, b_Get = posix_Get r, b_Stat = posix_Stat r, b_List = posix_List r,
      b_Delete = posix_Delete r\<rparr>"


section \<open>The driver keeps the storage contract\<close>

definition posix_key :: "string \<Rightarrow> bool" where
  "posix_key k \<longleftrightarrow> clean_rel k \<and> \<not> strings_Contains (path_Base k) ''.pgsafe-tmp''"

definition under_root :: "PosixBackend \<Rightarrow> string \<Rightarrow> string" where
  "under_root r k = pb_root r @ CHR ''/'' # k"

definition posix_view :: "PosixBackend \<Rightarrow> pfs \<Rightarrow> string \<Rightarrow> bytes option" where
  "posix_view r s k = (if posix_key k then file_at s (under_root r k) else None)"

text \<open>Injected faults are errors of their own kind, not \<open>os.ErrExist\<close> or \<open>os.ErrNotExist\<close>.\<close>

definition faults_ok :: "PosixBackend \<Rightarrow> bool" where
  "faults_ok r \<longleftrightarrow>
     (case pb_fault r of None \<Rightarrow> True | Some f \<Rightarrow> \<forall>step n e. f step n = Some e \<longrightarrow> err_sentinel e = ErrOther)"

definition posix_inv :: "PosixBackend \<Rightarrow> pfs \<Rightarrow> bool" where
  "posix_inv r s \<longleftrightarrow> clean_abs (pb_root r) \<and> fs_ok s \<and> file_at s (pb_root r) = None \<and> faults_ok r"

definition posix_staged :: "PosixBackend \<Rightarrow> pfs \<Rightarrow> pwriter \<Rightarrow> string \<Rightarrow> bytes \<Rightarrow> bool" where
  "posix_staged r s w p d \<longleftrightarrow>
     posix_key p \<and> pw_finalAbs w = under_root r p \<and> pw_tmpAbs w = under_root r p @ ''.pgsafe-tmp'' \<and>
     map_of (fs_now s) (pw_tmpAbs w) = Some (NFile (pw_file w)) \<and> fs_data s (pw_file w) = d"

definition posix_writing :: "PosixBackend \<Rightarrow> pfs \<Rightarrow> pwriter \<Rightarrow> string \<Rightarrow> bytes \<Rightarrow> bool" where
  "posix_writing r s w p d \<longleftrightarrow>
     posix_staged r s w p d \<and> pw_id w \<notin> set (fs_closed s) \<and> pw_id w < fs_handles s"

lemma abs_path_key: "posix_inv r s \<Longrightarrow> clean_rel k \<Longrightarrow> abs_path r k = Inr (under_root r k)"
  by (simp add: abs_path_def posix_inv_def filepath_IsLocal_clean path_Join_abs under_root_def)

lemma under_root_split:
  assumes "posix_inv r s" "clean_rel k"
  obtains d b where "under_root r k = d @ CHR ''/'' # b" "CHR ''/'' \<notin> set b" "d \<noteq> []" "clean_abs d"
    "path_Dir (under_root r k) = d" "path_Base k = b" "b \<noteq> []"
  using assms(2)
proof (cases rule: clean_rel_last)
  case single
  have "clean_abs (pb_root r)" using assms(1) by (simp add: posix_inv_def)
  then show ?thesis
    using that [of "pb_root r" k] single assms(2) by (auto simp: under_root_def path_Dir_append clean_abs_def)
next
  case (nested a b)
  let ?d = "pb_root r @ CHR ''/'' # a"
  have d: "clean_abs ?d" using assms(1) nested by (auto simp: posix_inv_def clean_abs_append)
  have "under_root r k = ?d @ CHR ''/'' # b" by (simp add: under_root_def nested)
  with d nested show ?thesis using that [of ?d b] path_Dir_append [OF d nested(2)] by (auto simp: plain_comp_def)
qed

lemma clean_under_root: "posix_inv r s \<Longrightarrow> clean_rel k \<Longrightarrow> clean_abs (under_root r k)"
  by (simp add: posix_inv_def under_root_def clean_abs_append)

lemma clean_under_tmp: "posix_inv r s \<Longrightarrow> clean_rel k \<Longrightarrow> clean_abs (under_root r k @ ''.pgsafe-tmp'')"
proof -
  assume inv: "posix_inv r s" and k: "clean_rel k"
  have "clean_rel (k @ ''.pgsafe-tmp'')"
    using k
  proof (cases rule: clean_rel_last)
    case single
    then show ?thesis by (simp add: clean_rel_single plain_comp_def)
  next
    case (nested a b)
    then have "clean_rel (b @ ''.pgsafe-tmp'')" by (simp add: clean_rel_single plain_comp_def)
    with nested show ?thesis by (simp add: clean_rel_append)
  qed
  from clean_under_root [OF inv this] show ?thesis by (simp add: under_root_def)
qed

lemma root_not_under [simp]: "pb_root r \<noteq> under_root r k" "pb_root r \<noteq> under_root r k @ x"
  by (simp_all add: under_root_def)

lemma under_root_inj [simp]: "under_root r k = under_root r k' \<longleftrightarrow> k = k'"
  by (simp add: under_root_def)

lemma tmp_not_key: "clean_rel p \<Longrightarrow> \<not> posix_key (p @ ''.pgsafe-tmp'')"
proof -
  assume "clean_rel p"
  then obtain b where "path_Base (p @ ''.pgsafe-tmp'') = b @ ''.pgsafe-tmp''"
  proof (cases rule: clean_rel_last)
    case single
    then show ?thesis using that [of p] path_Base_no_slash [of "p @ ''.pgsafe-tmp''"] by simp
  next
    case (nested a b)
    then show ?thesis using that [of b] path_Base_append [of "b @ ''.pgsafe-tmp''" a] by simp
  qed
  then have "strings_Contains (path_Base (p @ ''.pgsafe-tmp'')) ''.pgsafe-tmp''" by (simp add: sublist_appendI)
  then show ?thesis by (simp add: posix_key_def)
qed

lemma tmp_not_under_key:
  "clean_rel p \<Longrightarrow> posix_key k \<Longrightarrow> under_root r k \<noteq> under_root r p @ ''.pgsafe-tmp''"
  using tmp_not_key [of p] by (auto simp: under_root_def)

text \<open>Changing the file behind a temporary name is invisible, changing the one behind a key is not.\<close>

lemma view_file_at: "file_at s' = file_at s \<Longrightarrow> posix_view r s' = posix_view r s"
  by (simp add: posix_view_def fun_eq_iff)

lemma view_tmp:
  "clean_rel p \<Longrightarrow> file_at s' = (file_at s)(under_root r p @ ''.pgsafe-tmp'' := x) \<Longrightarrow> posix_view r s' = posix_view r s"
  using tmp_not_under_key by (auto simp: posix_view_def fun_eq_iff)

lemma view_key_upd:
  "posix_key p \<Longrightarrow> file_at s' = (file_at s)(under_root r p := x) \<Longrightarrow> posix_view r s' = (posix_view r s)(p := x)"
  by (auto simp: posix_view_def fun_eq_iff)

lemma view_move:
  assumes "posix_key p" "file_at s' = ((file_at s)(under_root r p @ ''.pgsafe-tmp'' := None))(under_root r p := x)"
  shows "posix_view r s' = (posix_view r s)(p := x)"
proof
  fix k
  have "clean_rel p" using assms(1) by (simp add: posix_key_def)
  then have "posix_key k \<Longrightarrow> under_root r k \<noteq> under_root r p @ ''.pgsafe-tmp''" by (rule tmp_not_under_key)
  then show "posix_view r s' k = ((posix_view r s)(p := x)) k"
    using assms by (simp add: posix_view_def)
qed

lemma quiet_inv: "quiet s s' \<Longrightarrow> posix_inv r s \<Longrightarrow> posix_inv r s' \<and> posix_view r s' = posix_view r s"
  using quietD [of s s'] view_file_at [of s' s r] by (simp add: posix_inv_def)

lemma quiet_staged: "quiet s s' \<Longrightarrow> posix_staged r s w p d \<Longrightarrow> posix_staged r s' w p d"
  by (auto simp: quiet_def posix_staged_def)

lemma posix_Put_facts:
  assumes inv: "posix_inv r s" and key: "posix_key p" and c: "posix_Put r p s = (res, s')"
  shows "posix_inv r s' \<and> posix_view r s' = posix_view r s \<and> (\<forall>w. res = Inr w \<longrightarrow> posix_writing r s' w p [])"
proof -
  have cl: "clean_rel p" using key by (simp add: posix_key_def)
  let ?a = "under_root r p" and ?t = "under_root r p @ ''.pgsafe-tmp''"
  obtain d b where d: "?a = d @ CHR ''/'' # b" "CHR ''/'' \<notin> set b" "d \<noteq> []" "path_Dir ?a = d" "clean_abs d"
    using under_root_split [OF inv cl] by metis
  obtain m s1 where mk: "os_MkdirAll d s = (m, s1)" by (cases "os_MkdirAll d s")
  have s1: "posix_inv r s1" "posix_view r s1 = posix_view r s" "\<And>u. m = Inr u \<Longrightarrow> is_dir d s1"
    using os_MkdirAll_facts [of s d] d(5) inv mk view_file_at [of s1 s r] by (auto simp: posix_inv_def)
  show ?thesis
  proof (cases m)
    case (Inl e)
    then show ?thesis using c s1 by (auto simp: posix_Put_def abs_path_key [OF inv cl] d(4) mk Let_def)
  next
    case (Inr u)
    obtain f s2 where cr: "os_Create ?t s1 = (f, s2)" by (cases "os_Create ?t s1")
    show ?thesis
    proof (cases f)
      case (Inl e)
      then show ?thesis
        using c s1 \<open>m = Inr u\<close> quiet_inv [OF os_Create_err, of ?t s1 e s2] cr
        by (auto simp: posix_Put_def abs_path_key [OF inv cl] d(4) mk Let_def)
    next
      case (Inr i)
      have tmp: "?t = d @ CHR ''/'' # (b @ ''.pgsafe-tmp'')" "CHR ''/'' \<notin> set (b @ ''.pgsafe-tmp'')"
        using d by simp_all
      have ok1: "fs_ok s1" using s1(1) by (simp add: posix_inv_def)
      note s2 = os_Create_ok [OF ok1 tmp d(3) s1(3) [OF \<open>m = Inr u\<close>] clean_under_tmp [OF inv cl] cr [unfolded Inr]]
      have i2: "posix_inv r s2" "posix_view r s2 = posix_view r s"
        using s2(1,2) s1 view_tmp [OF cl, of s2 s1 r] by (simp_all add: posix_inv_def)
      show ?thesis
      proof (cases "hook r StepWriteTemp s2")
        case (Some e)
        then show ?thesis
          using c i2 \<open>m = Inr u\<close> Inr quiet_inv [OF quiet_calls(4), of r s2]
          by (auto simp: posix_Put_def abs_path_key [OF inv cl] d(4) mk Let_def cr)
      next
        case None
        let ?s' = "s2\<lparr>fs_handles := Suc (fs_handles s2)\<rparr>"
        have res: "res = Inr \<lparr>pw_file = i, pw_tmpAbs = ?t, pw_finalAbs = ?a, pw_id = fs_handles s2\<rparr>" "s' = ?s'"
          using c \<open>m = Inr u\<close> Inr None by (auto simp: posix_Put_def abs_path_key [OF inv cl] d(4) mk Let_def cr)
        have "fs_ok ?s'" using s2(1) unfolding fs_ok_def by (auto simp: less_Suc_eq)
        moreover have "file_at ?s' = file_at s2"
          by (simp add: file_at_def fun_eq_iff split: option.splits node.splits)
        moreover have "fs_handles s2 \<notin> set (fs_closed s2)" using fs_okD(4) [OF s2(1)] by auto
        ultimately show ?thesis
          using res i2 s2(3,4) key view_file_at [of ?s' s2 r] by (simp add: posix_inv_def posix_writing_def posix_staged_def)
      qed
    qed
  qed
qed

lemma posix_Write_facts:
  assumes inv: "posix_inv r s" and w: "posix_writing r s w p d" and c: "posix_Write w x s = (res, s')"
  shows "posix_inv r s' \<and> posix_view r s' = posix_view r s \<and>
         (\<exists>k. posix_writing r s' w p (d @ take k x) \<and> (res = Inr () \<longrightarrow> take k x = x))"
proof -
  have cl: "clean_rel p" using w by (simp add: posix_writing_def posix_staged_def posix_key_def)
  have ok: "fs_ok s" using inv by (simp add: posix_inv_def)
  have t: "map_of (fs_now s) (under_root r p @ ''.pgsafe-tmp'') = Some (NFile (pw_file w))"
    using w by (auto simp: posix_writing_def posix_staged_def)
  from fd_Write_facts [OF ok t c [unfolded posix_Write_def]] obtain k where
    k: "fs_ok s'" "fs_now s' = fs_now s" "fs_closed s' = fs_closed s" "fs_data s' (pw_file w) = d @ take k x"
      "file_at s' = (file_at s)(under_root r p @ ''.pgsafe-tmp'' \<mapsto> fs_data s (pw_file w) @ take k x)"
      "res = Inr () \<longrightarrow> take k x = x" "fs_handles s' = fs_handles s"
    using w by (auto simp: posix_writing_def posix_staged_def)
  have "posix_view r s' = posix_view r s" by (rule view_tmp [OF cl k(5)])
  moreover have "posix_writing r s' w p (d @ take k x)"
    using w k(2-4,7) by (auto simp: posix_writing_def posix_staged_def)
  ultimately show ?thesis using k(1,5,6) inv by (auto simp: posix_inv_def)
qed

text \<open>Case rules for the steps of \<open>Close\<close> and \<open>Commit\<close>.\<close>

lemma sys_cases:
  "(\<And>e s1. call s = (Inl e, s1) \<Longrightarrow> Q (Inl (wrapErr msg e), s1)) \<Longrightarrow>
   (\<And>a s1. call s = (Inr a, s1) \<Longrightarrow> Q (k s1)) \<Longrightarrow> Q (sys msg call k s)"
  by (auto simp: sys_def split: prod.splits sum.splits)

lemma hook_cases: "(\<And>e. Q (Inl e, s)) \<Longrightarrow> Q (k s) \<Longrightarrow> Q (hook_step r step k s)"
  by (auto simp: hook_step_def split: option.splits)

lemma sys_quiet:
  assumes "\<And>t. quiet t (snd (call t))" "quiet s0 s" "\<And>e s1. quiet s0 s1 \<Longrightarrow> Q (Inl e, s1)"
    "\<And>s1. quiet s0 s1 \<Longrightarrow> Q (k s1)"
  shows "Q (sys msg call k s)"
proof (rule sys_cases)
  show "Q (Inl (wrapErr msg e), s1)" if "call s = (Inl e, s1)" for e s1
    using assms(1) [of s] assms(2,3) that quiet_trans by (metis snd_conv)
  show "Q (k s1)" if "call s = (Inr a, s1)" for a s1
    using assms(1) [of s] assms(2,4) that quiet_trans by (metis snd_conv)
qed

definition closing :: "PosixBackend \<Rightarrow> pfs \<Rightarrow> string \<Rightarrow> bytes \<Rightarrow> unit res \<times> pfs \<Rightarrow> bool" where
  "closing r s p d out \<longleftrightarrow>
     posix_inv r (snd out) \<and>
     (posix_view r (snd out) = (posix_view r s)(p \<mapsto> d) \<or> fst out \<noteq> Inr () \<and> posix_view r (snd out) = posix_view r s)"

lemma closing_after:
  assumes "posix_inv r s1" "posix_view r s1 = (posix_view r s)(p \<mapsto> d)"
  shows "closing r s p d (hook_step r StepRename (
     sys ''posix: fsync(dir) post: '' (fd_SyncDir dd) (
     hook_step r StepFsyncDirPost done_op)) s1)"
proof -
  have fin: "closing r s p d (res, t)" if "quiet s1 t" for res t
    using quiet_inv [OF that assms(1)] assms(2) by (simp add: closing_def)
  show ?thesis
  proof (rule hook_cases [where Q = "closing r s p d"])
    show "closing r s p d (sys ''posix: fsync(dir) post: '' (fd_SyncDir dd) (hook_step r StepFsyncDirPost done_op) s1)"
      by (rule sys_quiet [where ?s0.0 = s1 and Q = "closing r s p d", OF quiet_calls(6) quiet_refl(1)])
         (auto intro!: hook_cases [where Q = "closing r s p d"] simp: done_op_def fin)
  qed (simp add: fin)
qed

lemma closing_rename:
  assumes "posix_inv r s" "posix_staged r s w p d" "quiet s s1"
  shows "closing r s p d (close_rename r w s1)"
proof -
  have inv1: "posix_inv r s1" "posix_view r s1 = posix_view r s" and w1: "posix_staged r s1 w p d"
    using quiet_inv [OF assms(3,1)] quiet_staged [OF assms(3,2)] by auto
  let ?f = "under_root r p" and ?t = "under_root r p @ ''.pgsafe-tmp''"
  have w: "pw_finalAbs w = ?f" "pw_tmpAbs w = ?t" "posix_key p" "clean_rel p" "file_at s1 ?t = Some d"
    using w1 by (auto simp: posix_staged_def posix_key_def file_at_def)
  have ok1: "fs_ok s1" using inv1 by (simp add: posix_inv_def)
  obtain dd b where f: "?f = dd @ CHR ''/'' # b" "CHR ''/'' \<notin> set b" "dd \<noteq> []" "path_Dir ?f = dd"
    using under_root_split [OF inv1(1) w(4)] by metis
  show ?thesis
    unfolding close_rename_def w
  proof (rule sys_cases [where Q = "closing r s p d"])
    fix e s2
    assume "os_Rename ?t ?f s1 = (Inl e, s2)"
    from quiet_inv [OF os_Rename_err [OF this] inv1(1)] inv1(2)
    show "closing r s p d (Inl (wrapErr ''posix: rename: '' e), s2)" by (simp add: closing_def)
  next
    fix u s2
    assume c: "os_Rename ?t ?f s1 = (Inr u, s2)"
    have "fs_ok s2 \<and> file_at s2 = (file_at s1)(?t := None, ?f := Some d)"
      using os_Rename_ok [OF ok1 _ f _ clean_under_root [OF inv1(1) w(4)] c] w(5) by auto
    then have v: "fs_ok s2" "file_at s2 = ((file_at s1)(?t := None))(?f := Some d)" by auto
    have "posix_view r s2 = (posix_view r s)(p \<mapsto> d)"
      using view_move [OF w(3) v(2)] inv1(2) by simp
    moreover have "posix_inv r s2" using v inv1(1) by (simp add: posix_inv_def)
    ultimately show "closing r s p d (hook_step r StepRename
        (sys ''posix: fsync(dir) post: '' (fd_SyncDir (path_Dir ?f)) (hook_step r StepFsyncDirPost done_op)) s2)"
      by (rule closing_after [rotated])
  qed
qed

lemma closing_dir:
  assumes "posix_inv r s" "posix_staged r s w p d" "quiet s s1"
  shows "closing r s p d (close_dir r w s1)"
proof -
  have stop: "closing r s p d (Inl e, t)" if "quiet s t" for e t
    using quiet_inv [OF that assms(1)] by (simp add: closing_def)
  note hooks = hook_cases [where Q = "closing r s p d"]
  show ?thesis
    unfolding close_dir_def
    by (rule sys_quiet [where ?s0.0 = s and Q = "closing r s p d", OF quiet_calls(5) assms(3) stop], assumption,
        rule hooks, erule stop,
        rule sys_quiet [where ?s0.0 = s and Q = "closing r s p d", OF quiet_calls(6) _ stop], assumption+,
        rule hooks, erule stop, erule closing_rename [OF assms(1,2)])
qed

lemma posix_Close_facts:
  assumes inv: "posix_inv r s" and w: "posix_writing r s w p d"
  shows "closing r s p d (posix_Close r w s)"
proof -
  let ?s0 = "s\<lparr>fs_closed := pw_id w # fs_closed s\<rparr>"
  have w': "pw_id w \<notin> set (fs_closed s)" "pw_id w < fs_handles s" "posix_staged r ?s0 w p d"
    using w by (auto simp: posix_writing_def posix_staged_def)
  have fa: "file_at ?s0 = file_at s"
    by (simp add: file_at_def fun_eq_iff split: option.splits node.splits)
  have i0: "posix_inv r ?s0" "posix_view r ?s0 = posix_view r s"
    using inv w'(2) view_file_at [OF fa] fa by (simp_all add: posix_inv_def fs_ok_def)
  have eq: "closing r s p d = closing r ?s0 p d" using i0(2) by (simp add: closing_def fun_eq_iff)
  have stop: "closing r ?s0 p d (Inl e, t)" if "quiet ?s0 t" for e t
    using quiet_inv [OF that i0(1)] by (simp add: closing_def)
  obtain a s1 where sy: "fd_Sync (pw_file w) ?s0 = (a, s1)" by (cases "fd_Sync (pw_file w) ?s0")
  have q1: "quiet ?s0 s1" using quiet_calls(3) [of ?s0 "pw_file w"] sy by simp
  have stop1: "closing r ?s0 p d (Inl e, snd (fd_Close s1))" for e
    by (rule stop [OF quiet_trans [OF q1 quiet_calls(4)]])
  note hooks = hook_cases [where Q = "closing r ?s0 p d"]
  have "closing r ?s0 p d (sys ''posix: close(file): '' fd_Close (hook_step r StepCloseFile (close_dir r w)) s1)"
    by (rule sys_quiet [where ?s0.0 = ?s0 and Q = "closing r ?s0 p d", OF quiet_calls(4) q1 stop], assumption,
        rule hooks, erule stop, erule closing_dir [OF i0(1) w'(3)])
  then show ?thesis
    using w'(1) stop1 unfolding eq posix_Close_def Let_def
    by (auto simp: sy split: sum.splits option.splits)
qed

definition moved :: "PosixBackend \<Rightarrow> pfs \<Rightarrow> string \<Rightarrow> string \<Rightarrow> unit res \<times> pfs \<Rightarrow> bool" where
  "moved r s t f out \<longleftrightarrow>
     posix_inv r (snd out) \<and> posix_view r (snd out) = (posix_view r s)(t := None, f := posix_view r s t) \<and>
     (\<forall>e. fst out = Inl e \<longrightarrow> \<not> errors_Is e ErrExist)"

lemma hook_kind: "faults_ok r \<Longrightarrow> hook r step s = Some e \<Longrightarrow> err_sentinel e = ErrOther"
  by (auto simp: hook_def faults_ok_def split: option.splits)

lemma call_kinds:
  "os_OpenDir p s = (Inl e, s') \<Longrightarrow> \<not> errors_Is e ErrExist" "fd_SyncDir p s = (Inl e, s') \<Longrightarrow> \<not> errors_Is e ErrExist"
  "os_Rename p q s = (Inl e, s') \<Longrightarrow> \<not> errors_Is e ErrExist"
  "os_Stat p s = (Inl e, s') \<Longrightarrow> \<not> errors_Is e ErrExist"
  by (auto simp: os_OpenDir_def fd_SyncDir_def os_Rename_def os_Stat_def fault_now_def lookup_def ENOTDIR_def
      ENOENT_def EISDIR_def split: option.splits sum.splits node.splits if_splits prod.splits)

lemma moved_after:
  assumes "posix_inv r s1" "posix_view r s1 = (posix_view r s)(t := None, f := posix_view r s t)"
  shows "moved r s t f (hook_step r StepCommitRename (
     sys ''posix: Commit open(dir): '' (os_OpenDir dd) (
     sys ''posix: Commit fsync(dir): '' (fd_SyncDir dd) (
     hook_step r StepCommitFsync done_op))) s1)"
proof -
  have fk: "faults_ok r" using assms(1) by (simp add: posix_inv_def)
  have fin: "moved r s t f (res, u)" if "quiet s1 u" "\<And>e. res = Inl e \<Longrightarrow> \<not> errors_Is e ErrExist" for res u
    using quiet_inv [OF that(1) assms(1)] assms(2) that(2) by (simp add: moved_def)
  have hk: "moved r s t f (hook_step r step k u)" if "quiet s1 u" "moved r s t f (k u)" for step k u
  proof (cases "hook r step u")
    case None
    then show ?thesis using that(2) by (simp add: hook_step_def)
  next
    case (Some e)
    then show ?thesis
      using fin [OF that(1), of "Inl e"] hook_kind [OF fk Some] by (simp add: hook_step_def errors_Is_def)
  qed
  have dn: "moved r s t f (done_op u)" if "quiet s1 u" for u using fin [OF that, of "Inr ()"] by (simp add: done_op_def)
  have sy: "moved r s t f (sys ''posix: Commit fsync(dir): '' (fd_SyncDir dd) (hook_step r StepCommitFsync done_op) u)"
    if u: "quiet s1 u" for u
  proof (rule sys_cases [where Q = "moved r s t f"])
    show "moved r s t f (Inl (wrapErr ''posix: Commit fsync(dir): '' e), v)" if c: "fd_SyncDir dd u = (Inl e, v)" for e v
      using fin [of v "Inl (wrapErr ''posix: Commit fsync(dir): '' e)"] call_kinds(2) [OF c] quiet_calls(6) [of u dd]
        quiet_trans [OF u] c by simp
    show "moved r s t f (hook_step r StepCommitFsync done_op v)" if c: "fd_SyncDir dd u = (Inr a, v)" for a v
      using quiet_calls(6) [of u dd] quiet_trans [OF u] c by (intro hk dn) simp_all
  qed
  show ?thesis
  proof (rule hk [OF quiet_refl(1)], rule sys_cases [where Q = "moved r s t f"])
    show "moved r s t f (Inl (wrapErr ''posix: Commit open(dir): '' e), v)" if c: "os_OpenDir dd s1 = (Inl e, v)" for e v
      using fin [of v "Inl (wrapErr ''posix: Commit open(dir): '' e)"] call_kinds(1) [OF c] quiet_calls(5) [of s1 dd] c
      by simp
    show "moved r s t f (sys ''posix: Commit fsync(dir): '' (fd_SyncDir dd) (hook_step r StepCommitFsync done_op) v)"
      if c: "os_OpenDir dd s1 = (Inr a, v)" for a v
      using quiet_calls(5) [of s1 dd] c by (intro sy) simp
  qed
qed

lemma posix_Commit_facts:
  assumes inv: "posix_inv r s" and t: "posix_view r s t \<noteq> None" and f: "posix_key f" and tf: "t \<noteq> f"
  shows "posix_inv r (snd (posix_Commit r t f s)) \<and>
     (posix_view r s f = None \<and> moved r s t f (posix_Commit r t f s) \<or>
      posix_view r (snd (posix_Commit r t f s)) = posix_view r s \<and> (\<exists>e. fst (posix_Commit r t f s) = Inl e))"
proof -
  have cl: "clean_rel f" "clean_rel t" "posix_key t" using f t by (auto simp: posix_key_def posix_view_def split: if_splits)
  let ?f = "under_root r f" and ?t = "under_root r t"
  obtain a s1 where st: "os_Stat ?f s = (a, s1)" by (cases "os_Stat ?f s")
  have q1: "quiet s s1" using quiet_calls(1) [of s ?f] st by simp
  note v1 = quiet_inv [OF q1 inv]
  have un: "posix_Commit r t f s = (case os_Stat ?f s of
        (Inr _, s1) \<Rightarrow> (Inl (GoErr ErrExist (''posix: Commit refuses to overwrite existing '' @ f)), s1)
      | (Inl e, s1) \<Rightarrow>
          if errors_Is e ErrNotExist then commit_move r ?t ?f s1
          else (Inl (wrapErr ''posix: stat final: '' e), s1))"
    by (simp add: posix_Commit_def abs_path_key [OF inv cl(1)] abs_path_key [OF inv cl(2)])
  show ?thesis
  proof (cases "\<exists>e. a = Inl e \<and> errors_Is e ErrNotExist")
    case False
    then show ?thesis using v1 unfolding un st by (auto split: sum.splits)
  next
    case True
    then obtain e where e: "a = Inl e" "errors_Is e ErrNotExist" by blast
    have nf: "map_of (fs_now s) ?f = None"
      using st e by (auto simp: os_Stat_def fault_now_def split: option.splits dest: lookup_simps(3))
    then have vf: "posix_view r s f = None" by (simp add: posix_view_def file_at_def)
    have cm: "posix_Commit r t f s = commit_move r ?t ?f s1" using e unfolding un st by simp
    obtain b s2 where rn: "os_Rename ?t ?f s1 = (b, s2)" by (cases "os_Rename ?t ?f s1")
    show ?thesis
    proof (cases b)
      case (Inl e')
      then show ?thesis
        using quiet_inv [OF os_Rename_err [of ?t ?f s1 e' s2], of r] rn v1
        unfolding cm commit_move_def sys_def by auto
    next
      case (Inr u)
      obtain d b' where d: "?f = d @ CHR ''/'' # b'" "CHR ''/'' \<notin> set b'" "d \<noteq> []" "path_Dir ?f = d"
        using under_root_split [OF inv cl(1)] by metis
      have ok1: "fs_ok s1" "file_at s1 ?t \<noteq> None" "?t \<noteq> ?f"
        using v1 t tf cl quietD [OF q1] by (auto simp: posix_inv_def posix_view_def)
      have "fs_ok s2 \<and> file_at s2 = (file_at s1)(?t := None, ?f := file_at s1 ?t)"
        using os_Rename_ok [OF ok1(1,2) d ok1(3) clean_under_root [OF inv cl(1)] rn [unfolded Inr]] by blast
      then have s2: "posix_inv r s2" "posix_view r s2 = (posix_view r s)(t := None, f := posix_view r s t)"
        using v1 cl f quietD [OF q1] by (auto simp: posix_inv_def posix_view_def fun_eq_iff)
      have "posix_Commit r t f s = hook_step r StepCommitRename (
          sys ''posix: Commit open(dir): '' (os_OpenDir (path_Dir ?f)) (
          sys ''posix: Commit fsync(dir): '' (fd_SyncDir (path_Dir ?f)) (
          hook_step r StepCommitFsync done_op))) s2"
        unfolding cm commit_move_def sys_def [of "''posix: Commit rename: ''"] by (simp add: rn Inr)
      with moved_after [OF s2, of "path_Dir ?f"] vf show ?thesis by (simp add: moved_def)
    qed
  qed
qed

lemma posix_Get_facts:
  assumes inv: "posix_inv r s" and key: "posix_key p" and c: "posix_Get r p s = (res, s')"
  shows "quiet s s' \<and> (\<forall>d. res = Inr (d, None) \<longrightarrow> posix_view r s p = Some d) \<and>
         (\<forall>e. res = Inl e \<longrightarrow> errors_Is e ErrNotExist \<longrightarrow> posix_view r s p = None)"
proof -
  have cl: "clean_rel p" using key by (simp add: posix_key_def)
  let ?a = "under_root r p"
  have s': "s' = snd (os_Open ?a s)"
    using c by (auto simp: posix_Get_def abs_path_key [OF inv cl] split: prod.splits sum.splits)
  have q: "quiet s s'" using quiet_calls(2) [of s ?a] s' by simp
  moreover have "posix_view r s p = Some d" if "res = Inr (d, None)" for d
    using c that key
    by (auto simp: posix_Get_def abs_path_key [OF inv cl] os_Open_def posix_view_def file_at_def
        split: prod.splits sum.splits option.splits node.splits dest: lookup_simps(2))
  moreover have "posix_view r s p = None" if "res = Inl e" "errors_Is e ErrNotExist" for e
    using c that key
    by (auto simp: posix_Get_def abs_path_key [OF inv cl] os_Open_def posix_view_def file_at_def fault_now_def
        split: prod.splits sum.splits option.splits node.splits dest: lookup_simps(3))
  ultimately show ?thesis by blast
qed

lemma posix_Stat_facts:
  assumes inv: "posix_inv r s" and key: "posix_key p" and c: "posix_Stat r p s = (res, s')"
  shows "quiet s s' \<and> (\<forall>e. res = Inl e \<longrightarrow> errors_Is e ErrNotExist \<longrightarrow> posix_view r s p = None)"
proof -
  have cl: "clean_rel p" using key by (simp add: posix_key_def)
  let ?a = "under_root r p"
  have s': "s' = snd (os_Stat ?a s)"
    using c by (auto simp: posix_Stat_def abs_path_key [OF inv cl] split: prod.splits sum.splits)
  have q: "quiet s s'" using quiet_calls(1) [of s ?a] s' by simp
  moreover have "posix_view r s p = None" if "res = Inl e" "errors_Is e ErrNotExist" for e
    using c that key
    by (auto simp: posix_Stat_def abs_path_key [OF inv cl] os_Stat_def posix_view_def file_at_def fault_now_def
        split: prod.splits sum.splits option.splits node.splits dest: lookup_simps(3))
  ultimately show ?thesis by blast
qed

lemma posix_Delete_facts:
  assumes inv: "posix_inv r s" and key: "posix_key p" and c: "posix_Delete r p s = (res, s')"
  shows "posix_inv r s' \<and> (res = Inr () \<longrightarrow> posix_view r s' = (posix_view r s)(p := None)) \<and>
         (\<forall>e. res = Inl e \<longrightarrow> posix_view r s' = posix_view r s)"
proof -
  have cl: "clean_rel p" using key by (simp add: posix_key_def)
  let ?a = "under_root r p"
  obtain b s1 where rm: "os_Remove ?a s = (b, s1)" by (cases "os_Remove ?a s")
  show ?thesis
  proof (cases b)
    case (Inl e)
    then show ?thesis
      using c quiet_inv [OF os_Remove_err [of ?a s e s1] inv] rm
      by (auto simp: posix_Delete_def abs_path_key [OF inv cl] split: if_splits)
  next
    case (Inr u)
    have ok: "fs_ok s" using inv by (simp add: posix_inv_def)
    have "fs_ok s1" "file_at s1 = (file_at s)(?a := None)" using os_Remove_ok [OF ok rm [unfolded Inr]] by auto
    then have s1: "posix_inv r s1" "posix_view r s1 = (posix_view r s)(p := None)"
      using inv view_key_upd [OF key] by (auto simp: posix_inv_def)
    obtain o2 s2 where od: "os_OpenDir (path_Dir ?a) s1 = (o2, s2)" by (cases "os_OpenDir (path_Dir ?a) s1")
    have q2: "quiet s1 s2" using quiet_calls(5) [of s1 "path_Dir ?a"] od by simp
    note q3 = quiet_trans [OF q2 quiet_calls(6) [of s2 "path_Dir ?a"]]
    have "res = Inr () \<and> quiet s1 s'"
      using c Inr rm od q2 q3 by (cases o2) (auto simp: posix_Delete_def abs_path_key [OF inv cl])
    with quiet_inv [of s1 s' r] s1 show ?thesis by auto
  qed
qed

text \<open>
  \<open>List\<close>: every walked file lies under the root at a clean key, and \<open>list_entry\<close> reports that key
  unless it is a temporary file or, from the root, part of \<open>wal/\<close>.
\<close>

definition strip_root :: "PosixBackend \<Rightarrow> string \<Rightarrow> string" where
  "strip_root r p = drop (Suc (length (pb_root r))) p"

lemma strip_under [simp]: "strip_root r (under_root r k) = k"
  by (simp add: strip_root_def under_root_def)

lemma clean_rel_of_abs: "clean_abs a \<Longrightarrow> clean_abs (a @ CHR ''/'' # k) \<Longrightarrow> clean_rel k"
  by (auto simp: clean_abs_def clean_rel_append)

lemma path_Base_under:
  assumes "posix_inv r s" "clean_rel k"
  shows "path_Base (under_root r k) = path_Base k"
proof (rule under_root_split [OF assms])
  fix d b
  assume "under_root r k = d @ CHR ''/'' # b" "CHR ''/'' \<notin> set b" "path_Base k = b" "b \<noteq> []"
  then show ?thesis by (simp add: path_Base_append)
qed

lemma path_Join_dot: "clean_rel p \<Longrightarrow> path_Join [p, ''.''] = p"
proof -
  assume p: "clean_rel p"
  have "strings_Split (CHR ''/'') (p @ CHR ''/'' # ''.'') = strings_Split (CHR ''/'') p @ [''.'']"
    by (subst strings_Split_append) simp
  with p show ?thesis
    using clean_rel_not_abs [OF p] clean_rel_nonempty [OF p]
    by (auto simp: path_Join_def path_Clean_def Let_def foldl_clean_push clean_rel_def hd_append)
qed

definition walk_root :: "PosixBackend \<Rightarrow> string \<Rightarrow> string" where
  "walk_root r p = (if p = [] then pb_root r else under_root r p)"

lemma in_walk_files:
  "(q, i) \<in> set (walk_files ra s) \<longleftrightarrow> (q, NFile i) \<in> set (fs_now s) \<and> (q = ra \<or> strings_HasPrefix q (ra @ ''/''))"
  by (fastforce simp: walk_files_def split: node.splits if_splits)

lemma walk_key:
  assumes inv: "posix_inv r s" and p: "p = [] \<or> posix_key p" and q: "(q, i) \<in> set (walk_files (walk_root r p) s)"
  obtains k where "q = under_root r k" "clean_rel k" "file_at s q = Some (fs_data s i)" "p \<noteq> [] \<longrightarrow> listed p k"
    "(if p = [] then walk_rel (walk_root r p) q else path_Join [p, walk_rel (walk_root r p) q]) = k"
proof -
  have ok: "fs_ok s" using inv by (simp add: posix_inv_def)
  have m: "map_of (fs_now s) q = Some (NFile i)"
    using q fs_okD(1) [OF ok] by (auto simp: in_walk_files intro: map_of_is_SomeI)
  then have fa: "file_at s q = Some (fs_data s i)" by (simp add: file_at_def)
  have cq: "clean_abs q" using fs_okD(6) [OF ok m] .
  have cr: "clean_abs (pb_root r)" "file_at s (pb_root r) = None" using inv by (auto simp: posix_inv_def)
  have w: "q = walk_root r p \<or> strings_HasPrefix q (walk_root r p @ ''/'')" using q by (simp add: in_walk_files)
  show ?thesis
  proof (cases "p = []")
    case True
    with w cr(2) fa have "strings_HasPrefix q (pb_root r @ ''/'')" by (auto simp: walk_root_def)
    then obtain k where k: "q = under_root r k" by (auto simp: prefix_def under_root_def)
    moreover have "clean_rel k" using clean_rel_of_abs [OF cr(1)] cq k by (simp add: under_root_def)
    moreover have "walk_rel (walk_root r p) q = k" using k True by (simp add: walk_rel_def walk_root_def under_root_def)
    ultimately show ?thesis using that [of k] fa True by simp
  next
    case False
    then have cp: "clean_rel p" using p by (simp add: posix_key_def)
    from w False consider "q = under_root r p" | k' where "q = under_root r p @ CHR ''/'' # k'"
      by (auto simp: walk_root_def prefix_def)
    then show ?thesis
    proof cases
      case 1
      then show ?thesis
        using that [of p] False cp fa path_Join_dot [OF cp] by (simp add: walk_rel_def walk_root_def listed_def)
    next
      case 2
      let ?k = "p @ CHR ''/'' # k'"
      have qk: "q = under_root r ?k" by (simp add: 2 under_root_def)
      have ck: "clean_rel ?k" using clean_rel_of_abs [OF cr(1)] cq qk by (simp add: under_root_def)
      then have "path_Join [p, k'] = ?k" using cp by (simp add: path_Join_rel clean_rel_append)
      moreover have "walk_rel (walk_root r p) q = k'" using False by (simp add: 2 walk_rel_def walk_root_def)
      moreover have "listed p ?k" using False by (simp add: listed_def prefix_def)
      ultimately show ?thesis using that [of ?k] qk ck fa False by simp
    qed
  qed
qed

lemma list_entry_key:
  assumes inv: "posix_inv r s" and p: "p = [] \<or> posix_key p" and q: "(q, i) \<in> set (walk_files (walk_root r p) s)"
  shows "list_entry p (walk_root r p) s (q, i) =
         (if posix_key (strip_root r q) \<and> listed p (strip_root r q)
          then [\<lparr>fi_Path = strip_root r q, fi_Size = int (length (fs_data s i)), fi_ModTime = fs_mtime s i\<rparr>] else []) \<and>
         q = under_root r (strip_root r q) \<and> file_at s q = Some (fs_data s i)"
  using assms
proof (rule walk_key)
  fix k
  assume k: "q = under_root r k" "clean_rel k" "file_at s q = Some (fs_data s i)" "p \<noteq> [] \<longrightarrow> listed p k"
    and rel: "(if p = [] then walk_rel (walk_root r p) q else path_Join [p, walk_rel (walk_root r p) q]) = k"
  have "path_Base q = path_Base k" using path_Base_under [OF inv k(2)] k(1) by simp
  then show ?thesis
    using k unfolding list_entry_def Let_def fst_conv snd_conv rel
    by (auto simp: posix_key_def listed_def)
qed

lemma distinct_concat_keys:
  assumes "\<And>e. g e = [] \<or> (\<exists>y. g e = [(fst e, y)])" "distinct (map fst es)"
  shows "distinct (map fst (concat (map g es))) \<and> set (map fst (concat (map g es))) \<subseteq> set (map fst es)"
  using assms(2)
proof (induction es)
  case (Cons e es)
  then have "distinct (map fst (concat (map g es)))" "fst e \<notin> set (map fst (concat (map g es)))"
    "set (map fst (concat (map g es))) \<subseteq> set (map fst es)" by auto
  then show ?case using assms(1) [of e] by (elim disjE exE) auto
qed simp

lemma distinct_walk_files:
  assumes "distinct (map fst (fs_now s))"
  shows "distinct (map fst (walk_files ra s))"
proof -
  let ?f = "\<lambda>(p, n). case n of NDir \<Rightarrow> [] | NFile i \<Rightarrow> if p = ra \<or> strings_HasPrefix p (ra @ ''/'') then [(p, i)] else []"
  have "?f e = [] \<or> (\<exists>y. ?f e = [(fst e, y)])" for e by (cases e; cases "snd e") auto
  from distinct_concat_keys [of ?f, OF this assms] show ?thesis by (simp add: walk_files_def distinct_map)
qed

lemma list_entries:
  assumes inv: "posix_inv r s" and p: "p = [] \<or> posix_key p"
    and xs: "xs = concat (map (list_entry p (walk_root r p) s) (walk_files (walk_root r p) s))"
  shows "distinct (map fi_Path xs) \<and> set (map fi_Path xs) = {k. posix_view r s k \<noteq> None \<and> listed p k} \<and>
         (\<forall>x \<in> set xs. \<forall>d. posix_view r s (fi_Path x) = Some d \<longrightarrow> fi_Size x = int (length d))"
proof -
  let ?W = "walk_files (walk_root r p) s"
  let ?keep = "\<lambda>(q, i). posix_key (strip_root r q) \<and> listed p (strip_root r q)"
  have entry: "list_entry p (walk_root r p) s x = (if ?keep x
        then [\<lparr>fi_Path = strip_root r (fst x), fi_Size = int (length (fs_data s (snd x))), fi_ModTime = fs_mtime s (snd x)\<rparr>]
        else []) \<and> fst x = under_root r (strip_root r (fst x)) \<and> file_at s (fst x) = Some (fs_data s (snd x))"
    if "x \<in> set ?W" for x
    using list_entry_key [OF inv p, of "fst x" "snd x"] that by (simp add: case_prod_unfold)
  have ok: "fs_ok s" using inv by (simp add: posix_inv_def)
  have xs': "xs = map (\<lambda>x. \<lparr>fi_Path = strip_root r (fst x), fi_Size = int (length (fs_data s (snd x))),
      fi_ModTime = fs_mtime s (snd x)\<rparr>) (filter ?keep ?W)"
  proof -
    have "concat (map (list_entry p (walk_root r p) s) ys) = map (\<lambda>x. \<lparr>fi_Path = strip_root r (fst x),
        fi_Size = int (length (fs_data s (snd x))), fi_ModTime = fs_mtime s (snd x)\<rparr>) (filter ?keep ys)"
      if "set ys \<subseteq> set ?W" for ys
      using that by (induction ys) (use entry in auto)
    then show ?thesis unfolding xs by blast
  qed
  have inj: "inj_on (strip_root r \<circ> fst) (set ?W)"
  proof (rule inj_onI)
    fix x y
    assume a: "x \<in> set ?W" "y \<in> set ?W" "(strip_root r \<circ> fst) x = (strip_root r \<circ> fst) y"
    then have "fst x = fst y" using entry [of x] entry [of y] by (metis comp_apply)
    then show "x = y" using a(1,2) distinct_walk_files [OF fs_okD(1) [OF ok], of "walk_root r p"]
      by (auto simp: distinct_map dest: inj_onD)
  qed
  have "distinct (map fi_Path xs)"
  proof -
    have "distinct ?W" using distinct_walk_files [OF fs_okD(1) [OF ok]] by (simp add: distinct_map)
    then have "distinct (map (strip_root r \<circ> fst) (filter ?keep ?W))"
      using inj by (auto simp: distinct_map inj_on_def)
    then show ?thesis by (simp add: xs' comp_def)
  qed
  moreover have "set (map fi_Path xs) = {k. posix_view r s k \<noteq> None \<and> listed p k}" (is "?L = ?R")
  proof (intro set_eqI iffI)
    fix k
    assume "k \<in> ?L"
    then obtain x where x: "x \<in> set ?W" "?keep x" "k = strip_root r (fst x)" by (auto simp: xs')
    then show "k \<in> ?R" using entry [OF x(1)] by (auto simp: posix_view_def case_prod_unfold)
  next
    fix k
    assume k: "k \<in> ?R"
    then have key: "posix_key k" "file_at s (under_root r k) \<noteq> None"
      by (auto simp: posix_view_def split: if_splits)
    then obtain i where i: "map_of (fs_now s) (under_root r k) = Some (NFile i)"
      by (auto simp: file_at_def split: option.splits node.splits)
    have "under_root r k = walk_root r p \<or> strings_HasPrefix (under_root r k) (walk_root r p @ ''/'')"
      using k by (auto simp: listed_def walk_root_def under_root_def prefix_def split: if_splits)
    then have "(under_root r k, i) \<in> set ?W" using map_of_SomeD [OF i] by (simp add: in_walk_files)
    then show "k \<in> ?L" using key(1) k by (force simp: xs')
  qed
  moreover have "fi_Size x = int (length d)" if x: "x \<in> set xs" and d: "posix_view r s (fi_Path x) = Some d" for x d
  proof -
    obtain y where "y \<in> set (filter ?keep ?W)" "x = \<lparr>fi_Path = strip_root r (fst y),
        fi_Size = int (length (fs_data s (snd y))), fi_ModTime = fs_mtime s (snd y)\<rparr>"
      using x unfolding xs' set_map by blast
    then have y: "y \<in> set ?W" "?keep y" "fi_Path x = strip_root r (fst y)" "fi_Size x = int (length (fs_data s (snd y)))"
      by auto
    then show ?thesis using entry [OF y(1)] d by (auto simp: posix_view_def case_prod_unfold)
  qed
  ultimately show ?thesis by blast
qed

lemma posix_List_facts:
  assumes inv: "posix_inv r s" and p: "p = [] \<or> posix_key p" and c: "posix_List r p s = (res, s')"
  shows "quiet s s' \<and> (\<forall>xs. res = Inr xs \<longrightarrow>
           distinct (map fi_Path xs) \<and> set (map fi_Path xs) = {k. posix_view r s k \<noteq> None \<and> listed p k} \<and>
           (\<forall>x \<in> set xs. \<forall>d. posix_view r s (fi_Path x) = Some d \<longrightarrow> fi_Size x = int (length d))) \<and>
         (\<forall>e. res = Inl e \<longrightarrow> \<not> errors_Is e ErrNotExist)"
proof -
  let ?ra = "walk_root r p"
  have ra: "(if p = [] then Inr (pb_root r) else abs_path r p) = Inr ?ra"
    using p abs_path_key [OF inv] by (auto simp: walk_root_def posix_key_def)
  obtain a s1 where st: "os_Stat ?ra s = (a, s1)" by (cases "os_Stat ?ra s")
  have q1: "quiet s s1" using quiet_calls(1) [of s ?ra] st by simp
  note v1 = quiet_inv [OF q1 inv]
  show ?thesis
  proof (cases a)
    case (Inr n)
    then have s': "quiet s s'" using c st q1 ra quiet_trans [OF q1 quiet_refl(2)]
      by (auto simp: posix_List_def split: option.splits)
    have xs: "xs = concat (map (list_entry p ?ra s1) (walk_files ?ra s1))" if "res = Inr xs" for xs
      using c st Inr that ra by (auto simp: posix_List_def split: option.splits)
    have "\<not> errors_Is e ErrNotExist" if "res = Inl e" for e
      using c st Inr that ra by (auto simp: posix_List_def fault_now_def split: option.splits)
    with s' list_entries [where r = r and s = s1, OF _ p xs] v1 show ?thesis by auto
  next
    case (Inl e)
    show ?thesis
    proof (cases "errors_Is e ErrNotExist")
      case False
      then show ?thesis using c st Inl ra q1 by (auto simp: posix_List_def)
    next
      case True
      then have none: "map_of (fs_now s) ?ra = None"
        using st Inl by (auto simp: os_Stat_def fault_now_def split: option.splits dest: lookup_simps(3))
      have ok: "fs_ok s" using inv by (simp add: posix_inv_def)
      have nv: "\<not> (posix_view r s k \<noteq> None \<and> listed p k)" for k
      proof
        assume k: "posix_view r s k \<noteq> None \<and> listed p k"
        then obtain i where i: "map_of (fs_now s) (under_root r k) = Some (NFile i)"
          by (auto simp: posix_view_def file_at_def split: option.splits node.splits if_splits)
        have "clean_abs ?ra \<or> ?ra \<noteq> []" using inv by (auto simp: walk_root_def posix_inv_def clean_abs_def under_root_def)
        then have "under_root r k = ?ra \<or> ?ra \<in> set (ancestors (under_root r k))"
          using k inv
          by (auto simp: listed_def walk_root_def under_root_def prefix_def set_ancestors posix_inv_def clean_abs_def
              split: if_splits)
        then show False using none i fs_okD(5) [OF ok i] by auto
      qed
      have "res = Inr [] \<and> s' = s1" using c st Inl True ra by (auto simp: posix_List_def)
      then show ?thesis using nv q1 by simp
    qed
  qed
qed

interpretation pstore: storage_backend "posix_backend r" "posix_view r" posix_key "posix_inv r" "posix_writing r"
  for r :: PosixBackend
proof (unfold_locales, goal_cases)
  case (1 s p w s')
  then show ?case using posix_Put_facts [of r s p "Inr w" s'] by (simp add: posix_backend_def)
next
  case (2 s p e s')
  then show ?case using posix_Put_facts [of r s p "Inl e" s'] by (simp add: posix_backend_def)
next
  case (3 s w p d x u s')
  then show ?case using posix_Write_facts [of r s w p d x "Inr ()" s'] by (auto simp: posix_backend_def)
next
  case (4 s w p d x e s')
  then show ?case using posix_Write_facts [of r s w p d x "Inl e" s'] by (auto simp: posix_backend_def)
next
  case (5 s w p d u s')
  then show ?case using posix_Close_facts [of r s w p d] by (auto simp: posix_backend_def closing_def)
next
  case (6 s w p d e s')
  then show ?case using posix_Close_facts [of r s w p d] by (auto simp: posix_backend_def closing_def)
next
  case (7 s t f u s')
  then show ?case using posix_Commit_facts [of r s t f] by (auto simp: posix_backend_def moved_def)
next
  case (8 s t f e s')
  then show ?case using posix_Commit_facts [of r s t f] by (auto simp: posix_backend_def moved_def)
next
  case (9 s t f e s')
  then show ?case using posix_Commit_facts [of r s t f] by (auto simp: posix_backend_def moved_def)
next
  case (10 s p res s')
  then show ?case using posix_Get_facts [of r s p res s'] quiet_inv by (auto simp: posix_backend_def)
next
  case (11 s p d s')
  then show ?case using posix_Get_facts [of r s p "Inr (d, None)" s'] by (simp add: posix_backend_def)
next
  case (12 s p e s')
  then show ?case using posix_Get_facts [of r s p "Inl e" s'] by (simp add: posix_backend_def)
next
  case (13 s p rs s')
  then show ?case using posix_Stat_facts [of r s p rs s'] quiet_inv by (auto simp: posix_backend_def)
next
  case (14 s p e s')
  then show ?case using posix_Stat_facts [of r s p "Inl e" s'] by (simp add: posix_backend_def)
next
  case (15 s p rl s')
  then show ?case using posix_List_facts [of r s p rl s'] quiet_inv by (auto simp: posix_backend_def)
next
  case (16 s p xs s')
  then show ?case using posix_List_facts [of r s p "Inr xs" s'] by (simp add: posix_backend_def)
next
  case (17 s p e s')
  then show ?case using posix_List_facts [of r s p "Inl e" s'] by (simp add: posix_backend_def)
next
  case (18 s p u s')
  then show ?case using posix_Delete_facts [of r s p "Inr ()" s'] by (simp add: posix_backend_def)
next
  case (19 s p e s')
  then show ?case using posix_Delete_facts [of r s p "Inl e" s'] by (simp add: posix_backend_def)
next
  case (20 s k)
  then show ?case by (simp add: posix_view_def split: if_splits)
qed

end
