(* ===== verification/Posix_Dirs.thy ===== *)
theory Posix_Dirs
  imports Posix
begin

text \<open>
  Which names of the storage are directories, and that only \<open>Put\<close> adds some: the POSIX driver as a
  backend whose names may be blocked (\<open>named_backend\<close>).
\<close>

definition dirs :: "pfs \<Rightarrow> string set" where
  "dirs s = {p. map_of (fs_now s) p = Some NDir}"

definition posix_blocked :: "PosixBackend \<Rightarrow> pfs \<Rightarrow> string \<Rightarrow> bool" where
  "posix_blocked r s k \<longleftrightarrow> map_of (fs_now s) (under_root r k) = Some NDir"

lemma posix_blocked_dirs: "posix_blocked r s k \<longleftrightarrow> under_root r k \<in> dirs s"
  by (simp add: posix_blocked_def dirs_def)

lemma quiet_dirs: "quiet s s' \<Longrightarrow> dirs s' = dirs s"
  by (simp add: quiet_def dirs_def)

lemma mkdir_chain_dirs: "dirs (snd (mkdir_chain as s)) \<subseteq> dirs s \<union> set as"
proof (induction as arbitrary: s)
  case (Cons a as)
  obtain r s1 where m: "os_Mkdir a s = (r, s1)" by (cases "os_Mkdir a s")
  have "dirs s1 \<subseteq> insert a (dirs s)"
    using m by (auto simp: os_Mkdir_def dirs_def tick_def update_conv' split: option.splits if_splits)
  then show ?case using Cons.IH [of s] Cons.IH [of s1] m
    by (auto split: option.splits node.splits sum.splits)
qed simp

lemma os_Create_dirs: "dirs (snd (os_Create p s)) \<subseteq> dirs s"
  by (auto simp: os_Create_def dirs_def tick_def fault_now_def Let_def update_conv' split: option.splits sum.splits node.splits if_splits)

lemma os_Rename_dirs:
  "dirs (snd (os_Rename p q s)) \<subseteq> dirs s"
  by (auto simp: os_Rename_def dirs_def tick_def fault_now_def update_conv' delete_conv' split: option.splits sum.splits node.splits if_splits)

lemma posix_Put_dirs:
  assumes inv: "posix_inv r s" and key: "posix_key p" "posix_key k" and c: "posix_Put r p s = (res, s')"
    and b: "posix_blocked r s' k"
  shows "posix_blocked r s k \<or> strings_HasPrefix p (k @ ''/'')"
proof -
  have cl: "clean_rel p" using key by (simp add: posix_key_def)
  let ?a = "under_root r p"
  obtain d b' where d: "?a = d @ CHR ''/'' # b'" "path_Dir ?a = d"
    using under_root_split [OF inv cl] by metis
  have cr: "dirs (snd (os_Create (?a @ ''.pgsafe-tmp'') t)) \<subseteq> dirs t" for t by (rule os_Create_dirs)
  have q: "dirs (snd (fd_Close t)) = dirs t" for t by (rule quiet_dirs [OF quiet_calls(4)])
  have h: "dirs (t\<lparr>fs_handles := n\<rparr>) = dirs t" for t n by (simp add: dirs_def)
  have "dirs s' \<subseteq> dirs (snd (os_MkdirAll d s))"
    using c cr [of "snd (os_MkdirAll d s)"] q h
    by (auto simp: posix_Put_def abs_path_key [OF inv cl] d(2) Let_def split: prod.splits sum.splits option.splits)
  also have "\<dots> \<subseteq> dirs s \<union> set (ancestors d @ [d])" unfolding os_MkdirAll_def by (rule mkdir_chain_dirs)
  finally have "under_root r k \<in> dirs s \<or> strings_HasPrefix ?a (under_root r k @ ''/'')"
    using b d(1) by (auto simp: posix_blocked_dirs set_ancestors prefix_def)
  then show ?thesis by (auto simp: posix_blocked_dirs under_root_def prefix_def)
qed

lemma sys_dirs:
  assumes "\<And>t. dirs t \<subseteq> D \<Longrightarrow> dirs (snd (call t)) \<subseteq> D" "\<And>t. dirs t \<subseteq> D \<Longrightarrow> dirs (snd (k t)) \<subseteq> D" "dirs s \<subseteq> D"
  shows "dirs (snd (sys msg call k s)) \<subseteq> D"
proof -
  obtain a s1 where c: "call s = (a, s1)" by (cases "call s")
  with assms(1) [OF assms(3)] have "dirs s1 \<subseteq> D" by simp
  with assms(2) [of s1] c show ?thesis by (simp add: sys_def split: sum.splits)
qed

lemma hook_dirs: "(\<And>t. dirs t \<subseteq> D \<Longrightarrow> dirs (snd (k t)) \<subseteq> D) \<Longrightarrow> dirs s \<subseteq> D \<Longrightarrow> dirs (snd (hook_step r st k s)) \<subseteq> D"
  by (simp add: hook_step_def split: option.splits)

lemma done_dirs: "dirs s \<subseteq> D \<Longrightarrow> dirs (snd (done_op s)) \<subseteq> D"
  by (simp add: done_op_def)

lemma quiet_call_dirs: "(\<And>t. quiet t (snd (call t))) \<Longrightarrow> dirs t \<subseteq> D \<Longrightarrow> dirs (snd (call t)) \<subseteq> D"
  by (metis quiet_dirs)

lemma posix_Close_dirs: "dirs (snd (posix_Close r w s)) \<subseteq> dirs s"
proof -
  have s0: "dirs (s\<lparr>fs_closed := x\<rparr>) = dirs s" for x by (simp add: dirs_def)
  note q = quiet_call_dirs [of "fd_Sync i" for i, OF quiet_calls(3)] quiet_call_dirs [of fd_Close, OF quiet_calls(4)]
    quiet_call_dirs [of "os_OpenDir p" for p, OF quiet_calls(5)] quiet_call_dirs [of "fd_SyncDir p" for p, OF quiet_calls(6)]
  have rn: "dirs (snd (os_Rename p f t)) \<subseteq> dirs s" if "dirs t \<subseteq> dirs s" for p f t
    using os_Rename_dirs [of p f t] that by blast
  have rename: "dirs (snd (close_rename r w t)) \<subseteq> dirs s" if "dirs t \<subseteq> dirs s" for t
    unfolding close_rename_def by (intro sys_dirs hook_dirs done_dirs rn q that)
  have dir: "dirs (snd (close_dir r w t)) \<subseteq> dirs s" if "dirs t \<subseteq> dirs s" for t
    unfolding close_dir_def by (intro sys_dirs hook_dirs rename q that)
  let ?s0 = "s\<lparr>fs_closed := pw_id w # fs_closed s\<rparr>"
  obtain a s1 where sy: "fd_Sync (pw_file w) ?s0 = (a, s1)" by (cases "fd_Sync (pw_file w) ?s0")
  have s1: "dirs s1 \<subseteq> dirs s" using q(1) [of ?s0 "dirs s" "pw_file w"] sy s0 by simp
  have fin: "dirs (snd (sys m fd_Close (hook_step r StepCloseFile (close_dir r w)) s1)) \<subseteq> dirs s" for m
    by (intro sys_dirs hook_dirs dir q s1)
  show ?thesis using fin q(2) [OF s1] unfolding posix_Close_def Let_def sy
    by (auto split: sum.splits option.splits)
qed

lemma node_found:
  assumes "posix_key p" "os_Stat (under_root r p) s = (Inr n, s')"
  shows "posix_view r s p \<noteq> None \<or> posix_blocked r s p"
proof -
  have "map_of (fs_now s) (under_root r p) = Some n"
    using assms(2) by (auto simp: os_Stat_def fault_now_def split: option.splits dest: lookup_simps(2))
  then show ?thesis using assms(1) by (cases n) (auto simp: posix_view_def file_at_def posix_blocked_def)
qed

definition not_exist_kind :: "unit res \<times> pfs \<Rightarrow> bool" where
  "not_exist_kind out \<longleftrightarrow> (\<forall>e. fst out = Inl e \<longrightarrow> \<not> errors_Is e ErrExist)"

lemma sys_kind:
  assumes "\<And>e s'. call s = (Inl e, s') \<Longrightarrow> \<not> errors_Is e ErrExist" "\<And>t. not_exist_kind (k t)"
  shows "not_exist_kind (sys msg call k s)"
  using assms by (auto simp: sys_def not_exist_kind_def split: prod.splits sum.splits)

lemma hook_step_kind:
  assumes "faults_ok r" "\<And>t. not_exist_kind (k t)"
  shows "not_exist_kind (hook_step r step k s)"
  using assms(2) hook_kind [OF assms(1)]
  by (auto simp: hook_step_def not_exist_kind_def errors_Is_def split: option.splits)

lemma commit_move_kind: "faults_ok r \<Longrightarrow> not_exist_kind (commit_move r t f s)"
  unfolding commit_move_def
  by (intro sys_kind hook_step_kind) (auto dest: call_kinds simp: not_exist_kind_def done_op_def)

lemma posix_Commit_found:
  assumes "posix_inv r s" "posix_key t" "posix_key f" "posix_Commit r t f s = (Inl e, s')" "errors_Is e ErrExist"
  shows "posix_view r s f \<noteq> None \<or> posix_blocked r s f"
proof -
  have cl: "clean_rel t" "clean_rel f" "faults_ok r" using assms(1-3) by (auto simp: posix_key_def posix_inv_def)
  obtain a s1 where st: "os_Stat (under_root r f) s = (a, s1)" by (cases "os_Stat (under_root r f) s")
  have "\<exists>n. a = Inr n"
    using assms(4,5) commit_move_kind [OF cl(3), of "under_root r t" "under_root r f" s1] call_kinds(4) [of "under_root r f" s _ s1] st
    by (auto simp: posix_Commit_def abs_path_key [OF assms(1)] cl not_exist_kind_def split: sum.splits if_splits)
  then show ?thesis using node_found [OF assms(3)] st by blast
qed

interpretation pnamed: named_backend "posix_backend r" "posix_view r" posix_key "posix_inv r" "posix_writing r" "posix_blocked r"
  for r :: PosixBackend
proof (unfold_locales, goal_cases)
  case (1 s p fi s')
  then have "clean_rel p" by (simp add: posix_key_def)
  with 1 show ?case
    by (auto simp: posix_backend_def posix_Stat_def abs_path_key split: prod.splits sum.splits dest!: node_found)
next
  case (2 s t f e s')
  then show ?case using posix_Commit_found [of r s t f e s'] pstore.view_key [of r s t] by (auto simp: posix_backend_def)
next
  case (3 s p rs s' k)
  then show ?case using posix_Stat_facts [of r s p rs s'] quiet_dirs [of s s'] by (simp add: posix_backend_def posix_blocked_dirs)
next
  case (4 s p rl s' k)
  then show ?case using posix_List_facts [of r s p rl s'] quiet_dirs [of s s'] by (simp add: posix_backend_def posix_blocked_dirs)
next
  case (5 s p rw s' k)
  then show ?case using posix_Put_dirs [of r s p k rw s'] by (simp add: posix_backend_def)
next
  case (6 s w p d x ru s' k)
  then show ?case using fd_Write_facts [of s "pw_tmpAbs w" "pw_file w" x ru s']
    by (auto simp: posix_backend_def posix_Write_def posix_blocked_def posix_inv_def posix_writing_def posix_staged_def)
next
  case (7 s w p d ru s' k)
  then show ?case using posix_Close_dirs [of r w s] by (auto simp: posix_backend_def posix_blocked_dirs)
qed

end
