(* ===== verification/Posix_Example.thy ===== *)
theory Posix_Example
  imports Posix_Dirs "HOL-Library.Code_Target_Nat"
begin

text \<open>
  A small storage on the POSIX file system, at which the properties are instantiated: the root \<open>/r\<close>
  holds one file \<open>a\<close>, and a writer has staged new bytes for it.
\<close>

definition example_names :: "(string \<times> node) list" where
  "example_names = [(''/r'', NDir), (''/r/a'', NFile 0), (''/r/a.pgsafe-tmp'', NFile 1)]"

definition example_fs :: "pfs" where
  "example_fs =
     \<lparr>fs_now = example_names, fs_data = (\<lambda>i. if i = 0 then ''old'' else ''new''), fs_mtime = (\<lambda>_. 0),
      fs_clean = (\<lambda>i. i = 0), fs_dur = [(''/r'', NDir), (''/r/a'', NFile 0)],
      fs_pend = [OLink ''/r/a.pgsafe-tmp'' (NFile 1)], fs_next = 2, fs_tick = 0, fs_fault = (\<lambda>_. None),
      fs_clock = (\<lambda>_. 0), fs_handles = 1, fs_closed = []\<rparr>"

definition example_root :: PosixBackend where
  "example_root = \<lparr>pb_root = ''/r'', pb_fault = None\<rparr>"

definition example_writer :: pwriter where
  "example_writer = \<lparr>pw_file = 1, pw_tmpAbs = ''/r/a.pgsafe-tmp'', pw_finalAbs = ''/r/a'', pw_id = 0\<rparr>"

lemmas example_defs = example_names_def example_fs_def example_root_def example_writer_def

lemma example_paths:
  "clean_abs ''/r''" "clean_abs ''/r/a''" "clean_abs ''/r/a.pgsafe-tmp''" "clean_rel ''a''"
  "ancestors ''/r'' = []" "ancestors ''/r/a'' = [''/r'']" "ancestors ''/r/a.pgsafe-tmp'' = [''/r'']"
  "path_Base ''a'' = ''a''"
  by (simp_all add: clean_abs_code clean_rel_def plain_comp_def ancestors_def upt_rec path_Base_no_slash)

lemma example_fs_ok: "fs_ok example_fs"
  by (auto simp: fs_ok_def tree_ok_def example_defs example_paths split: if_splits)

lemma example_inv: "posix_inv example_root example_fs"
  using example_fs_ok by (simp add: posix_inv_def example_paths faults_ok_def file_at_def example_defs)

lemma example_key: "posix_key ''a''"
  by (auto simp: posix_key_def example_paths dest: sublist_length_le)

end
