(* ===== verification/Posix_Crash.thy ===== *)
theory Posix_Crash
  imports Posix_Example
begin

text \<open>
  Crash safety of the POSIX driver (Invariant 6): what a reader finds under a key after a crash at
  any point of \<open>Close\<close>. Every step of \<open>Close\<close> may fail in the model, and a failing step has no
  effect of its own, so the states \<open>Close\<close> can return in are the states a crash can hit.
\<close>


section \<open>Waiting directory changes\<close>

fun op_paths :: "dirop \<Rightarrow> string set" where
  "op_paths (OLink p n) = {p}"
| "op_paths (OUnlink p) = {p}"
| "op_paths (OMove p q) = {p, q}"

definition settled :: "pfs \<Rightarrow> string \<Rightarrow> bool" where
  "settled s x \<longleftrightarrow> (\<forall>op \<in> set (fs_pend s). x \<notin> op_paths op)"

text \<open>A change that stays within one directory, so that one fsync makes it durable.\<close>

fun local_op :: "dirop \<Rightarrow> bool" where
  "local_op (OMove p q) \<longleftrightarrow> path_Dir p = path_Dir q"
| "local_op _ \<longleftrightarrow> True"

text \<open>The name space is the durable one with everything that waits applied to it.\<close>

definition fs_replays :: "pfs \<Rightarrow> bool" where
  "fs_replays s \<longleftrightarrow>
     map_of (fold apply_op (fs_pend s) (fs_dur s)) = map_of (fs_now s) \<and> (\<forall>op \<in> set (fs_pend s). local_op op)"

lemma local_op_dir: "local_op op \<Longrightarrow> x \<in> op_paths op \<Longrightarrow> op_dir op = path_Dir x"
  by (cases op) auto

lemma apply_op_other: "x \<notin> op_paths op \<Longrightarrow> map_of (apply_op op es) x = map_of es x"
  by (cases op) (auto simp: update_conv' delete_conv' split: option.splits)

lemma fold_apply_other:
  "\<forall>op \<in> set ops. x \<notin> op_paths op \<Longrightarrow> map_of (fold apply_op ops es) x = map_of es x"
  by (induction ops arbitrary: es) (simp_all add: apply_op_other)

lemma apply_op_agree:
  assumes "local_op op" "op_dir op = D" "\<And>x. path_Dir x = D \<Longrightarrow> map_of es x = map_of es' x" "path_Dir x = D"
  shows "map_of (apply_op op es) x = map_of (apply_op op es') x"
proof (cases op)
  case (OMove p q)
  then have "map_of es p = map_of es' p" using assms(1,2,3) by simp
  then show ?thesis using OMove assms(3,4) by (auto simp: update_conv' delete_conv' split: option.splits)
qed (use assms in \<open>auto simp: update_conv' delete_conv'\<close>)

text \<open>The changes of one directory alone do to its names what all of them do.\<close>

lemma flush_agree:
  assumes "\<forall>op \<in> set ops. local_op op" "\<And>x. path_Dir x = D \<Longrightarrow> map_of es x = map_of es' x" "path_Dir x = D"
  shows "map_of (fold apply_op (filter (\<lambda>op. op_dir op = D) ops) es) x = map_of (fold apply_op ops es') x"
  using assms
proof (induction ops arbitrary: es es')
  case (Cons op ops)
  have l: "local_op op" using Cons.prems(1) by simp
  show ?case
  proof (cases "op_dir op = D")
    case True
    have "map_of (apply_op op es) y = map_of (apply_op op es') y" if "path_Dir y = D" for y
      using apply_op_agree [OF l True Cons.prems(2) that] .
    then show ?thesis using Cons.IH [of "apply_op op es" "apply_op op es'"] Cons.prems(1,3) True by simp
  next
    case False
    have "map_of es y = map_of (apply_op op es') y" if "path_Dir y = D" for y
    proof -
      have "y \<notin> op_paths op" using local_op_dir [OF l, of y] that False by auto
      then show ?thesis using apply_op_other [of y op es'] Cons.prems(2) [OF that] by simp
    qed
    then show ?thesis using Cons.IH [of es "apply_op op es'"] Cons.prems(1,3) False by simp
  qed
qed simp

lemma set_select_ops: "set (select_ops sel xs) \<subseteq> set xs"
  by (induction sel xs rule: select_ops.induct) auto

lemma select_ops_snoc: "\<exists>b. select_ops sel (xs @ [y]) = select_ops sel xs @ (if b then [y] else [])"
proof (induction xs arbitrary: sel)
  case Nil
  have "select_ops sel [y] = [] \<or> select_ops sel [y] = [y]" by (cases sel) auto
  then show ?case by (cases sel) (auto intro: exI [of _ True] exI [of _ False])
next
  case (Cons x xs)
  show ?case
  proof (cases sel)
    case Nil
    then show ?thesis by (auto intro: exI [of _ False])
  next
    case (Cons b bs)
    then show ?thesis using Cons.IH [of bs] by auto
  qed
qed

lemma crash_names_settled: "settled s x \<Longrightarrow> map_of (crash_names sel s) x = map_of (fs_dur s) x"
proof -
  assume "settled s x"
  then have "\<forall>op \<in> set (select_ops sel (fs_pend s)). x \<notin> op_paths op"
    using set_select_ops [of sel "fs_pend s"] unfolding settled_def by blast
  then show ?thesis unfolding crash_names_def by (rule fold_apply_other)
qed


section \<open>Reading a key after a crash\<close>

text \<open>What the entry of a path holds after a crash, whatever became of the directories above it.\<close>

definition crash_file :: "bool list \<Rightarrow> (nat \<Rightarrow> bytes) \<Rightarrow> pfs \<Rightarrow> string \<Rightarrow> bytes option" where
  "crash_file sel junk s p =
     (case map_of (crash_names sel s) p of Some (NFile i) \<Rightarrow> Some (crash_data junk s i) | _ \<Rightarrow> None)"

text \<open>The old file is durable: its entry does not wait and its bytes were fsynced.\<close>

definition durable_file :: "pfs \<Rightarrow> string \<Rightarrow> bool" where
  "durable_file s p \<longleftrightarrow>
     settled s p \<and> map_of (fs_dur s) p = map_of (fs_now s) p \<and>
     (\<forall>i. map_of (fs_now s) p = Some (NFile i) \<longrightarrow> fs_clean s i)"

lemma crash_file_durable: "durable_file s p \<Longrightarrow> crash_file sel junk s p = file_at s p"
  by (auto simp: crash_file_def durable_file_def crash_names_settled crash_data_def file_at_def
      split: option.splits node.splits)

text \<open>\<open>survives s p d out\<close>: after a crash the old file or the new bytes, and only those after success.\<close>

definition survives :: "pfs \<Rightarrow> string \<Rightarrow> bytes \<Rightarrow> unit res \<times> pfs \<Rightarrow> bool" where
  "survives s p d out \<longleftrightarrow>
     (\<forall>sel junk. crash_file sel junk (snd out) p = Some d \<or>
                 fst out \<noteq> Inr () \<and> crash_file sel junk (snd out) p = file_at s p)"

text \<open>States of \<open>Close\<close> before the rename: the old file still durable, the staged bytes fsynced.\<close>

definition staged_clean :: "pfs \<Rightarrow> pwriter \<Rightarrow> pfs \<Rightarrow> bool" where
  "staged_clean s w t \<longleftrightarrow>
     fs_now t = fs_now s \<and> fs_data t = fs_data s \<and> durable_file t (pw_finalAbs w) \<and> fs_replays t \<and>
     fs_clean t (pw_file w)"

lemma staged_clean_tick: "staged_clean s w t \<Longrightarrow> staged_clean s w (tick t)"
  by (simp add: staged_clean_def durable_file_def fs_replays_def settled_def tick_def)

lemma file_at_same: "fs_now t = fs_now s \<Longrightarrow> fs_data t = fs_data s \<Longrightarrow> file_at t = file_at s"
  by (simp add: file_at_def fun_eq_iff split: option.splits node.splits)

lemma staged_stop: "staged_clean s w t \<Longrightarrow> survives s (pw_finalAbs w) d (Inl e, t)"
  using crash_file_durable [of t "pw_finalAbs w"] file_at_same [of t s]
  by (simp add: staged_clean_def survives_def)

lemma tick_calls:
  "snd (fd_Close t) = tick t" "snd (os_OpenDir p t) = tick t"
  by (auto simp: fd_Close_def os_OpenDir_def split: option.splits sum.splits)

text \<open>The fsync before the rename makes the temporary name durable and keeps the old file.\<close>

lemma presync:
  assumes "staged_clean s w t" "fd_SyncDir D t = (Inr u, t')" "path_Dir x = D" "path_Dir (pw_finalAbs w) = D"
  shows "fs_now t' = fs_now s" "fs_data t' = fs_data s" "fs_clean t' = fs_clean t"
    "map_of (fs_dur t') x = map_of (fs_now s) x" "\<forall>op \<in> set (fs_pend t'). x \<notin> op_paths op"
    "\<forall>op \<in> set (fs_pend t'). op_dir op \<noteq> D"
proof -
  have rp: "map_of (fold apply_op (fs_pend t) (fs_dur t)) = map_of (fs_now s)" "\<forall>op \<in> set (fs_pend t). local_op op"
    using assms(1) by (simp_all add: staged_clean_def fs_replays_def)
  have t': "fs_dur t' = fold apply_op (filter (\<lambda>op. op_dir op = D) (fs_pend t)) (fs_dur t)"
    "fs_pend t' = filter (\<lambda>op. op_dir op \<noteq> D) (fs_pend t)" "fs_now t' = fs_now t" "fs_data t' = fs_data t"
    "fs_clean t' = fs_clean t"
    using assms(2) by (auto simp: fd_SyncDir_def tick_def split: option.splits)
  show "fs_now t' = fs_now s" "fs_data t' = fs_data s" "fs_clean t' = fs_clean t"
    using assms(1) t' by (simp_all add: staged_clean_def)
  show "map_of (fs_dur t') x = map_of (fs_now s) x"
    unfolding t'(1) using flush_agree [OF rp(2) _ assms(3), of "fs_dur t" "fs_dur t"] rp(1) by simp
  show "\<forall>op \<in> set (fs_pend t'). x \<notin> op_paths op"
    using rp(2) local_op_dir assms(3) by (auto simp: t'(2))
  show "\<forall>op \<in> set (fs_pend t'). op_dir op \<noteq> D" by (simp add: t'(2))
qed

text \<open>
  Around the rename. \<open>ready\<close> is the state between the two directory fsyncs: both names are durable
  as they stand and nothing else waits for this directory.
\<close>

definition ready :: "pfs \<Rightarrow> string \<Rightarrow> string \<Rightarrow> nat \<Rightarrow> pfs \<Rightarrow> bool" where
  "ready s tmp f i t \<longleftrightarrow>
     fs_now t = fs_now s \<and> fs_data t = fs_data s \<and> fs_clean t i \<and>
     map_of (fs_dur t) tmp = Some (NFile i) \<and> map_of (fs_dur t) f = map_of (fs_now s) f \<and>
     (\<forall>j. map_of (fs_now s) f = Some (NFile j) \<longrightarrow> fs_clean t j) \<and>
     (\<forall>op \<in> set (fs_pend t). tmp \<notin> op_paths op \<and> f \<notin> op_paths op \<and> op_dir op \<noteq> path_Dir f)"

lemma ready_stop: "ready s tmp f i t \<Longrightarrow> survives s f d (Inl e, t)"
proof -
  assume r: "ready s tmp f i t"
  then have "durable_file t f" by (auto simp: ready_def durable_file_def settled_def)
  from crash_file_durable [OF this] file_at_same [of t s] r show ?thesis by (simp add: survives_def ready_def)
qed

definition renamed :: "pfs \<Rightarrow> string \<Rightarrow> string \<Rightarrow> nat \<Rightarrow> pfs \<Rightarrow> bool" where
  "renamed s tmp f i t \<longleftrightarrow> (\<exists>u. ready s tmp f i u \<and> fs_data t = fs_data u \<and> fs_clean t = fs_clean u \<and>
     fs_dur t = fs_dur u \<and> fs_pend t = fs_pend u @ [OMove tmp f])"

lemma renamed_crash:
  assumes "renamed s tmp f i t" "tmp \<noteq> f" "fs_data s i = d"
  shows "survives s f d (Inl e, t)"
proof -
  obtain u where u: "ready s tmp f i u" "fs_data t = fs_data u" "fs_clean t = fs_clean u" "fs_dur t = fs_dur u"
    "fs_pend t = fs_pend u @ [OMove tmp f]" using assms(1) by (auto simp: renamed_def)
  have "crash_file sel junk t f = Some d \<or> crash_file sel junk t f = file_at s f" for sel junk
  proof -
    obtain b where b: "select_ops sel (fs_pend t) = select_ops sel (fs_pend u) @ (if b then [OMove tmp f] else [])"
      using select_ops_snoc [of sel "fs_pend u" "OMove tmp f"] by (auto simp: u)
    let ?es = "fold apply_op (select_ops sel (fs_pend u)) (fs_dur u)"
    have sub: "\<forall>op \<in> set (select_ops sel (fs_pend u)). tmp \<notin> op_paths op \<and> f \<notin> op_paths op"
      using u(1) set_select_ops [of sel "fs_pend u"] by (auto simp: ready_def)
    have tf: "map_of ?es tmp = Some (NFile i)" "map_of ?es f = map_of (fs_now s) f"
      using sub u(1) by (simp_all add: fold_apply_other ready_def)
    have names: "crash_names sel t = (if b then apply_op (OMove tmp f) ?es else ?es)"
      by (simp add: crash_names_def b u(4))
    show ?thesis
    proof (cases b)
      case True
      then have "map_of (crash_names sel t) f = Some (NFile i)" using tf(1) names by (simp add: update_conv')
      then show ?thesis using u(1-3) assms(3) by (simp add: crash_file_def crash_data_def ready_def)
    next
      case False
      then have "map_of (crash_names sel t) f = map_of (fs_now s) f" using tf(2) names by simp
      then show ?thesis
        using u(1-3) by (auto simp: crash_file_def crash_data_def ready_def file_at_def split: option.splits node.splits)
    qed
  qed
  then show ?thesis by (simp add: survives_def)
qed

lemma postsync_crash:
  assumes "renamed s tmp f i t" "tmp \<noteq> f" "fs_data s i = d" "fd_SyncDir (path_Dir f) t = (Inr a, t')"
  shows "crash_file sel junk t' f = Some d"
proof -
  obtain u where u: "ready s tmp f i u" "fs_data t = fs_data u" "fs_clean t = fs_clean u" "fs_dur t = fs_dur u"
    "fs_pend t = fs_pend u @ [OMove tmp f]" using assms(1) by (auto simp: renamed_def)
  have none: "filter (\<lambda>op. op_dir op = path_Dir f) (fs_pend u) = []" using u(1) by (auto simp: ready_def filter_empty_conv)
  have t': "fs_dur t' = apply_op (OMove tmp f) (fs_dur u)" "set (fs_pend t') \<subseteq> set (fs_pend u)"
    "fs_data t' = fs_data s" "fs_clean t' i"
    using assms(4) none u by (auto simp: fd_SyncDir_def tick_def ready_def split: option.splits)
  have "map_of (fs_dur t') f = Some (NFile i)" using u(1) by (simp add: t'(1) ready_def update_conv')
  moreover have "settled t' f" using t'(2) u(1) by (auto simp: settled_def ready_def)
  ultimately show ?thesis
    using t'(3,4) assms(3) by (simp add: crash_file_def crash_names_settled crash_data_def)
qed

lemma err_ticks:
  "os_Rename p q t = (Inl e, t') \<Longrightarrow> t' = tick t" "fd_SyncDir p t = (Inl e, t') \<Longrightarrow> t' = tick t"
  "fd_Sync i t = (Inl e, t') \<Longrightarrow> t' = tick t"
  by (auto simp: os_Rename_def fd_SyncDir_def fd_Sync_def split: option.splits sum.splits node.splits if_splits)

lemma tick_fields [simp]:
  "fs_now (tick t) = fs_now t" "fs_data (tick t) = fs_data t" "fs_clean (tick t) = fs_clean t"
  "fs_dur (tick t) = fs_dur t" "fs_pend (tick t) = fs_pend t"
  by (simp_all add: tick_def)

lemma ready_tick: "ready s tmp f i t \<Longrightarrow> ready s tmp f i (tick t)" "renamed s tmp f i t \<Longrightarrow> renamed s tmp f i (tick t)"
  by (unfold ready_def renamed_def tick_fields)

lemma Rename_renamed:
  assumes "ready s tmp f i t" "map_of (fs_now s) tmp = Some (NFile i)" "tmp \<noteq> f" "os_Rename tmp f t = (Inr u, t')"
  shows "renamed s tmp f i t'"
proof -
  have "lookup tmp t = Inr (NFile i)" using assms(1,2) by (intro lookup_simps(1)) (simp add: ready_def)
  then have "fs_data t' = fs_data t" "fs_clean t' = fs_clean t" "fs_dur t' = fs_dur t"
    "fs_pend t' = fs_pend t @ [OMove tmp f]"
    using assms(3,4) by (auto simp: os_Rename_def tick_def split: option.splits if_splits)
  then show ?thesis using assms(1) by (auto simp: renamed_def)
qed

lemma close_rename_survives:
  assumes rd: "ready s (pw_tmpAbs w) (pw_finalAbs w) (pw_file w) t"
    and m: "map_of (fs_now s) (pw_tmpAbs w) = Some (NFile (pw_file w))" "fs_data s (pw_file w) = d"
    and ne: "pw_tmpAbs w \<noteq> pw_finalAbs w"
  shows "survives s (pw_finalAbs w) d (close_rename r w t)"
  unfolding close_rename_def
proof (rule sys_cases [where Q = "survives s (pw_finalAbs w) d"])
  fix e t1
  assume "os_Rename (pw_tmpAbs w) (pw_finalAbs w) t = (Inl e, t1)"
  then show "survives s (pw_finalAbs w) d (Inl (wrapErr ''posix: rename: '' e), t1)"
    using ready_stop [OF ready_tick(1) [OF rd]] err_ticks(1) by metis
next
  fix u t1
  assume "os_Rename (pw_tmpAbs w) (pw_finalAbs w) t = (Inr u, t1)"
  note rn = Rename_renamed [OF rd m(1) ne this]
  show "survives s (pw_finalAbs w) d (hook_step r StepRename (sys ''posix: fsync(dir) post: ''
      (fd_SyncDir (path_Dir (pw_finalAbs w))) (hook_step r StepFsyncDirPost done_op)) t1)"
  proof (rule hook_cases [where Q = "survives s (pw_finalAbs w) d"])
    show "survives s (pw_finalAbs w) d (Inl e, t1)" for e by (rule renamed_crash [OF rn ne m(2)])
    show "survives s (pw_finalAbs w) d (sys ''posix: fsync(dir) post: ''
        (fd_SyncDir (path_Dir (pw_finalAbs w))) (hook_step r StepFsyncDirPost done_op) t1)"
    proof (rule sys_cases [where Q = "survives s (pw_finalAbs w) d"])
      fix e t2
      assume "fd_SyncDir (path_Dir (pw_finalAbs w)) t1 = (Inl e, t2)"
      then show "survives s (pw_finalAbs w) d (Inl (wrapErr ''posix: fsync(dir) post: '' e), t2)"
        using renamed_crash [OF ready_tick(2) [OF rn] ne m(2)] err_ticks(2) by metis
    next
      fix a t2
      assume sy: "fd_SyncDir (path_Dir (pw_finalAbs w)) t1 = (Inr a, t2)"
      have "survives s (pw_finalAbs w) d (res, t2)" for res
        using postsync_crash [OF rn ne m(2) sy] by (simp add: survives_def)
      then show "survives s (pw_finalAbs w) d (hook_step r StepFsyncDirPost done_op t2)"
        by (intro hook_cases [where Q = "survives s (pw_finalAbs w) d"]) (simp_all add: done_op_def)
    qed
  qed
qed

lemma presync_ready:
  assumes sc: "staged_clean s w t" and sy: "fd_SyncDir (path_Dir (pw_finalAbs w)) t = (Inr u, t')"
    and m: "map_of (fs_now s) (pw_tmpAbs w) = Some (NFile (pw_file w))"
    and dir: "path_Dir (pw_tmpAbs w) = path_Dir (pw_finalAbs w)"
  shows "ready s (pw_tmpAbs w) (pw_finalAbs w) (pw_file w) t'"
  using presync [OF sc sy dir refl] presync [OF sc sy refl refl] m sc
  by (auto simp: ready_def staged_clean_def durable_file_def)

lemma close_dir_survives:
  assumes sc: "staged_clean s w t"
    and m: "map_of (fs_now s) (pw_tmpAbs w) = Some (NFile (pw_file w))" "fs_data s (pw_file w) = d"
    and ne: "pw_tmpAbs w \<noteq> pw_finalAbs w" and dir: "path_Dir (pw_tmpAbs w) = path_Dir (pw_finalAbs w)"
  shows "survives s (pw_finalAbs w) d (close_dir r w t)"
proof -
  let ?Q = "survives s (pw_finalAbs w) d" and ?D = "path_Dir (pw_finalAbs w)"
  have sc1: "staged_clean s w (tick t)" by (rule staged_clean_tick [OF sc])
  have "?Q (sys ''posix: fsync(dir) pre: '' (fd_SyncDir ?D) (hook_step r StepFsyncDirPre (close_rename r w)) (tick t))"
  proof (rule sys_cases [where Q = ?Q])
    fix e t1
    assume "fd_SyncDir ?D (tick t) = (Inl e, t1)"
    then show "?Q (Inl (wrapErr ''posix: fsync(dir) pre: '' e), t1)"
      using staged_stop [OF staged_clean_tick [OF sc1]] err_ticks(2) by metis
  next
    fix a t1
    assume "fd_SyncDir ?D (tick t) = (Inr a, t1)"
    note rd = presync_ready [OF sc1 this m(1) dir]
    show "?Q (hook_step r StepFsyncDirPre (close_rename r w) t1)"
      by (rule hook_cases [where Q = ?Q]) (rule ready_stop [OF rd], rule close_rename_survives [OF rd m ne])
  qed
  then have *: "?Q (hook_step r StepOpenDir (sys ''posix: fsync(dir) pre: '' (fd_SyncDir ?D)
      (hook_step r StepFsyncDirPre (close_rename r w))) (tick t))"
    by (intro hook_cases [where Q = ?Q] staged_stop [OF sc1])
  show ?thesis
    unfolding close_dir_def
    by (rule sys_cases [where Q = ?Q]) (use staged_stop [OF sc1] * tick_calls(2) [of ?D t] in auto)
qed

lemma path_Dir_tmp:
  assumes "posix_inv r s" "clean_rel p"
  shows "path_Dir (under_root r p @ ''.pgsafe-tmp'') = path_Dir (under_root r p)"
  by (rule under_root_split [OF assms]) (auto simp: path_Dir_append)



end
