(* ===== verification/Go_Utf8.thy ===== *)
theory Go_Utf8
  imports Go_Fmt
begin

text \<open>
  UTF-8 as Go's \<open>range\<close> over a string and \<open>WriteRune\<close> see it (package \<open>unicode/utf8\<close>): decoding one
  rune, with every malformed byte read as U+FFFD of width one, encoding one rune, and the strings
  that are well formed. The lemmas say that encoding inverts decoding on well-formed text.
\<close>


section \<open>Decoding and encoding one rune\<close>

type_synonym rune = nat

definition utf8_bad :: "rune \<times> nat" where
  "utf8_bad = (0xFFFD, 1)"

definition in_range :: "nat \<Rightarrow> nat \<Rightarrow> nat \<Rightarrow> bool" where
  "in_range lo hi b \<longleftrightarrow> lo \<le> b \<and> b \<le> hi"

definition decode3 :: "nat \<Rightarrow> nat list \<Rightarrow> rune \<times> nat" where
  "decode3 b0 r =
     (case r of
        b1 # b2 # _ \<Rightarrow>
          if in_range (if b0 = 0xE0 then 0xA0 else 0x80) (if b0 = 0xED then 0x9F else 0xBF) b1 \<and>
             in_range 0x80 0xBF b2
          then ((b0 - 0xE0) * 4096 + (b1 - 0x80) * 64 + (b2 - 0x80), 3)
          else utf8_bad
      | _ \<Rightarrow> utf8_bad)"

definition decode4 :: "nat \<Rightarrow> nat list \<Rightarrow> rune \<times> nat" where
  "decode4 b0 r =
     (case r of
        b1 # b2 # b3 # _ \<Rightarrow>
          if in_range (if b0 = 0xF0 then 0x90 else 0x80) (if b0 = 0xF4 then 0x8F else 0xBF) b1 \<and>
             in_range 0x80 0xBF b2 \<and> in_range 0x80 0xBF b3
          then ((b0 - 0xF0) * 262144 + (b1 - 0x80) * 4096 + (b2 - 0x80) * 64 + (b3 - 0x80), 4)
          else utf8_bad
      | _ \<Rightarrow> utf8_bad)"

definition decode_bytes :: "nat list \<Rightarrow> rune \<times> nat" where
  "decode_bytes bs =
     (case bs of
        [] \<Rightarrow> (0xFFFD, 0)
      | b0 # r \<Rightarrow>
          if b0 < 0x80 then (b0, 1)
          else if in_range 0xC2 0xDF b0 then
            (case r of
               b1 # _ \<Rightarrow> if in_range 0x80 0xBF b1 then ((b0 - 0xC0) * 64 + (b1 - 0x80), 2) else utf8_bad
             | [] \<Rightarrow> utf8_bad)
          else if in_range 0xE0 0xEF b0 then decode3 b0 r
          else if in_range 0xF0 0xF4 b0 then decode4 b0 r
          else utf8_bad)"

definition decode_rune :: "string \<Rightarrow> rune \<times> nat" where
  "decode_rune s = decode_bytes (map of_char s)"

definition encode_bytes :: "rune \<Rightarrow> nat list" where
  "encode_bytes r =
     (if r < 0x80 then [r]
      else if r < 0x800 then [0xC0 + r div 64, 0x80 + r mod 64]
      else if in_range 0xD800 0xDFFF r \<or> 0x10FFFF < r then [0xEF, 0xBF, 0xBD]
      else if r < 0x10000 then [0xE0 + r div 4096, 0x80 + r div 64 mod 64, 0x80 + r mod 64]
      else [0xF0 + r div 262144, 0x80 + r div 4096 mod 64, 0x80 + r div 64 mod 64, 0x80 + r mod 64])"

definition encode_rune :: "rune \<Rightarrow> string" where
  "encode_rune r = map char_of (encode_bytes r)"


section \<open>Strings as rune sequences\<close>

lemma decode_bytes_width:
  "bs \<noteq> [] \<Longrightarrow> 1 \<le> snd (decode_bytes bs) \<and> snd (decode_bytes bs) \<le> length bs"
  by (auto simp: decode_bytes_def decode3_def decode4_def utf8_bad_def split: list.splits)

lemma decode_rune_width:
  "s \<noteq> [] \<Longrightarrow> 1 \<le> snd (decode_rune s) \<and> snd (decode_rune s) \<le> length s"
  using decode_bytes_width [of "map of_char s"] by (simp add: decode_rune_def)

lemma decode_rune_shorter: "s \<noteq> [] \<Longrightarrow> length s - snd (decode_rune s) < length s"
  using decode_rune_width [of s] by (cases s) auto

function utf8_runes :: "string \<Rightarrow> rune list" where
  "utf8_runes s =
     (if s = [] then []
      else fst (decode_rune s) # utf8_runes (drop (snd (decode_rune s)) s))"
  by pat_completeness auto
termination
  by (relation "measure length") (simp_all add: decode_rune_shorter)

function valid_utf8 :: "string \<Rightarrow> bool" where
  "valid_utf8 s =
     (if s = [] then True
      else if decode_rune s = utf8_bad then False
      else valid_utf8 (drop (snd (decode_rune s)) s))"
  by pat_completeness auto
termination
  by (relation "measure length") (simp_all add: decode_rune_shorter)

declare utf8_runes.simps [simp del] valid_utf8.simps [simp del]

lemma base64_digits: "(z :: nat) < 64 \<Longrightarrow> (a * 64 + z) div 64 = a \<and> (a * 64 + z) mod 64 = z"
  by simp

lemma div_4096: "(v :: nat) div 4096 = v div 64 div 64" "v div 262144 = v div 64 div 64 div 64"
  by (simp_all flip: div_mult2_eq)

lemma encode_decode2:
  assumes "in_range 0xC2 0xDF b0" "in_range 0x80 0xBF b1"
  shows "encode_bytes ((b0 - 0xC0) * 64 + (b1 - 0x80)) = [b0, b1]"
proof -
  define x y v where "x = b0 - 0xC0" and "y = b1 - 0x80" and "v = x * 64 + y"
  have xy: "b0 = 0xC0 + x" "b1 = 0x80 + y" "2 \<le> x" "x < 32" "y < 64"
    using assms by (auto simp: in_range_def x_def y_def)
  have "v div 64 = x" "v mod 64 = y" using xy base64_digits [of y x] by (simp_all add: v_def)
  moreover have "\<not> v < 128" "v < 2048" using xy unfolding v_def by linarith+
  ultimately have "encode_bytes v = [b0, b1]" using xy by (simp add: encode_bytes_def)
  then show ?thesis by (simp add: v_def x_def y_def)
qed

lemma encode_decode3:
  assumes "in_range 0xE0 0xEF b0" "decode3 b0 r \<noteq> utf8_bad"
  shows "encode_bytes (fst (decode3 b0 r)) = take (snd (decode3 b0 r)) (b0 # r)"
proof -
  obtain b1 b2 t where r: "r = b1 # b2 # t"
    using assms(2) by (auto simp: decode3_def split: list.splits if_splits)
  define x y z v where "x = b0 - 0xE0" and "y = b1 - 0x80" and "z = b2 - 0x80"
    and "v = x * 4096 + y * 64 + z"
  have rg: "in_range (if b0 = 0xE0 then 0xA0 else 0x80) (if b0 = 0xED then 0x9F else 0xBF) b1 \<and>
           in_range 0x80 0xBF b2"
    using assms(2) by (auto simp: r decode3_def split: if_splits)
  have xyz: "b0 = 0xE0 + x" "b1 = 0x80 + y" "b2 = 0x80 + z" "x < 16" "y < 64" "z < 64"
    using assms(1) rg by (auto simp: in_range_def x_def y_def z_def split: if_splits)
  have lo: "x = 0 \<Longrightarrow> 32 \<le> y" and hi: "x = 13 \<Longrightarrow> y < 32"
    using rg xyz(1,2) unfolding in_range_def by (simp_all split: if_splits)
  have d: "decode3 b0 r = (v, 3)"
    using rg by (simp add: r decode3_def in_range_def x_def y_def z_def v_def)
  have "v div 64 = x * 64 + y" "v mod 64 = z" "(x * 64 + y) mod 64 = y" "v div 4096 = x"
    using xyz base64_digits [of z "x * 64 + y"] base64_digits [of y x]
    by (simp_all add: v_def div_4096 distrib_right mult.assoc)
  moreover have "\<not> v < 128" "\<not> v < 2048" "v < 65536" using xyz lo unfolding v_def by linarith+
  moreover have "\<not> in_range 0xD800 0xDFFF v"
  proof (cases "x = 13")
    case True
    then show ?thesis using hi xyz(6) unfolding in_range_def v_def by linarith
  next
    case False
    then have "x \<le> 12 \<or> 14 \<le> x" by linarith
    then show ?thesis using xyz(5,6) unfolding in_range_def v_def by linarith
  qed
  ultimately show ?thesis using xyz unfolding d by (simp add: encode_bytes_def r)
qed

lemma encode_decode4:
  assumes "in_range 0xF0 0xF4 b0" "decode4 b0 r \<noteq> utf8_bad"
  shows "encode_bytes (fst (decode4 b0 r)) = take (snd (decode4 b0 r)) (b0 # r)"
proof -
  obtain b1 b2 b3 t where r: "r = b1 # b2 # b3 # t"
    using assms(2) by (auto simp: decode4_def split: list.splits if_splits)
  define w x y z v where "w = b0 - 0xF0" and "x = b1 - 0x80" and "y = b2 - 0x80" and "z = b3 - 0x80"
    and "v = w * 262144 + x * 4096 + y * 64 + z"
  have rg: "in_range (if b0 = 0xF0 then 0x90 else 0x80) (if b0 = 0xF4 then 0x8F else 0xBF) b1 \<and>
           in_range 0x80 0xBF b2 \<and> in_range 0x80 0xBF b3"
    using assms(2) by (auto simp: r decode4_def split: if_splits)
  have wxyz: "b0 = 0xF0 + w" "b1 = 0x80 + x" "b2 = 0x80 + y" "b3 = 0x80 + z"
      "w < 5" "x < 64" "y < 64" "z < 64"
    using assms(1) rg by (auto simp: in_range_def w_def x_def y_def z_def split: if_splits)
  have lo: "w = 0 \<Longrightarrow> 16 \<le> x" and hi: "w = 4 \<Longrightarrow> x < 16"
    using rg wxyz(1,2) unfolding in_range_def by (simp_all split: if_splits)
  have d: "decode4 b0 r = (v, 4)"
    using rg by (simp add: r decode4_def in_range_def w_def x_def y_def z_def v_def)
  have q: "v div 64 = w * 4096 + x * 64 + y" "v mod 64 = z" "v div 4096 = w * 64 + x"
      "v div 262144 = w" "(w * 4096 + x * 64 + y) mod 64 = y" "(w * 64 + x) mod 64 = x"
    using wxyz base64_digits [of z "w * 4096 + x * 64 + y"] base64_digits [of y "w * 64 + x"]
      base64_digits [of x w]
    by (simp_all add: v_def div_4096 distrib_right mult.assoc)
  moreover have "\<not> v < 128" "\<not> v < 2048" "\<not> v < 65536" "\<not> 0x10FFFF < v"
    using wxyz lo hi unfolding v_def by linarith+
  moreover then have "\<not> in_range 0xD800 0xDFFF v" by (simp add: in_range_def)
  ultimately show ?thesis using wxyz unfolding d by (simp add: encode_bytes_def r)
qed

lemma encode_ascii: "b < 0x80 \<Longrightarrow> encode_bytes b = [b]"
  by (simp add: encode_bytes_def)

lemma encode_decode_bytes:
  assumes "bs \<noteq> []" "decode_bytes bs \<noteq> utf8_bad"
  shows "encode_bytes (fst (decode_bytes bs)) = take (snd (decode_bytes bs)) bs"
  using assms encode_decode3 [of "hd bs" "tl bs"] encode_decode4 [of "hd bs" "tl bs"]
  by (cases bs) (auto simp: decode_bytes_def encode_decode2 encode_ascii split: if_splits list.splits)

lemma encode_decode_rune:
  assumes "s \<noteq> []" "decode_rune s \<noteq> utf8_bad"
  shows "encode_rune (fst (decode_rune s)) = take (snd (decode_rune s)) s"
  using encode_decode_bytes [of "map of_char s"] assms
  by (simp add: decode_rune_def encode_rune_def take_map comp_def)

text \<open>Reading a well-formed string rune by rune and writing each rune back gives the string.\<close>

lemma encode_utf8_runes: "valid_utf8 s \<Longrightarrow> concat (map encode_rune (utf8_runes s)) = s"
proof (induction s rule: utf8_runes.induct)
  case (1 s)
  show ?case
  proof (cases "s = []")
    case True
    then show ?thesis by (simp add: utf8_runes.simps)
  next
    case False
    have v: "valid_utf8 (drop (snd (decode_rune s)) s)" "decode_rune s \<noteq> utf8_bad"
      using 1(2) False valid_utf8.simps [of s] by (simp_all split: if_splits)
    show ?thesis
      using 1(1) [OF False v(1)] False encode_decode_rune [OF False v(2)]
      by (subst utf8_runes.simps) simp
  qed
qed

definition ascii_string :: "string \<Rightarrow> bool" where
  "ascii_string s \<longleftrightarrow> (\<forall>c \<in> set s. (of_char c :: nat) < 128)"

lemma decode_rune_ascii [simp]:
  "(of_char c :: nat) < 128 \<Longrightarrow> decode_rune (c # s) = (of_char c, 1)"
  by (simp add: decode_rune_def decode_bytes_def)

lemma valid_utf8_ascii: "ascii_string s \<Longrightarrow> valid_utf8 s"
  by (induction s) (simp_all add: valid_utf8.simps [of "_ # _"] valid_utf8.simps [of "[]"]
    ascii_string_def utf8_bad_def)

lemma utf8_runes_ascii: "ascii_string s \<Longrightarrow> utf8_runes s = map of_char s"
  by (induction s) (simp_all add: utf8_runes.simps [of "_ # _"] utf8_runes.simps [of "[]"] ascii_string_def)

end
