(* ===== verification/Go_Json.thy ===== *)
theory Go_Json
  imports Go_Utf8
begin

text \<open>
  The part of \<open>encoding/json\<close> that pgSafe relies on: the string literals (escaped the way
  \<open>json.Marshal\<close> escapes them, read back the way the scanner and \<open>unquote\<close> read them), the numbers,
  the indented printer behind \<open>json.MarshalIndent(v, "", "  ")\<close> and the value parser behind
  \<open>json.Decoder.Decode\<close>. The theorem of this theory is that the parser reads back every value
  that the printer wrote.
\<close>


section \<open>String literals\<close>

definition hex4 :: "string \<Rightarrow> nat option" where
  "hex4 s =
     (if 4 \<le> length s \<and> (\<forall>c \<in> set (take 4 s). is_hex_digit c) then Some (hex_num (take 4 s)) else None)"

definition is_surrogate :: "rune \<Rightarrow> bool" where
  "is_surrogate r \<longleftrightarrow> in_range 0xD800 0xDFFF r"

text \<open>
  The rune of a \<open>\u\<close> escape, and how many further characters belong to it: a surrogate takes the
  second half of its pair from the following escape, and is U+FFFD when that is no second half.
\<close>

definition u_escape :: "rune \<Rightarrow> string \<Rightarrow> rune \<times> nat" where
  "u_escape r s =
     (if \<not> is_surrogate r then (r, 0)
      else if take 2 s = [CHR 0x5C, CHR ''u''] then
        (case hex4 (drop 2 s) of
           None \<Rightarrow> (0xFFFD, 0)
         | Some r' \<Rightarrow>
             if in_range 0xD800 0xDBFF r \<and> in_range 0xDC00 0xDFFF r'
             then ((r - 0xD800) * 1024 + (r' - 0xDC00) + 0x10000, 6)
             else (0xFFFD, 0))
      else (0xFFFD, 0))"

definition simple_escape :: "char \<Rightarrow> char option" where
  "simple_escape e =
     map_of [(CHR 0x22, CHR 0x22), (CHR 0x5C, CHR 0x5C), (CHR ''/'', CHR ''/''), (CHR ''b'', CHR 0x08),
             (CHR ''f'', CHR 0x0C), (CHR ''n'', CHR 0x0A), (CHR ''r'', CHR 0x0D), (CHR ''t'', CHR 0x09)] e"

definition push_front :: "'a list \<Rightarrow> ('a list \<times> 'b) option \<Rightarrow> ('a list \<times> 'b) option" where
  "push_front x r = (case r of None \<Rightarrow> None | Some (xs, s) \<Rightarrow> Some (x @ xs, s))"

lemma push_front_simps [simp]:
  "push_front x None = None" "push_front x (Some (xs, s)) = Some (x @ xs, s)"
  by (simp_all add: push_front_def)

text \<open>The characters of a literal after its opening quote: the decoded string and what follows.\<close>

function json_chars :: "string \<Rightarrow> (string \<times> string) option" where
  "json_chars s =
     (case s of
        [] \<Rightarrow> None
      | c # t \<Rightarrow>
          if c = CHR 0x22 then Some ([], t)
          else if c = CHR 0x5C then
            (case t of
               [] \<Rightarrow> None
             | e # u \<Rightarrow>
                 if e = CHR ''u'' then
                   (case hex4 u of
                      None \<Rightarrow> None
                    | Some r \<Rightarrow>
                        push_front (encode_rune (fst (u_escape r (drop 4 u))))
                          (json_chars (drop (4 + snd (u_escape r (drop 4 u))) u)))
                 else
                   (case simple_escape e of
                      None \<Rightarrow> None
                    | Some ch \<Rightarrow> push_front [ch] (json_chars u)))
          else if (of_char c :: nat) < 0x20 then None
          else push_front (encode_rune (fst (decode_rune s)))
                 (json_chars (drop (snd (decode_rune s)) s)))"
  by pat_completeness auto
termination
proof (relation "measure length", goal_cases)
  case (4 s c t)
  then show ?case using decode_rune_shorter [of s] by auto
qed auto

declare json_chars.simps [simp del]

text \<open>\<open>json.Marshal\<close>'s string literal: HTML characters and the two line separators are escaped too.\<close>

definition u_literal :: "nat \<Rightarrow> string" where
  "u_literal r = [CHR 0x5C, CHR ''u''] @ map hexL (fixed_digits 16 4 r)"

definition marshal_rune :: "rune \<Rightarrow> string" where
  "marshal_rune r =
     (if r = 0x22 then [CHR 0x5C, CHR 0x22]
      else if r = 0x5C then [CHR 0x5C, CHR 0x5C]
      else if r = 0x08 then [CHR 0x5C, CHR ''b'']
      else if r = 0x0C then [CHR 0x5C, CHR ''f'']
      else if r = 0x0A then [CHR 0x5C, CHR ''n'']
      else if r = 0x0D then [CHR 0x5C, CHR ''r'']
      else if r = 0x09 then [CHR 0x5C, CHR ''t'']
      else if r < 0x20 \<or> r = 0x3C \<or> r = 0x3E \<or> r = 0x26 \<or> r = 0x2028 \<or> r = 0x2029 then u_literal r
      else encode_rune r)"

function marshal_chars :: "string \<Rightarrow> string" where
  "marshal_chars s =
     (if s = [] then []
      else (if decode_rune s = utf8_bad then u_literal 0xFFFD else marshal_rune (fst (decode_rune s)))
           @ marshal_chars (drop (snd (decode_rune s)) s))"
  by pat_completeness auto
termination
  by (relation "measure length") (simp_all add: decode_rune_shorter)

declare marshal_chars.simps [simp del]

definition marshal_string :: "string \<Rightarrow> string" where
  "marshal_string s = CHR 0x22 # marshal_chars s @ [CHR 0x22]"

text \<open>Reading back one escaped or raw character.\<close>

lemma json_chars_simple:
  "simple_escape e = Some ch \<Longrightarrow> e \<noteq> CHR ''u'' \<Longrightarrow>
   json_chars (CHR 0x5C # e # rest) = push_front [ch] (json_chars rest)"
  by (subst json_chars.simps) simp

lemma json_chars_quote [simp]: "json_chars (CHR 0x22 # rest) = Some ([], rest)"
  by (subst json_chars.simps) simp

lemma json_chars_plain:
  "c \<noteq> CHR 0x22 \<Longrightarrow> c \<noteq> CHR 0x5C \<Longrightarrow> \<not> (of_char c :: nat) < 0x20 \<Longrightarrow>
   json_chars (c # t) =
     push_front (encode_rune (fst (decode_rune (c # t)))) (json_chars (drop (snd (decode_rune (c # t))) (c # t)))"
  by (subst json_chars.simps) (simp del: drop_Cons')

lemma hex4_literal: "r < 65536 \<Longrightarrow> hex4 (map hexL (fixed_digits 16 4 r) @ rest) = Some r"
proof -
  assume r: "r < 65536"
  have b: "\<forall>d \<in> set (fixed_digits 16 4 r). d < 16" by (auto dest: fixed_digits_bound [rotated])
  have h: "hex_num (map hexL (fixed_digits 16 4 r)) = num_of 16 (fixed_digits 16 4 r)"
    using b by (simp add: hex_num_def comp_def cong: map_cong)
  show ?thesis
    using b r num_of_fixed_digits [of 16 r 4] by (auto simp: hex4_def h is_hex_digit_def)
qed

lemma json_chars_u:
  assumes "r < 65536" "\<not> is_surrogate r"
  shows "json_chars (u_literal r @ rest) = push_front (encode_rune r) (json_chars rest)"
proof -
  have "drop 4 (map hexL (fixed_digits 16 4 r) @ rest) = rest" by simp
  with assms show ?thesis
    by (subst json_chars.simps) (simp add: u_literal_def hex4_literal u_escape_def)
qed

lemma decode3_take:
  "decode3 b0 r \<noteq> utf8_bad \<Longrightarrow>
   snd (decode3 b0 r) = 3 \<and> decode3 b0 (take 2 r @ t) = decode3 b0 r"
  by (cases r; cases "tl r") (simp_all add: decode3_def split: if_splits)

lemma decode4_take:
  "decode4 b0 r \<noteq> utf8_bad \<Longrightarrow>
   snd (decode4 b0 r) = 4 \<and> decode4 b0 (take 3 r @ t) = decode4 b0 r"
  by (cases r; cases "tl r"; cases "tl (tl r)") (simp_all add: decode4_def split: if_splits)

lemma decode_bytes_take:
  assumes "bs \<noteq> []" "decode_bytes bs \<noteq> utf8_bad"
  shows "decode_bytes (take (snd (decode_bytes bs)) bs @ t) = decode_bytes bs"
proof -
  obtain b0 r where bs: "bs = b0 # r" using assms(1) by (cases bs) auto
  consider "b0 < 0x80" | "in_range 0xC2 0xDF b0" "\<not> b0 < 0x80"
    | "in_range 0xE0 0xEF b0" "\<not> in_range 0xC2 0xDF b0" "\<not> b0 < 0x80"
    | "in_range 0xF0 0xF4 b0" "\<not> in_range 0xE0 0xEF b0" "\<not> in_range 0xC2 0xDF b0" "\<not> b0 < 0x80"
    using assms(2) unfolding bs decode_bytes_def by (auto split: if_splits)
  then show ?thesis
  proof cases
    case 1
    then show ?thesis by (simp add: bs decode_bytes_def)
  next
    case 2
    then show ?thesis using assms(2) by (cases r) (simp_all add: bs decode_bytes_def split: if_splits)
  next
    case 3
    then have eq: "decode_bytes (b0 # x) = decode3 b0 x" for x by (simp add: decode_bytes_def)
    show ?thesis using decode3_take [of b0 r t] assms(2) by (simp add: bs eq)
  next
    case 4
    then have eq: "decode_bytes (b0 # x) = decode4 b0 x" for x by (simp add: decode_bytes_def)
    show ?thesis using decode4_take [of b0 r t] assms(2) by (simp add: bs eq)
  qed
qed

lemma json_chars_raw:
  assumes "s \<noteq> []" "decode_rune s \<noteq> utf8_bad" "0x20 \<le> fst (decode_rune s)"
    "fst (decode_rune s) \<noteq> 0x22" "fst (decode_rune s) \<noteq> 0x5C"
  shows "json_chars (encode_rune (fst (decode_rune s)) @ rest) =
         push_front (encode_rune (fst (decode_rune s))) (json_chars rest)"
proof -
  let ?n = "snd (decode_rune s)"
  have e: "encode_rune (fst (decode_rune s)) = take ?n s" using assms by (simp add: encode_decode_rune)
  have d: "decode_rune (take ?n s @ rest) = decode_rune s"
    using decode_bytes_take [of "map of_char s" "map of_char rest"] assms
    by (simp add: decode_rune_def take_map)
  have w: "1 \<le> ?n" "?n \<le> length s" using decode_rune_width [OF assms(1)] by auto
  obtain c t where s: "s = c # t" using assms(1) by (cases s) auto
  have c: "take ?n s = c # take (?n - 1) t" using w s by (cases ?n) auto
  have low: "(of_char c :: nat) < 128 \<Longrightarrow> fst (decode_rune s) = of_char c" by (simp add: s)
  have "c \<noteq> CHR 0x22" "c \<noteq> CHR 0x5C" "\<not> (of_char c :: nat) < 0x20"
    using low assms(3-5) by auto
  then have "json_chars (take ?n s @ rest) =
      push_front (encode_rune (fst (decode_rune (take ?n s @ rest))))
        (json_chars (drop (snd (decode_rune (take ?n s @ rest))) (take ?n s @ rest)))"
    unfolding c append_Cons by (rule json_chars_plain)
  moreover have "drop ?n (take ?n s @ rest) = rest" using w(2) by simp
  ultimately show ?thesis unfolding d e by simp
qed

text \<open>A character escaped by \<open>json.Marshal\<close> is read back, and so is a whole well-formed string.\<close>

lemma encode_rune_ascii: "r < 0x80 \<Longrightarrow> encode_rune r = [char_of r]"
  by (simp add: encode_rune_def encode_ascii)

lemma json_chars_marshal_rune:
  assumes "s \<noteq> []" "decode_rune s \<noteq> utf8_bad"
  shows "json_chars (marshal_rune (fst (decode_rune s)) @ rest) =
         push_front (encode_rune (fst (decode_rune s))) (json_chars rest)"
proof -
  let ?r = "fst (decode_rune s)"
  have simple: "?thesis" if "?r \<in> {0x22, 0x5C, 0x08, 0x0C, 0x0A, 0x0D, 0x09}"
    using that
    by (elim insertE emptyE)
       (simp_all add: marshal_rune_def json_chars_simple simple_escape_def encode_rune_ascii char_of_def
          bit_Suc_0_iff)
  have u: "?thesis" if "marshal_rune ?r = u_literal ?r" "?r < 0x20 \<or> ?r = 0x3C \<or> ?r = 0x3E \<or> ?r = 0x26 \<or> ?r = 0x2028 \<or> ?r = 0x2029"
    unfolding that(1)
    by (rule json_chars_u) (use that(2) in \<open>auto simp: is_surrogate_def in_range_def\<close>)
  have raw: "?thesis" if "marshal_rune ?r = encode_rune ?r" "0x20 \<le> ?r" "?r \<noteq> 0x22" "?r \<noteq> 0x5C"
    unfolding that(1) by (rule json_chars_raw [OF assms that(2-4)])
  show ?thesis
    using simple u raw unfolding marshal_rune_def by (auto split: if_splits)
qed

theorem json_chars_marshal:
  "valid_utf8 s \<Longrightarrow> json_chars (marshal_chars s @ CHR 0x22 # rest) = Some (s, rest)"
proof (induction s rule: marshal_chars.induct)
  case (1 s)
  show ?case
  proof (cases "s = []")
    case True
    then show ?thesis by (simp add: marshal_chars.simps)
  next
    case False
    have v: "valid_utf8 (drop (snd (decode_rune s)) s)" "decode_rune s \<noteq> utf8_bad"
      using 1(2) False valid_utf8.simps [of s] by (simp_all split: if_splits)
    show ?thesis
      using 1(1) [OF False v(1)] encode_decode_rune [OF False v(2)] False v(2)
      by (subst marshal_chars.simps) (simp add: json_chars_marshal_rune)
  qed
qed


section \<open>Values and their indented text\<close>

datatype json =
    JNull
  | JBool bool
  | JNum string
  | JStr string
  | JArr "json list"
  | JObj "(string \<times> json) list"

definition json_nl :: "nat \<Rightarrow> string" where
  "json_nl n = CHR 0x0A # concat (replicate n [CHR '' '', CHR '' ''])"

fun json_sep :: "nat \<Rightarrow> string list \<Rightarrow> string" where
  "json_sep n [] = []"
| "json_sep n [x] = x"
| "json_sep n (x # y # xs) = x @ [CHR '',''] @ json_nl n @ json_sep n (y # xs)"

fun json_print :: "nat \<Rightarrow> json \<Rightarrow> string" where
  "json_print n JNull = ''null''"
| "json_print n (JBool b) = (if b then ''true'' else ''false'')"
| "json_print n (JNum l) = l"
| "json_print n (JStr s) = marshal_string s"
| "json_print n (JArr vs) =
     (if vs = [] then ''[]''
      else [CHR ''['']  @ json_nl (Suc n) @ json_sep (Suc n) (map (json_print (Suc n)) vs) @ json_nl n @ [CHR '']''])"
| "json_print n (JObj kvs) =
     (if kvs = [] then ''{}''
      else [CHR ''{''] @ json_nl (Suc n)
           @ json_sep (Suc n) (map (\<lambda>(k, v). marshal_string k @ '': '' @ json_print (Suc n) v) kvs)
           @ json_nl n @ [CHR ''}''])"

definition json_MarshalIndent :: "json \<Rightarrow> string" where
  "json_MarshalIndent v = json_print 0 v"


section \<open>The parser\<close>

definition is_ws :: "char \<Rightarrow> bool" where
  "is_ws c \<longleftrightarrow> c \<in> {CHR '' '', CHR 0x09, CHR 0x0A, CHR 0x0D}"

definition skip_ws :: "string \<Rightarrow> string" where
  "skip_ws s = dropWhile is_ws s"

definition is_digit :: "char \<Rightarrow> bool" where
  "is_digit c \<longleftrightarrow> 48 \<le> (of_char c :: nat) \<and> (of_char c :: nat) \<le> 57"

text \<open>The optional fraction and exponent after the integer part of a number.\<close>

definition json_frac :: "string \<Rightarrow> string option" where
  "json_frac s =
     (case s of
        [] \<Rightarrow> Some []
      | c # r \<Rightarrow>
          if c = CHR ''.'' then
            (let ds = takeWhile is_digit r in if ds = [] then None else Some (c # ds))
          else Some [])"

definition json_exp :: "string \<Rightarrow> string option" where
  "json_exp s =
     (case s of
        [] \<Rightarrow> Some []
      | c # r \<Rightarrow>
          if c = CHR ''e'' \<or> c = CHR ''E'' then
            (let sg = (case r of [] \<Rightarrow> [] | x # _ \<Rightarrow> if x = CHR ''+'' \<or> x = CHR ''-'' then [x] else []);
                 ds = takeWhile is_digit (drop (length sg) r)
             in if ds = [] then None else Some (c # sg @ ds))
          else Some [])"

definition json_number :: "string \<Rightarrow> (string \<times> string) option" where
  "json_number s =
     (let sg = (case s of [] \<Rightarrow> [] | c # _ \<Rightarrow> if c = CHR ''-'' then [c] else []);
          t = drop (length sg) s;
          ip = (case t of [] \<Rightarrow> [] | c # _ \<Rightarrow> if c = CHR ''0'' then [c] else takeWhile is_digit t);
          u = drop (length ip) t
      in if ip = [] then None
         else (case json_frac u of
                 None \<Rightarrow> None
               | Some fr \<Rightarrow>
                   (case json_exp (drop (length fr) u) of
                      None \<Rightarrow> None
                    | Some ex \<Rightarrow> Some (sg @ ip @ fr @ ex, drop (length ex) (drop (length fr) u)))))"

text \<open>
  A value, the elements of an array after its bracket, the members of an object after its brace.
  The first argument is fuel (the length of the text is enough), the second the nesting still
  allowed (\<open>maxNestingDepth\<close>, 10000 at the top).
\<close>

fun json_value :: "nat \<Rightarrow> nat \<Rightarrow> string \<Rightarrow> (json \<times> string) option"
and json_elems :: "nat \<Rightarrow> nat \<Rightarrow> string \<Rightarrow> (json list \<times> string) option"
and json_members :: "nat \<Rightarrow> nat \<Rightarrow> string \<Rightarrow> ((string \<times> json) list \<times> string) option" where
  "json_value 0 d s = None"
| "json_value (Suc f) d s =
     (case skip_ws s of
        [] \<Rightarrow> None
      | c # t \<Rightarrow>
          if c = CHR 0x22 then map_option (apfst JStr) (json_chars t)
          else if c = CHR ''['' then
            (if d = 0 then None
             else if take 1 (skip_ws t) = '']'' then Some (JArr [], drop 1 (skip_ws t))
             else map_option (apfst JArr) (json_elems f (d - 1) t))
          else if c = CHR ''{'' then
            (if d = 0 then None
             else if take 1 (skip_ws t) = ''}'' then Some (JObj [], drop 1 (skip_ws t))
             else map_option (apfst JObj) (json_members f (d - 1) t))
          else if prefix ''true'' (c # t) then Some (JBool True, drop 4 (c # t))
          else if prefix ''false'' (c # t) then Some (JBool False, drop 5 (c # t))
          else if prefix ''null'' (c # t) then Some (JNull, drop 4 (c # t))
          else map_option (apfst JNum) (json_number (c # t)))"
| "json_elems 0 d s = None"
| "json_elems (Suc f) d s =
     (case json_value f d s of
        None \<Rightarrow> None
      | Some (v, r) \<Rightarrow>
          (case skip_ws r of
             [] \<Rightarrow> None
           | c # r' \<Rightarrow>
               if c = CHR '']'' then Some ([v], r')
               else if c = CHR '','' then push_front [v] (json_elems f d r')
               else None))"
| "json_members 0 d s = None"
| "json_members (Suc f) d s =
     (case skip_ws s of
        [] \<Rightarrow> None
      | c # t \<Rightarrow>
          if c \<noteq> CHR 0x22 then None
          else (case json_chars t of
                  None \<Rightarrow> None
                | Some (k, r) \<Rightarrow>
                    (case skip_ws r of
                       [] \<Rightarrow> None
                     | c' # r' \<Rightarrow>
                         if c' \<noteq> CHR '':'' then None
                         else (case json_value f d r' of
                                 None \<Rightarrow> None
                               | Some (v, u) \<Rightarrow>
                                   (case skip_ws u of
                                      [] \<Rightarrow> None
                                    | x # u' \<Rightarrow>
                                        if x = CHR ''}'' then Some ([(k, v)], u')
                                        else if x = CHR '','' then push_front [(k, v)] (json_members f d u')
                                        else None)))))"

definition json_Decode :: "bytes \<Rightarrow> json option" where
  "json_Decode s = map_option fst (json_value (Suc (length s)) 10000 s)"


section \<open>The parser reads back what the printer wrote\<close>

definition int_literal :: "string \<Rightarrow> bool" where
  "int_literal l =
     (let t = (if take 1 l = ''-'' then drop 1 l else l)
      in t \<noteq> [] \<and> list_all is_digit t \<and> (t = ''0'' \<or> hd t \<noteq> CHR ''0''))"

fun json_wf :: "nat \<Rightarrow> json \<Rightarrow> bool" where
  "json_wf d JNull = True"
| "json_wf d (JBool b) = True"
| "json_wf d (JNum l) = int_literal l"
| "json_wf d (JStr s) = valid_utf8 s"
| "json_wf d (JArr vs) = (0 < d \<and> (\<forall>v \<in> set vs. json_wf (d - 1) v))"
| "json_wf d (JObj kvs) = (0 < d \<and> (\<forall>(k, v) \<in> set kvs. valid_utf8 k \<and> json_wf (d - 1) v))"

text \<open>What may follow a number without becoming part of it.\<close>

definition num_end :: "string \<Rightarrow> bool" where
  "num_end r \<longleftrightarrow> r = [] \<or> \<not> is_digit (hd r) \<and> hd r \<notin> {CHR ''.'', CHR ''e'', CHR ''E''}"

lemma skip_ws_nl [simp]: "skip_ws (json_nl n @ s) = skip_ws s"
proof -
  have "list_all is_ws (json_nl n)" by (auto simp: json_nl_def is_ws_def list_all_iff)
  then show ?thesis by (simp add: skip_ws_def dropWhile_append2 list_all_iff)
qed

lemma num_end_nl [simp]: "num_end (json_nl n @ s)" "num_end (CHR '','' # s)"
  by (simp_all add: num_end_def json_nl_def is_digit_def)

lemma takeWhile_num_end: "list_all is_digit ds \<Longrightarrow> num_end r \<Longrightarrow> takeWhile is_digit (ds @ r) = ds"
  by (cases r) (auto simp: takeWhile_append2 list_all_iff num_end_def)

lemma json_number_tail: "num_end r \<Longrightarrow> json_frac r = Some [] \<and> json_exp r = Some []"
  by (cases r) (auto simp: json_frac_def json_exp_def num_end_def)

lemma json_number_literal:
  assumes "int_literal l" "num_end r"
  shows "json_number (l @ r) = Some (l, r)"
proof -
  define sg where "sg = (if take 1 l = ''-'' then ''-'' else [])"
  define t where "t = drop (length sg) l"
  have l: "l = sg @ t" unfolding t_def sg_def by (cases l) auto
  have sgc: "sg = [] \<or> sg = ''-''" by (simp add: sg_def)
  have t: "t \<noteq> []" "list_all is_digit t" "t = ''0'' \<or> hd t \<noteq> CHR ''0''"
    using assms(1) unfolding int_literal_def t_def sg_def Let_def by (auto split: if_splits)
  obtain c u where cu: "t = c # u" using t(1) by (cases t) auto
  have c: "c \<noteq> CHR ''-''" using t(2) cu by (auto simp: is_digit_def)
  have s1: "(case l @ r of [] \<Rightarrow> [] | c # _ \<Rightarrow> if c = CHR ''-'' then [c] else []) = sg"
    using c sgc unfolding l by (auto simp: cu)
  have ip: "(case t @ r of [] \<Rightarrow> [] | c # _ \<Rightarrow> if c = CHR ''0'' then [c] else takeWhile is_digit (t @ r)) = t"
    using t takeWhile_num_end [OF t(2) assms(2)] cu by auto
  have d: "drop (length sg) (l @ r) = t @ r" "drop (length t) (t @ r) = r" by (simp_all add: l)
  show ?thesis
    using json_number_tail [OF assms(2)] t(1) l unfolding json_number_def Let_def s1 d ip by simp
qed

lemma skip_ws_head: "\<not> is_ws c \<Longrightarrow> skip_ws (c # t) = c # t"
  by (simp add: skip_ws_def)

lemma json_value_literal:
  assumes "int_literal l" "num_end r"
  shows "json_value (Suc f) d (l @ r) = Some (JNum l, r)"
proof -
  obtain c u where cu: "l = c # u" using assms(1) by (cases l) (auto simp: int_literal_def)
  have c: "c = CHR ''-'' \<or> is_digit c"
    using assms(1) by (auto simp: cu int_literal_def Let_def split: if_splits)
  then have ne: "c \<notin> {CHR 0x22, CHR ''['', CHR ''{'', CHR ''t'', CHR ''f'', CHR ''n''}" "\<not> is_ws c"
    by (auto simp: is_digit_def is_ws_def)
  have n: "json_number (c # u @ r) = Some (c # u, r)"
    using json_number_literal [OF assms] by (simp add: cu)
  show ?thesis using ne by (auto simp: cu skip_ws_head n)
qed

definition parses :: "json \<Rightarrow> bool" where
  "parses v \<longleftrightarrow> (\<forall>n d f r. json_wf d v \<longrightarrow> length (json_print n v) \<le> f \<longrightarrow> num_end r \<longrightarrow>
     json_value f d (json_print n v @ r) = Some (v, r))"

lemma parsesD:
  "parses v \<Longrightarrow> json_wf d v \<Longrightarrow> length (json_print n v) \<le> f \<Longrightarrow> num_end r \<Longrightarrow>
   json_value f d (json_print n v @ r) = Some (v, r)"
  by (simp add: parses_def)

lemma json_value_skip: "json_value f d (json_nl n @ s) = json_value f d s"
  by (cases f) simp_all

lemma json_value_space: "json_value f d (CHR '' '' # s) = json_value f d s"
  by (cases f) (simp_all add: skip_ws_def is_ws_def)

lemma json_elems_skip: "json_elems f d (json_nl n @ s) = json_elems f d s"
  by (cases f) (simp_all add: json_value_skip)

lemma json_members_skip: "json_members f d (json_nl n @ s) = json_members f d s"
  by (cases f) simp_all

lemma json_elems_print:
  "vs \<noteq> [] \<Longrightarrow> \<forall>v \<in> set vs. parses v \<and> json_wf d v \<Longrightarrow>
   length (json_sep n (map (json_print n) vs)) < f \<Longrightarrow>
   json_elems f d (json_sep n (map (json_print n) vs) @ json_nl m @ CHR '']'' # r) = Some (vs, r)"
proof (induction vs arbitrary: f)
  case (Cons v vs)
  obtain g where g: "f = Suc g" using Cons.prems(3) by (cases f) auto
  show ?case
  proof (cases vs)
    case Nil
    then show ?thesis
      using Cons.prems parsesD [of v d n g "json_nl m @ CHR '']'' # r"]
      by (simp add: g skip_ws_head is_ws_def)
  next
    case (Cons w ws)
    let ?t = "json_sep n (map (json_print n) (w # ws)) @ json_nl m @ CHR '']'' # r"
    have "json_value g d (json_print n v @ CHR '','' # json_nl n @ ?t) = Some (v, CHR '','' # json_nl n @ ?t)"
      using Cons.prems Cons by (intro parsesD) (auto simp: g)
    moreover have "json_elems g d ?t = Some (w # ws, r)"
      using Cons.IH [of g] Cons.prems Cons by (auto simp: g)
    ultimately show ?thesis by (simp add: Cons g json_elems_skip skip_ws_head is_ws_def)
  qed
qed simp

definition json_member :: "nat \<Rightarrow> string \<times> json \<Rightarrow> string" where
  "json_member n kv = marshal_string (fst kv) @ '': '' @ json_print n (snd kv)"

lemma json_members_key:
  assumes "valid_utf8 k"
    and "json_value f d (json_print n v @ r) = Some (v, r)"
  shows "json_members (Suc f) d (json_member n (k, v) @ r) =
         (case skip_ws r of
            [] \<Rightarrow> None
          | x # u' \<Rightarrow>
              if x = CHR ''}'' then Some ([(k, v)], u')
              else if x = CHR '','' then push_front [(k, v)] (json_members f d u') else None)"
  using assms
  by (simp add: json_member_def marshal_string_def skip_ws_head is_ws_def json_chars_marshal
      json_value_space)

lemma json_members_print:
  "kvs \<noteq> [] \<Longrightarrow> \<forall>(k, v) \<in> set kvs. valid_utf8 k \<and> parses v \<and> json_wf d v \<Longrightarrow>
   length (json_sep n (map (json_member n) kvs)) < f \<Longrightarrow>
   json_members f d (json_sep n (map (json_member n) kvs) @ json_nl m @ CHR ''}'' # r) = Some (kvs, r)"
proof (induction kvs arbitrary: f)
  case (Cons kv kvs)
  obtain k v where kv: "kv = (k, v)" by (cases kv)
  obtain g where g: "f = Suc g" using Cons.prems(3) by (cases f) auto
  have wf: "valid_utf8 k" "parses v" "json_wf d v" using Cons.prems(2) by (auto simp: kv)
  have len: "length (json_print n v) \<le> g"
    using Cons.prems(3) by (cases kvs) (auto simp: g kv json_member_def)
  have val: "num_end s \<Longrightarrow> json_value g d (json_print n v @ s) = Some (v, s)" for s
    using parsesD [OF wf(2,3) len] .
  show ?case
  proof (cases kvs)
    case Nil
    then show ?thesis
      using json_members_key [OF wf(1) val] by (simp add: g kv skip_ws_head is_ws_def)
  next
    case (Cons w ws)
    let ?t = "json_sep n (map (json_member n) (w # ws)) @ json_nl m @ CHR ''}'' # r"
    have "json_members g d ?t = Some (w # ws, r)"
      using Cons.IH [of g] Cons.prems Cons by (auto simp: g)
    then show ?thesis
      using json_members_key [OF wf(1) val, of "CHR '','' # json_nl n @ ?t"]
      by (simp add: Cons g kv json_members_skip skip_ws_head is_ws_def)
  qed
qed simp

lemma json_print_obj:
  "json_print n (JObj kvs) =
     (if kvs = [] then ''{}''
      else [CHR ''{''] @ json_nl (Suc n) @ json_sep (Suc n) (map (json_member (Suc n)) kvs)
           @ json_nl n @ [CHR ''}''])"
  by (simp add: json_member_def [abs_def] case_prod_unfold)

text \<open>No printed value starts with white space or a closing bracket.\<close>

lemma json_sep_head: "\<not> is_ws c \<Longrightarrow> take 1 (skip_ws (json_sep n ((c # t) # xs) @ z)) = [c]"
  by (cases xs) (simp_all add: skip_ws_head)

lemma json_print_head:
  "json_wf d v \<Longrightarrow> \<exists>c t. json_print n v = c # t \<and> \<not> is_ws c \<and> c \<noteq> CHR '']''"
proof (cases v)
  case (JNum l)
  assume "json_wf d v"
  with JNum show ?thesis
    by (cases l) (auto simp: int_literal_def Let_def is_digit_def is_ws_def split: if_splits)
qed (auto simp: is_ws_def marshal_string_def)

theorem parses_print: "parses v"
proof (induction v)
  case (JNum l)
  show ?case
  proof (unfold parses_def, intro allI impI)
    fix n d f r
    assume a: "json_wf d (JNum l)" "length (json_print n (JNum l)) \<le> f" "num_end r"
    then obtain g where "f = Suc g" by (cases f) (auto simp: int_literal_def)
    with a show "json_value f d (json_print n (JNum l) @ r) = Some (JNum l, r)"
      by (simp add: json_value_literal del: json_value.simps)
  qed
next
  case (JStr s)
  then show ?case
    by (auto simp: parses_def marshal_string_def skip_ws_head is_ws_def json_chars_marshal
        elim!: Suc_le_D [THEN exE])
next
  case (JArr vs)
  show ?case
  proof (unfold parses_def, intro allI impI)
    fix n d f r
    assume a: "json_wf d (JArr vs)" "length (json_print n (JArr vs)) \<le> f" "num_end r"
    then obtain g where g: "f = Suc g" by (cases f) (auto split: if_splits)
    show "json_value f d (json_print n (JArr vs) @ r) = Some (JArr vs, r)"
    proof (cases vs)
      case Nil
      then show ?thesis using a by (simp add: g skip_ws_head is_ws_def)
    next
      case (Cons w ws)
      let ?t = "json_sep (Suc n) (map (json_print (Suc n)) vs) @ json_nl n @ CHR '']'' # r"
      have "json_wf (d - 1) w" using a(1) Cons by simp
      then obtain c t where ct: "json_print (Suc n) w = c # t" "\<not> is_ws c" "c \<noteq> CHR '']''"
        using json_print_head by blast
      have sk: "take 1 (skip_ws ?t) = [c]"
        using json_sep_head [OF ct(2)] by (simp add: Cons ct(1))
      have "json_elems g (d - 1) ?t = Some (vs, r)"
        by (rule json_elems_print) (use JArr a Cons in \<open>auto simp: g\<close>)
      then show ?thesis
        using a(1) sk ct(3) Cons by (simp add: g skip_ws_head is_ws_def json_elems_skip)
    qed
  qed
next
  case (JObj kvs)
  have kids: "\<forall>(k, v) \<in> set kvs. parses v"
    by (auto intro: JObj simp: snds.simps)
  show ?case
  proof (unfold parses_def, intro allI impI)
    fix n d f r
    assume a: "json_wf d (JObj kvs)" "length (json_print n (JObj kvs)) \<le> f" "num_end r"
    then obtain g where g: "f = Suc g" by (cases f) (auto split: if_splits)
    show "json_value f d (json_print n (JObj kvs) @ r) = Some (JObj kvs, r)"
    proof (cases kvs)
      case Nil
      then show ?thesis using a by (simp add: g skip_ws_head is_ws_def)
    next
      case (Cons w ws)
      let ?t = "json_sep (Suc n) (map (json_member (Suc n)) kvs) @ json_nl n @ CHR ''}'' # r"
      have sk: "take 1 (skip_ws ?t) = [CHR 0x22]"
        using json_sep_head [of "CHR 0x22"]
        by (simp add: Cons is_ws_def json_member_def [of _ w] marshal_string_def)
      have "json_members g (d - 1) ?t = Some (kvs, r)"
        by (rule json_members_print)
           (use kids a Cons in \<open>auto simp: g json_print_obj simp del: json_print.simps(6)\<close>)
      then show ?thesis
        using a(1) sk Cons
        by (simp add: g skip_ws_head is_ws_def json_members_skip json_print_obj del: json_print.simps(6))
    qed
  qed
qed (auto simp: parses_def skip_ws_head is_ws_def elim!: Suc_le_D [THEN exE])

theorem json_Decode_MarshalIndent:
  "json_wf 10000 v \<Longrightarrow> json_Decode (json_MarshalIndent v) = Some v"
  using parsesD [OF parses_print, of 10000 v 0 "Suc (length (json_print 0 v))" "[]"]
  by (simp add: json_Decode_def json_MarshalIndent_def num_end_def del: json_value.simps)


section \<open>Decoding a value into Go types\<close>

text \<open>
  Each decoder takes the value the Go variable holds already, because \<open>null\<close> leaves it alone; a
  value of the wrong kind or out of range is an error. A struct decoder runs over the members in
  order, picks the field by its exact name or else by its case-folded name, and rejects a member
  that has no field (\<open>DisallowUnknownFields\<close>). A slice is \<open>None\<close> when it is nil.
\<close>

type_synonym 'a dec = "'a \<Rightarrow> json \<Rightarrow> 'a option"
type_synonym 'a slice = "'a list option"

definition parse_dec :: "string \<Rightarrow> nat option" where
  "parse_dec s =
     (if s \<noteq> [] \<and> list_all is_digit s
      then Some (num_of 10 (map (\<lambda>c. of_char c - 48) s)) else None)"

definition strconv_ParseUint :: "nat \<Rightarrow> string \<Rightarrow> nat option" where
  "strconv_ParseUint bits s =
     (case parse_dec s of None \<Rightarrow> None | Some n \<Rightarrow> if n < 2 ^ bits then Some n else None)"

definition strconv_ParseInt64 :: "string \<Rightarrow> int option" where
  "strconv_ParseInt64 s =
     (if take 1 s = ''-'' then
        (case parse_dec (drop 1 s) of None \<Rightarrow> None | Some n \<Rightarrow> if n \<le> 2 ^ 63 then Some (- int n) else None)
      else
        (case parse_dec s of None \<Rightarrow> None | Some n \<Rightarrow> if n < 2 ^ 63 then Some (int n) else None))"

definition dec_string :: "string dec" where
  "dec_string old v = (case v of JStr s \<Rightarrow> Some s | JNull \<Rightarrow> Some old | _ \<Rightarrow> None)"

definition dec_bool :: "bool dec" where
  "dec_bool old v = (case v of JBool b \<Rightarrow> Some b | JNull \<Rightarrow> Some old | _ \<Rightarrow> None)"

definition dec_int64 :: "int dec" where
  "dec_int64 old v = (case v of JNum l \<Rightarrow> strconv_ParseInt64 l | JNull \<Rightarrow> Some old | _ \<Rightarrow> None)"

definition dec_uint :: "nat \<Rightarrow> nat dec" where
  "dec_uint bits old v = (case v of JNum l \<Rightarrow> strconv_ParseUint bits l | JNull \<Rightarrow> Some old | _ \<Rightarrow> None)"

definition dec_slice :: "'a dec \<Rightarrow> 'a \<Rightarrow> 'a slice dec" where
  "dec_slice dec zero old v =
     (case v of JArr vs \<Rightarrow> map_option Some (those (map (dec zero) vs)) | JNull \<Rightarrow> Some None | _ \<Rightarrow> None)"

text \<open>A \<open>[32]byte\<close> is an array of numbers; surplus elements are skipped, missing ones become zero.\<close>

definition dec_bytes32 :: "bytes dec" where
  "dec_bytes32 old v =
     (case v of
        JArr vs \<Rightarrow>
          map_option (\<lambda>ns. map char_of (take 32 (ns @ replicate 32 0)))
            (those (map (\<lambda>(o', w). dec_uint 8 (of_char o') w) (zip old vs)))
      | JNull \<Rightarrow> Some old
      | _ \<Rightarrow> None)"

definition fold_rune :: "rune \<Rightarrow> rune" where
  "fold_rune r =
     (if 97 \<le> r \<and> r \<le> 122 then r - 32 else if r = 0x212A then 75 else if r = 0x17F then 83 else r)"

definition foldName :: "string \<Rightarrow> rune list" where
  "foldName k = map fold_rune (utf8_runes k)"

definition find_field :: "(string \<times> 'f) list \<Rightarrow> string \<Rightarrow> 'f option" where
  "find_field fs k =
     (case map_of fs k of
        Some f \<Rightarrow> Some f
      | None \<Rightarrow> map_option snd (find (\<lambda>(n, _). foldName n = foldName k) fs))"

fun dec_members :: "(string \<times> 'r dec) list \<Rightarrow> 'r \<Rightarrow> (string \<times> json) list \<Rightarrow> 'r option" where
  "dec_members fs r [] = Some r"
| "dec_members fs r ((k, v) # kvs) =
     (case find_field fs k of
        None \<Rightarrow> None
      | Some f \<Rightarrow> (case f r v of None \<Rightarrow> None | Some r' \<Rightarrow> dec_members fs r' kvs))"

definition dec_struct :: "(string \<times> 'r dec) list \<Rightarrow> 'r dec" where
  "dec_struct fs r v = (case v of JObj kvs \<Rightarrow> dec_members fs r kvs | JNull \<Rightarrow> Some r | _ \<Rightarrow> None)"

text \<open>Without \<open>DisallowUnknownFields\<close> a member that has no field is skipped.\<close>

fun dec_members_lax :: "(string \<times> 'r dec) list \<Rightarrow> 'r \<Rightarrow> (string \<times> json) list \<Rightarrow> 'r option" where
  "dec_members_lax fs r [] = Some r"
| "dec_members_lax fs r ((k, v) # kvs) =
     (case find_field fs k of
        None \<Rightarrow> dec_members_lax fs r kvs
      | Some f \<Rightarrow> (case f r v of None \<Rightarrow> None | Some r' \<Rightarrow> dec_members_lax fs r' kvs))"

definition dec_struct_lax :: "(string \<times> 'r dec) list \<Rightarrow> 'r dec" where
  "dec_struct_lax fs r v = (case v of JObj kvs \<Rightarrow> dec_members_lax fs r kvs | JNull \<Rightarrow> Some r | _ \<Rightarrow> None)"

text \<open>\<open>json.Unmarshal\<close>: one value and nothing but white space after it.\<close>

definition json_Unmarshal :: "bytes \<Rightarrow> json option" where
  "json_Unmarshal s =
     (case json_value (Suc (length s)) 10000 s of
        Some (v, r) \<Rightarrow> if list_all is_ws r then Some v else None
      | None \<Rightarrow> None)"

text \<open>A struct field: its decoder reads the field and stores it.\<close>

definition dec_field :: "('r \<Rightarrow> 'a) \<Rightarrow> ('a \<Rightarrow> 'r \<Rightarrow> 'r) \<Rightarrow> 'a dec \<Rightarrow> 'r dec" where
  "dec_field rd wr dec r v = map_option (\<lambda>a. wr a r) (dec (rd r) v)"

definition json_slice :: "('a \<Rightarrow> json) \<Rightarrow> 'a slice \<Rightarrow> json" where
  "json_slice f xs = (case xs of None \<Rightarrow> JNull | Some ys \<Rightarrow> JArr (map f ys))"

definition json_int :: "int \<Rightarrow> json" where
  "json_int i = JNum (fmt_int i)"

definition json_bytes :: "bytes \<Rightarrow> json" where
  "json_bytes bs = JArr (map (\<lambda>c. JNum (fmt_d (of_char c))) bs)"

lemma fmt_d_digits: "list_all is_digit (fmt_d n)"
proof -
  have "is_digit (hexU d)" if "d < 10" for d
  proof -
    have "d \<in> {0, 1, 2, 3, 4, 5, 6, 7, 8, 9}" using that by auto
    then show ?thesis by (auto simp: hexU_def is_digit_def)
  qed
  then show ?thesis using digits_of_bound [of 10 _ n] by (auto simp: fmt_d_def list_all_iff)
qed

lemma hexU_digit: "d < 10 \<Longrightarrow> of_char (hexU d) - 48 = d"
proof -
  assume "d < 10"
  then have "d \<in> {0, 1, 2, 3, 4, 5, 6, 7, 8, 9}" by auto
  then show ?thesis by (auto simp: hexU_def)
qed

lemma parse_dec_fmt_d [simp]: "parse_dec (fmt_d n) = Some n"
proof -
  have "map (\<lambda>c. of_char c - 48) (fmt_d n) = digits_of 10 n"
    using digits_of_bound [of 10 _ n] by (simp add: fmt_d_def hexU_digit map_idI)
  then show ?thesis using fmt_d_digits by (simp add: parse_dec_def num_of_digits_of) (simp add: fmt_d_def)
qed

lemma digits_of_head: "2 \<le> b \<Longrightarrow> 0 < n \<Longrightarrow> hd (digits_of b n) \<noteq> 0"
proof (induction b n rule: digits_of.induct)
  case (1 b n)
  show ?case
  proof (cases "n < b")
    case True
    then show ?thesis using 1 by (simp add: digits_of.simps)
  next
    case False
    then have "0 < n div b" using 1 by (simp add: div_greater_zero_iff)
    then show ?thesis using 1 False by (subst digits_of.simps) simp
  qed
qed

lemma int_literal_fmt_d: "int_literal (fmt_d n)"
proof -
  have ne: "fmt_d n \<noteq> []" by (simp add: fmt_d_def)
  have m: "hd (fmt_d n) \<noteq> CHR ''-''" using fmt_d_digits [of n] ne by (cases "fmt_d n") (auto simp: is_digit_def)
  have z: "fmt_d n = ''0'' \<or> hd (fmt_d n) \<noteq> CHR ''0''"
  proof (cases "n = 0")
    case True
    then show ?thesis by (simp add: fmt_d_def digits_of.simps hexU_def)
  next
    case False
    have "hd (digits_of 10 n) \<noteq> 0" "hd (digits_of 10 n) < 10"
      using False digits_of_head [of 10 n] digits_of_bound [of 10 _ n] by simp_all
    then have "hexU (hd (digits_of 10 n)) \<noteq> hexU 0" using hexU_inj [of "hd (digits_of 10 n)" 0] by auto
    then show ?thesis by (simp add: fmt_d_def hd_map hexU_def)
  qed
  from m ne have "take 1 (fmt_d n) \<noteq> ''-''" by (cases "fmt_d n") auto
  then show ?thesis using ne z fmt_d_digits by (simp add: int_literal_def)
qed

lemma fmt_d_no_minus: "take 1 (fmt_d n) \<noteq> ''-''"
  using fmt_d_digits [of n] by (cases "fmt_d n") (auto simp: is_digit_def)

lemma int_literal_fmt_int: "int_literal (fmt_int i)"
proof (cases "i < 0")
  case True
  then show ?thesis
    using int_literal_fmt_d [of "nat (- i)"] fmt_d_no_minus [of "nat (- i)"]
    by (simp add: fmt_int_def int_literal_def)
next
  case False
  then show ?thesis using int_literal_fmt_d by (simp add: fmt_int_def)
qed

definition fits_int64 :: "int \<Rightarrow> bool" where
  "fits_int64 i \<longleftrightarrow> - (2 ^ 63) \<le> i \<and> i < 2 ^ 63"

lemma ParseInt64_fmt_int [simp]: "fits_int64 i \<Longrightarrow> strconv_ParseInt64 (fmt_int i) = Some i"
proof (cases "i < 0")
  case True
  assume "fits_int64 i"
  then have "- i \<le> 2 ^ 63" by (simp add: fits_int64_def)
  then have "nat (- i) \<le> 2 ^ 63" by (simp add: nat_le_iff)
  with True show ?thesis by (simp add: strconv_ParseInt64_def fmt_int_def)
next
  case False
  assume "fits_int64 i"
  then have "nat i < 2 ^ 63" using False by (simp add: fits_int64_def)
  with False show ?thesis using fmt_d_no_minus by (simp add: strconv_ParseInt64_def fmt_int_def)
qed

lemma ParseUint_fmt_d [simp]: "n < 2 ^ bits \<Longrightarrow> strconv_ParseUint bits (fmt_d n) = Some n"
  by (simp add: strconv_ParseUint_def)

lemma those_map_Some: "\<forall>x \<in> set xs. f x = Some (g x) \<Longrightarrow> those (map f xs) = Some (map g xs)"
  by (induction xs) auto

lemma dec_string_JStr [simp]: "dec_string old (JStr s) = Some s"
  by (simp add: dec_string_def)

lemma dec_bool_JBool [simp]: "dec_bool old (JBool b) = Some b"
  by (simp add: dec_bool_def)

lemma dec_int64_json_int [simp]: "fits_int64 i \<Longrightarrow> dec_int64 old (json_int i) = Some i"
  by (simp add: dec_int64_def json_int_def)

lemma dec_uint_JNum [simp]: "n < 2 ^ bits \<Longrightarrow> dec_uint bits old (JNum (fmt_d n)) = Some n"
  by (simp add: dec_uint_def)

definition slice_all :: "('a \<Rightarrow> bool) \<Rightarrow> 'a slice \<Rightarrow> bool" where
  "slice_all p xs = (case xs of None \<Rightarrow> True | Some ys \<Rightarrow> list_all p ys)"

lemma dec_slice_json_slice:
  assumes "slice_all (\<lambda>x. dec zero (f x) = Some x) xs"
  shows "dec_slice dec zero old (json_slice f xs) = Some xs"
  using assms those_map_Some [of _ "\<lambda>x. dec zero (f x)" "\<lambda>x. x"]
  by (cases xs) (auto simp: dec_slice_def json_slice_def slice_all_def list_all_iff comp_def)

lemma dec_bytes32_json_bytes [simp]:
  assumes "length old = 32" "length bs = 32"
  shows "dec_bytes32 old (json_bytes bs) = Some bs"
proof -
  have z: "map (\<lambda>(o', w). dec_uint 8 (of_char o') w) (zip old (map (\<lambda>c. JNum (fmt_d (of_char c))) bs)) =
      map (\<lambda>c. Some (of_char c)) bs"
    using assms by (intro nth_equalityI) (auto simp: of_char_less_256)
  have t: "those (map (\<lambda>c. Some (of_char c :: nat)) bs) = Some (map of_char bs)"
    by (rule those_map_Some) simp
  show ?thesis
    using assms(2) unfolding dec_bytes32_def json_bytes_def json.case z t by (simp add: comp_def)
qed

lemma json_wf_slice:
  "0 < d \<Longrightarrow> slice_all (\<lambda>x. json_wf (d - 1) (f x)) xs \<Longrightarrow> json_wf d (json_slice f xs)"
  by (cases xs) (auto simp: json_slice_def slice_all_def list_all_iff)

lemma json_wf_int [simp]: "json_wf d (json_int i)"
  by (simp add: json_int_def int_literal_fmt_int)

lemma json_wf_bytes [simp]: "0 < d \<Longrightarrow> json_wf d (json_bytes bs)"
  by (auto simp: json_bytes_def int_literal_fmt_d)


section \<open>Reading text with other white space\<close>

text \<open>
  \<open>reads d t v\<close>: wherever the text \<open>t\<close> stands, the parser reads the value \<open>v\<close> and stops after it.
  \<open>reads_elems\<close> and \<open>reads_members\<close> are the same for what follows an opening bracket or brace.
\<close>

definition reads :: "nat \<Rightarrow> string \<Rightarrow> json \<Rightarrow> bool" where
  "reads d t v \<longleftrightarrow>
     (\<forall>f r. length t \<le> f \<longrightarrow> num_end r \<longrightarrow> json_value f d (t @ r) = Some (v, r))"

definition reads_elems :: "nat \<Rightarrow> string \<Rightarrow> json list \<Rightarrow> bool" where
  "reads_elems d t vs \<longleftrightarrow>
     (\<forall>f r. length t \<le> f \<longrightarrow> json_elems f d (t @ r) = Some (vs, r))"

definition reads_members :: "nat \<Rightarrow> string \<Rightarrow> (string \<times> json) list \<Rightarrow> bool" where
  "reads_members d t kvs \<longleftrightarrow>
     (\<forall>f r. length t \<le> f \<longrightarrow> json_members f d (t @ r) = Some (kvs, r))"

definition all_ws :: "string \<Rightarrow> bool" where
  "all_ws w \<longleftrightarrow> list_all is_ws w"

lemma all_ws_simps [simp]: "all_ws []" "all_ws (c # w) \<longleftrightarrow> is_ws c \<and> all_ws w"
  by (simp_all add: all_ws_def)

lemma is_ws_simps [simp]: "is_ws (CHR '' '')" "is_ws (CHR 0x0A)"
  by (simp_all add: is_ws_def)

lemma skip_ws_all: "all_ws w \<Longrightarrow> skip_ws (w @ s) = skip_ws s"
  by (simp add: skip_ws_def all_ws_def list_all_iff dropWhile_append2)

lemma num_end_ws: "all_ws w \<Longrightarrow> num_end s \<Longrightarrow> num_end (w @ s)"
  by (cases w) (auto simp: num_end_def is_ws_def is_digit_def)

lemma num_end_closers [simp]: "num_end (CHR ''}'' # s)" "num_end (CHR '']'' # s)"
  by (simp_all add: num_end_def is_digit_def)

lemma reads_ws: "all_ws w \<Longrightarrow> reads d t v \<Longrightarrow> reads d (w @ t) v"
  unfolding reads_def
proof (intro allI impI)
  fix f r
  assume a: "all_ws w" "\<forall>f r. length t \<le> f \<longrightarrow> num_end r \<longrightarrow> json_value f d (t @ r) = Some (v, r)"
    "length (w @ t) \<le> f" "num_end r"
  have "json_value f d (w @ t @ r) = json_value f d (t @ r)" using a(1) by (cases f) (simp_all add: skip_ws_all)
  with a show "json_value f d ((w @ t) @ r) = Some (v, r)" by simp
qed

lemma readsD: "reads d t v \<Longrightarrow> length t \<le> f \<Longrightarrow> num_end r \<Longrightarrow> json_value f d (t @ r) = Some (v, r)"
  by (simp add: reads_def)

lemma reads_elemsD: "reads_elems d t vs \<Longrightarrow> length t \<le> f \<Longrightarrow> json_elems f d (t @ r) = Some (vs, r)"
  by (simp add: reads_elems_def)

lemma reads_membersD: "reads_members d t kvs \<Longrightarrow> length t \<le> f \<Longrightarrow> json_members f d (t @ r) = Some (kvs, r)"
  by (simp add: reads_members_def)

lemma reads_elems_last:
  assumes "reads d t v" "all_ws w"
  shows "reads_elems d (t @ w @ '']'') [v]"
  unfolding reads_elems_def
proof (intro allI impI)
  fix f r
  assume f: "length (t @ w @ '']'') \<le> f"
  then obtain g where g: "f = Suc g" by (cases f) auto
  have "json_value g d (t @ w @ CHR '']'' # r) = Some (v, w @ CHR '']'' # r)"
    using f assms by (intro readsD) (auto simp: g num_end_ws)
  then show "json_elems f d ((t @ w @ '']'') @ r) = Some ([v], r)"
    using assms(2) by (simp add: g skip_ws_all skip_ws_head is_ws_def)
qed

lemma reads_elems_cons:
  assumes "reads d t v" "all_ws w" "reads_elems d u vs"
  shows "reads_elems d (t @ w @ '','' @ u) (v # vs)"
  unfolding reads_elems_def
proof (intro allI impI)
  fix f r
  assume f: "length (t @ w @ '','' @ u) \<le> f"
  then obtain g where g: "f = Suc g" by (cases f) auto
  have "json_value g d (t @ w @ CHR '','' # u @ r) = Some (v, w @ CHR '','' # u @ r)"
    using f assms by (intro readsD) (auto simp: g num_end_ws)
  moreover have "json_elems g d (u @ r) = Some (vs, r)"
    using f assms(3) by (intro reads_elemsD) (auto simp: g)
  ultimately show "json_elems f d ((t @ w @ '','' @ u) @ r) = Some (v # vs, r)"
    using assms(2) by (simp add: g skip_ws_all skip_ws_head is_ws_def)
qed

text \<open>A key literal: what the printers put between quotes and the parser reads as the key.\<close>

definition reads_key :: "string \<Rightarrow> string \<Rightarrow> bool" where
  "reads_key t k \<longleftrightarrow> (\<forall>r. json_chars (t @ CHR 0x22 # r) = Some (k, r))"

lemma reads_members_step:
  assumes "all_ws w0" "reads_key kt k" "reads d t v" "length (kt @ t) < f" "num_end r"
  shows "json_members (Suc f) d (w0 @ CHR 0x22 # kt @ CHR 0x22 # CHR '':'' # t @ r) =
         (case skip_ws r of
            [] \<Rightarrow> None
          | x # u' \<Rightarrow>
              if x = CHR ''}'' then Some ([(k, v)], u')
              else if x = CHR '','' then push_front [(k, v)] (json_members f d u') else None)"
proof -
  have "json_chars (kt @ CHR 0x22 # CHR '':'' # t @ r) = Some (k, CHR '':'' # t @ r)"
    using assms(2) by (simp add: reads_key_def)
  moreover have "json_value f d (t @ r) = Some (v, r)" using assms by (intro readsD) auto
  ultimately show ?thesis using assms(1) by (simp add: skip_ws_all skip_ws_head is_ws_def)
qed

lemma reads_members_last:
  assumes "all_ws w0" "reads_key kt k" "reads d t v" "all_ws w"
  shows "reads_members d (w0 @ [CHR 0x22] @ kt @ [CHR 0x22, CHR '':''] @ t @ w @ ''}'') [(k, v)]"
  unfolding reads_members_def
proof (intro allI impI)
  fix f r
  assume f: "length (w0 @ [CHR 0x22] @ kt @ [CHR 0x22, CHR '':''] @ t @ w @ ''}'') \<le> f"
  then obtain g where g: "f = Suc g" by (cases f) auto
  have "length (kt @ t) < g" "num_end (w @ CHR ''}'' # r)" using f assms(4) by (auto simp: g num_end_ws)
  from reads_members_step [OF assms(1-3) this]
  show "json_members f d ((w0 @ [CHR 0x22] @ kt @ [CHR 0x22, CHR '':''] @ t @ w @ ''}'') @ r) = Some ([(k, v)], r)"
    using assms(4) by (simp add: g skip_ws_all skip_ws_head is_ws_def del: json_members.simps)
qed

lemma reads_members_cons:
  assumes "all_ws w0" "reads_key kt k" "reads d t v" "all_ws w" "reads_members d u kvs"
  shows "reads_members d (w0 @ [CHR 0x22] @ kt @ [CHR 0x22, CHR '':''] @ t @ w @ '','' @ u) ((k, v) # kvs)"
  unfolding reads_members_def
proof (intro allI impI)
  fix f r
  assume f: "length (w0 @ [CHR 0x22] @ kt @ [CHR 0x22, CHR '':''] @ t @ w @ '','' @ u) \<le> f"
  then obtain g where g: "f = Suc g" by (cases f) auto
  have "length (kt @ t) < g" "num_end (w @ CHR '','' # u @ r)" using f assms(4) by (auto simp: g num_end_ws)
  note step = reads_members_step [OF assms(1-3) this]
  have "json_members g d (u @ r) = Some (kvs, r)"
    using f assms(5) by (intro reads_membersD) (auto simp: g)
  with step show "json_members f d ((w0 @ [CHR 0x22] @ kt @ [CHR 0x22, CHR '':''] @ t @ w @ '','' @ u) @ r) =
      Some ((k, v) # kvs, r)"
    using assms(4) by (simp add: g skip_ws_all skip_ws_head is_ws_def del: json_members.simps)
qed

lemma reads_arr:
  assumes "reads_elems d t vs" "skip_ws t = c # u" "c \<noteq> CHR '']''"
  shows "reads (Suc d) (CHR ''['' # t) (JArr vs)"
  unfolding reads_def
proof (intro allI impI)
  fix f r
  assume f: "length (CHR ''['' # t) \<le> f"
  then obtain g where g: "f = Suc g" by (cases f) auto
  have "t = takeWhile is_ws t @ c # u" "\<not> is_ws c"
    using assms(2) unfolding skip_ws_def by (metis takeWhile_dropWhile_id)
      (metis assms(2) dropWhile_eq_Cons_conv skip_ws_def)
  then have "skip_ws (t @ r) = c # u @ r"
    by (metis append_assoc append_Cons dropWhile_append2 set_takeWhileD skip_ws_def skip_ws_head)
  moreover have "json_elems g d (t @ r) = Some (vs, r)"
    using f assms(1) by (intro reads_elemsD) (auto simp: g)
  ultimately show "json_value f (Suc d) ((CHR ''['' # t) @ r) = Some (JArr vs, r)"
    using assms(3) by (simp add: g skip_ws_head is_ws_def)
qed

lemma reads_obj:
  assumes "reads_members d (w @ CHR 0x22 # t) kvs" "all_ws w"
  shows "reads (Suc d) (CHR ''{'' # w @ CHR 0x22 # t) (JObj kvs)"
  unfolding reads_def
proof (intro allI impI)
  fix f r
  assume f: "length (CHR ''{'' # w @ CHR 0x22 # t) \<le> f"
  then obtain g where g: "f = Suc g" by (cases f) auto
  have "json_members g d ((w @ CHR 0x22 # t) @ r) = Some (kvs, r)"
    using f assms(1) by (intro reads_membersD) (auto simp: g)
  then show "json_value f (Suc d) ((CHR ''{'' # w @ CHR 0x22 # t) @ r) = Some (JObj kvs, r)"
    using assms(2) by (simp add: g skip_ws_head is_ws_def skip_ws_all)
qed

lemma reads_str: "reads_key t k \<Longrightarrow> reads d (CHR 0x22 # t @ [CHR 0x22]) (JStr k)"
  by (auto simp: reads_def reads_key_def skip_ws_head is_ws_def elim!: Suc_le_D [THEN exE])

lemma reads_num: "int_literal l \<Longrightarrow> reads d l (JNum l)"
  unfolding reads_def
proof (intro allI impI)
  fix f r
  assume a: "int_literal l" "length l \<le> f" "num_end r"
  then obtain g where "f = Suc g" by (cases f) (auto simp: int_literal_def)
  with a show "json_value f d (l @ r) = Some (JNum l, r)" by (simp add: json_value_literal del: json_value.simps)
qed

text \<open>Text without quotes, backslashes and control characters is its own literal.\<close>

definition plain_text :: "string \<Rightarrow> bool" where
  "plain_text s \<longleftrightarrow>
     list_all (\<lambda>c. 32 \<le> (of_char c :: nat) \<and> (of_char c :: nat) < 128 \<and> c \<noteq> CHR 0x22 \<and> c \<noteq> CHR 0x5C) s"

lemma reads_key_plain: "plain_text k \<Longrightarrow> reads_key k k"
  unfolding reads_key_def
proof (induction k)
  case (Cons c k)
  then have c: "32 \<le> (of_char c :: nat)" "(of_char c :: nat) < 128" "c \<noteq> CHR 0x22" "c \<noteq> CHR 0x5C"
    by (simp_all add: plain_text_def)
  have "plain_text k" using Cons by (simp add: plain_text_def)
  then show ?case
    using Cons c by (auto simp: json_chars_plain encode_rune_ascii simp del: json_chars.simps)
qed simp

end
