(* ===== verification/Sha256.thy ===== *)
theory Sha256
  imports Go_Fmt
begin

unbundle bit_operations_syntax

text \<open>
  \<open>crypto/sha256\<close> (FIPS 180-4), which the manifest, the WAL archive, resume and verify all use. The
  digest is a list of 32 bytes, Go's \<open>[32]byte\<close>.
\<close>

definition K256 :: "u32 list" where
  "K256 = [
    1116352408, 1899447441, 3049323471, 3921009573,
    961987163, 1508970993, 2453635748, 2870763221,
    3624381080, 310598401, 607225278, 1426881987,
    1925078388, 2162078206, 2614888103, 3248222580,
    3835390401, 4022224774, 264347078, 604807628,
    770255983, 1249150122, 1555081692, 1996064986,
    2554220882, 2821834349, 2952996808, 3210313671,
    3336571891, 3584528711, 113926993, 338241895,
    666307205, 773529912, 1294757372, 1396182291,
    1695183700, 1986661051, 2177026350, 2456956037,
    2730485921, 2820302411, 3259730800, 3345764771,
    3516065817, 3600352804, 4094571909, 275423344,
    430227734, 506948616, 659060556, 883997877,
    958139571, 1322822218, 1537002063, 1747873779,
    1955562222, 2024104815, 2227730452, 2361852424,
    2428436474, 2756734187, 3204031479, 3329325298]"

definition H256 :: "u32 list" where
  "H256 = [
    1779033703, 3144134277, 1013904242, 2773480762,
    1359893119, 2600822924, 528734635, 1541459225]"

definition rotr32 :: "nat \<Rightarrow> u32 \<Rightarrow> u32" where
  "rotr32 n x = drop_bit n x OR push_bit (32 - n) x"

definition small_sigma0 :: "u32 \<Rightarrow> u32" where
  "small_sigma0 x = rotr32 7 x XOR rotr32 18 x XOR drop_bit 3 x"

definition small_sigma1 :: "u32 \<Rightarrow> u32" where
  "small_sigma1 x = rotr32 17 x XOR rotr32 19 x XOR drop_bit 10 x"

definition big_sigma0 :: "u32 \<Rightarrow> u32" where
  "big_sigma0 x = rotr32 2 x XOR rotr32 13 x XOR rotr32 22 x"

definition big_sigma1 :: "u32 \<Rightarrow> u32" where
  "big_sigma1 x = rotr32 6 x XOR rotr32 11 x XOR rotr32 25 x"

definition sha_ch :: "u32 \<Rightarrow> u32 \<Rightarrow> u32 \<Rightarrow> u32" where
  "sha_ch x y z = (x AND y) XOR (NOT x AND z)"

definition sha_maj :: "u32 \<Rightarrow> u32 \<Rightarrow> u32 \<Rightarrow> u32" where
  "sha_maj x y z = (x AND y) XOR (x AND z) XOR (y AND z)"

text \<open>The message schedule, newest word first.\<close>

fun sha_schedule :: "nat \<Rightarrow> u32 list \<Rightarrow> u32 list" where
  "sha_schedule 0 ws = ws"
| "sha_schedule (Suc n) ws =
     sha_schedule n ((small_sigma1 (ws ! 1) + ws ! 6 + small_sigma0 (ws ! 14) + ws ! 15) # ws)"

type_synonym sha_state = "u32 \<times> u32 \<times> u32 \<times> u32 \<times> u32 \<times> u32 \<times> u32 \<times> u32"

fun sha_round :: "sha_state \<Rightarrow> u32 \<times> u32 \<Rightarrow> sha_state" where
  "sha_round (a, b, c, d, e, f, g, h) (k, w) =
     (let t1 = h + big_sigma1 e + sha_ch e f g + k + w;
          t2 = big_sigma0 a + sha_maj a b c
      in (t1 + t2, a, b, c, d + t1, e, f, g))"

definition sha_block :: "u32 list \<Rightarrow> bytes \<Rightarrow> u32 list" where
  "sha_block hs blk =
     (let w16 = map (\<lambda>i. BigEndian_Uint32 (take 4 (drop (4 * i) blk))) [0..<16];
          ws = rev (sha_schedule 48 (rev w16))
      in case foldl sha_round (hs ! 0, hs ! 1, hs ! 2, hs ! 3, hs ! 4, hs ! 5, hs ! 6, hs ! 7) (zip K256 ws) of
           (a, b, c, d, e, f, g, h) \<Rightarrow>
             [hs ! 0 + a, hs ! 1 + b, hs ! 2 + c, hs ! 3 + d, hs ! 4 + e, hs ! 5 + f, hs ! 6 + g, hs ! 7 + h])"

fun sha_blocks :: "nat \<Rightarrow> u32 list \<Rightarrow> bytes \<Rightarrow> u32 list" where
  "sha_blocks 0 hs bs = hs"
| "sha_blocks (Suc n) hs bs = sha_blocks n (sha_block hs (take 64 bs)) (drop 64 bs)"

definition sha_pad :: "bytes \<Rightarrow> bytes" where
  "sha_pad m =
     m @ char_of (128 :: nat) # replicate ((119 - length m mod 64) mod 64) (char_of (0 :: nat))
       @ be_bytes 8 ((8 * length m) mod 2 ^ 64)"

definition sha256 :: "bytes \<Rightarrow> bytes" where
  "sha256 m = (let p = sha_pad m in concat (map BigEndian_PutUint32 (sha_blocks (length p div 64) H256 p)))"

lemma length_sha_block [simp]: "length (sha_block hs b) = 8"
  by (simp add: sha_block_def Let_def split: prod.splits)

lemma length_sha_blocks: "length hs = 8 \<Longrightarrow> length (sha_blocks n hs bs) = 8"
  by (induction n arbitrary: hs bs) auto

lemma length_sha256 [simp]: "length (sha256 m) = 32"
proof -
  have "length (sha_blocks n H256 p) = 8" for n p
    by (rule length_sha_blocks) (simp add: H256_def)
  then show ?thesis
    by (simp add: sha256_def Let_def length_concat comp_def sum_list_triv)
qed

text \<open>The padding fills whole blocks.\<close>

lemma sha_pad_fill:
  fixes n :: nat
  shows "(n + ((119 - n mod 64) mod 64 + 9)) mod 64 = 0"
proof -
  have r: "n mod 64 < 64" by simp
  have "(119 - n mod 64) mod 64 = (if n mod 64 \<le> 55 then 55 - n mod 64 else 119 - n mod 64)"
    using r by (auto simp: le_mod_geq)
  then have "n mod 64 + ((119 - n mod 64) mod 64 + 9) = (if n mod 64 \<le> 55 then 64 else 128)"
    using r by (auto split: if_splits)
  then have "(n mod 64 + ((119 - n mod 64) mod 64 + 9)) mod 64 = 0"
    by (simp split: if_splits)
  then show ?thesis by (metis mod_add_left_eq)
qed

lemma sha_pad_blocks: "length (sha_pad m) mod 64 = 0"
  using sha_pad_fill [of "length m"] by (simp add: sha_pad_def ac_simps)

end
