(* ===== verification/Manifest.thy ===== *)
theory Manifest
  imports Go_Json Sha256 Go_Time
begin

text \<open>
  The package \<open>internal/manifest\<close> without its JSON files: log sequence numbers
  (\<open>manifest.go\<close>, \<open>LSN\<close>), the builder of PostgreSQL's \<open>backup_manifest\<close> (\<open>Builder\<close> and its
  operations, with the self-checksum of \<open>Finalize\<close>), and the incremental file format
  (\<open>incremental.go\<close>).
\<close>


section \<open>Log sequence numbers\<close>

type_synonym LSN = u64

definition LSN_String :: "LSN \<Rightarrow> string" where
  "LSN_String l =
     (let hi = ucast (drop_bit 32 l) :: u32;
          lo = ucast (and l 0xFFFFFFFF) :: u32
      in fmt_X (unat hi) @ ''/'' @ fmt_X (unat lo))"

definition ParseLSN :: "string \<Rightarrow> LSN res" where
  "ParseLSN s =
     (let parts = strings_SplitN2 (CHR ''/'') s;
          bad = Inl (errors_New (''manifest: invalid LSN '' @ s))
      in if length parts \<noteq> 2 \<or> parts ! 0 = [] \<or> parts ! 1 = [] then bad
         else if strings_Contains (parts ! 1) ''/'' then bad
         else (case sscanf_x 64 (parts ! 0) of
                 None \<Rightarrow> bad
               | Some hi \<Rightarrow>
                   (case sscanf_x 64 (parts ! 1) of
                      None \<Rightarrow> bad
                    | Some lo \<Rightarrow>
                        if 0xFFFFFFFF < hi \<or> 0xFFFFFFFF < lo
                        then Inl (errors_New (''manifest: LSN component out of range in '' @ s))
                        else Inr (or (push_bit 32 (of_nat hi)) (of_nat lo)))))"

lemma unat_high: "unat (drop_bit 32 (l :: u64)) = unat l div 2 ^ 32"
  unfolding unat_drop_bit_eq by (rule drop_bit_eq_div)

lemma unat_low: "unat (take_bit 32 (l :: u64)) = unat l mod 2 ^ 32"
  unfolding unsigned_take_bit_eq by (rule take_bit_eq_mod)

lemma LSN_halves:
  "unat (ucast (drop_bit 32 (l :: u64)) :: u32) = unat l div 2 ^ 32"
  "unat (ucast (and (l :: u64) 0xFFFFFFFF) :: u32) = unat l mod 2 ^ 32"
proof -
  have hi: "unat l div 2 ^ 32 < 2 ^ 32"
    using unat_lt2p_u64 [of l] by (simp add: less_mult_imp_div_less)
  show "unat (ucast (drop_bit 32 l) :: u32) = unat l div 2 ^ 32"
    unfolding unsigned_ucast_eq unat_high using hi by (simp only: take_bit_nat_eq_self_iff len_num1 len_bit0) simp
  have "(0xFFFFFFFF :: u64) = mask 32" by (simp add: mask_eq_exp_minus_1)
  then have m: "and l 0xFFFFFFFF = take_bit 32 l" by (simp only: take_bit_eq_mask)
  show "unat (ucast (and l 0xFFFFFFFF) :: u32) = unat l mod 2 ^ 32"
    unfolding unsigned_ucast_eq m unat_low by (simp add: take_bit_eq_mod)
qed

lemma bits_ident': "or (push_bit n (drop_bit n w)) (take_bit n w) = (w :: u64)"
  by (rule bit_eqI) (auto simp: bit_or_iff bit_push_bit_iff bit_drop_bit_eq bit_take_bit_iff possible_bit_def)

lemma LSN_join: "or (push_bit 32 (of_nat (unat l div 2 ^ 32))) (of_nat (unat l mod 2 ^ 32)) = (l :: u64)"
proof -
  have hi: "of_nat (unat l div 2 ^ 32) = drop_bit 32 l"
    unfolding unat_high [symmetric] by simp
  have lo: "of_nat (unat l mod 2 ^ 32) = take_bit 32 l"
    unfolding unat_low [symmetric] by simp
  show ?thesis unfolding hi lo by (rule bits_ident' [of 32 l])
qed

lemma fmt_X_no_slash: "CHR ''/'' \<notin> set (fmt_X n)"
proof
  assume "CHR ''/'' \<in> set (fmt_X n)"
  then obtain d where "d \<in> set (digits_of 16 n)" "CHR ''/'' = hexU d" by (auto simp: fmt_X_def)
  then show False using digits_of_bound [of 16 d n] hexU_not_slash [of d] by simp
qed

lemma fmt_X_nonempty [simp]: "fmt_X n \<noteq> []"
  by (simp add: fmt_X_def)

lemma LSN_SplitN2:
  "strings_SplitN2 (CHR ''/'') (fmt_X a @ ''/'' @ fmt_X b) = [fmt_X a, fmt_X b]"
  using strings_Cut_append [OF fmt_X_no_slash, of a "fmt_X b"] by (simp add: strings_SplitN2_def)

lemma not_contains_char: "c \<notin> set s \<Longrightarrow> \<not> strings_Contains s [c]"
  by (auto simp: sublist_def)

lemma ParseLSN_text:
  assumes "hi < 2 ^ 32" "lo < 2 ^ 32"
  shows "ParseLSN (fmt_X hi @ ''/'' @ fmt_X lo) = Inr (or (push_bit 32 (of_nat hi)) (of_nat lo))"
proof -
  have "hi < 2 ^ 64" "lo < 2 ^ 64" using assms by simp_all
  then have sc: "sscanf_x 64 (fmt_X hi) = Some hi" "sscanf_x 64 (fmt_X lo) = Some lo"
    by (simp_all only: sscanf_x_fmt_X order.refl)
  have c: "\<not> 0xFFFFFFFF < hi" "\<not> 0xFFFFFFFF < lo" using assms by simp_all
  show ?thesis
    unfolding ParseLSN_def LSN_SplitN2 Let_def
    using not_contains_char [OF fmt_X_no_slash] c by (simp add: sc)
qed

lemma LSN_String_halves: "LSN_String l = fmt_X (unat l div 2 ^ 32) @ ''/'' @ fmt_X (unat l mod 2 ^ 32)"
  unfolding LSN_String_def Let_def LSN_halves ..


section \<open>The manifest builder\<close>

record BackupStartInfo =
  si_SystemIdentifier :: u64
  si_Timeline :: u32
  si_StartLSN :: LSN
  si_StartTime :: gotime

record BackupStopInfo =
  st_StopLSN :: LSN
  st_StopTime :: gotime

record fileRec =
  fr_path :: string
  fr_size :: int
  fr_sha256 :: bytes
  fr_modTime :: gotime
  fr_incremental :: bool
  fr_blockCount :: u32
  fr_repoSize :: int
  fr_repoSHA256 :: bytes

record Builder =
  bu_start :: BackupStartInfo
  bu_files :: "fileRec list"

definition zero32 :: bytes where
  "zero32 = replicate 32 (CHR 0x00)"

definition NewBuilder :: "BackupStartInfo \<Rightarrow> Builder" where
  "NewBuilder start = \<lparr>bu_start = start, bu_files = []\<rparr>"

definition UpdateStartLSN :: "LSN \<Rightarrow> u32 \<Rightarrow> Builder \<Rightarrow> Builder" where
  "UpdateStartLSN lsn timeline b =
     b\<lparr>bu_start := (bu_start b)\<lparr>si_StartLSN := lsn, si_Timeline := timeline\<rparr>\<rparr>"

definition AddFile :: "string \<Rightarrow> int \<Rightarrow> bytes \<Rightarrow> gotime \<Rightarrow> Builder \<Rightarrow> Builder" where
  "AddFile path sz sha256Sum modTime b =
     b\<lparr>bu_files := bu_files b @
        [\<lparr>fr_path = path, fr_size = sz, fr_sha256 = sha256Sum, fr_modTime = modTime,
          fr_incremental = False, fr_blockCount = 0, fr_repoSize = 0, fr_repoSHA256 = zero32\<rparr>]\<rparr>"

definition AddIncrementalFile ::
    "string \<Rightarrow> int \<Rightarrow> bytes \<Rightarrow> u32 list \<Rightarrow> gotime \<Rightarrow> Builder \<Rightarrow> Builder" where
  "AddIncrementalFile path sz sha256Sum blocks modTime b =
     b\<lparr>bu_files := bu_files b @
        [\<lparr>fr_path = path, fr_size = sz, fr_sha256 = sha256Sum, fr_modTime = modTime,
          fr_incremental = True, fr_blockCount = of_nat (length blocks),
          fr_repoSize = 0, fr_repoSHA256 = zero32\<rparr>]\<rparr>"

definition SetLatestRepoChecksum :: "int \<Rightarrow> bytes \<Rightarrow> Builder \<Rightarrow> Builder" where
  "SetLatestRepoChecksum repoSize repoSHA b =
     (let fs = bu_files b
      in if length fs = 0 then b
         else b\<lparr>bu_files := fs[length fs - 1 :=
                  (fs ! (length fs - 1))\<lparr>fr_repoSize := repoSize, fr_repoSHA256 := repoSHA\<rparr>]\<rparr>)"

text \<open>The string literal of \<open>jsonString\<close>: control characters as \<open>\u00xx\<close>, everything else as it is.\<close>

definition jsonString_rune :: "rune \<Rightarrow> string" where
  "jsonString_rune r =
     (if r = 0x22 then [CHR 0x5C, CHR 0x22]
      else if r = 0x5C then [CHR 0x5C, CHR 0x5C]
      else if r = 0x0A then [CHR 0x5C, CHR ''n'']
      else if r = 0x0D then [CHR 0x5C, CHR ''r'']
      else if r = 0x09 then [CHR 0x5C, CHR ''t'']
      else if r < 0x20 then u_literal r
      else encode_rune r)"

definition jsonString :: "string \<Rightarrow> string" where
  "jsonString s = [CHR 0x22] @ concat (map jsonString_rune (utf8_runes s)) @ [CHR 0x22]"

definition quoted :: "string \<Rightarrow> string" where
  "quoted s = CHR 0x22 # s @ [CHR 0x22]"

definition ManifestVersion :: nat where
  "ManifestVersion = 2"

text \<open>One entry of \<open>Files\<close>, all of them with their separators, and the text before the checksum.\<close>

definition manifest_entry :: "fileRec \<Rightarrow> string" where
  "manifest_entry f =
     ''{ '' @ quoted ''Path'' @ '': '' @ jsonString (fr_path f)
     @ '', '' @ quoted ''Size'' @ '': '' @ fmt_int (fr_size f)
     @ '', '' @ quoted ''Last-Modified'' @ '': '' @ quoted (format_gmt (fr_modTime f))
     @ '', '' @ quoted ''Checksum-Algorithm'' @ '': '' @ quoted ''SHA256''
     @ '', '' @ quoted ''Checksum'' @ '': '' @ quoted (hex_EncodeToString (fr_sha256 f))
     @ (if fr_incremental f then '', '' @ quoted ''Incremental'' @ '': true'' else [])
     @ '' }''"

fun manifest_files :: "bool \<Rightarrow> fileRec list \<Rightarrow> string" where
  "manifest_files first [] = []"
| "manifest_files first (f # fs) =
     (if first then [] else '','') @ [CHR 0x0A] @ manifest_entry f @ manifest_files False fs"

definition manifest_body :: "Builder \<Rightarrow> BackupStopInfo \<Rightarrow> bytes" where
  "manifest_body b stop =
     ''{ '' @ quoted ''PostgreSQL-Backup-Manifest-Version'' @ '': '' @ fmt_d ManifestVersion @ '','' @ [CHR 0x0A]
     @ quoted ''System-Identifier'' @ '': '' @ fmt_d (unat (si_SystemIdentifier (bu_start b))) @ '','' @ [CHR 0x0A]
     @ quoted ''Files'' @ '': [''
     @ manifest_files True (bu_files b)
     @ (if 0 < length (bu_files b) then [CHR 0x0A] else [])
     @ ''],'' @ [CHR 0x0A]
     @ quoted ''WAL-Ranges'' @ '': ['' @ [CHR 0x0A]
     @ ''{ '' @ quoted ''Timeline'' @ '': '' @ fmt_d (unat (si_Timeline (bu_start b)))
     @ '', '' @ quoted ''Start-LSN'' @ '': '' @ quoted (LSN_String (si_StartLSN (bu_start b)))
     @ '', '' @ quoted ''End-LSN'' @ '': '' @ quoted (LSN_String (st_StopLSN stop)) @ '' }''
     @ [CHR 0x0A] @ ''],'' @ [CHR 0x0A]"

definition Finalize :: "BackupStopInfo \<Rightarrow> Builder \<Rightarrow> bytes" where
  "Finalize stop b =
     (let buf = manifest_body b stop;
          sum = sha256 buf
      in buf @ quoted ''Manifest-Checksum'' @ '': '' @ quoted (hex_EncodeToString sum) @ ''}'' @ [CHR 0x0A])"


section \<open>The incremental file format\<close>

definition IncrementalMagic :: u32 where
  "IncrementalMagic = 0x494E4352"

definition PGPageSize :: nat where
  "PGPageSize = 8192"

text \<open>An \<open>io.Writer\<close> is its \<open>Write\<close>; a write error of any of the three parts stops the encoder.\<close>

definition write_part :: "(bytes \<Rightarrow> ('w, unit) op) \<Rightarrow> string \<Rightarrow> bytes \<Rightarrow> ('w, unit) op" where
  "write_part wr what bs w =
     (case wr bs w of
        (Inl e, w') \<Rightarrow> (Inl (wrapErr what e), w')
      | (Inr _, w') \<Rightarrow> (Inr (), w'))"

definition EncodeIncremental ::
    "(bytes \<Rightarrow> ('w, unit) op) \<Rightarrow> u32 \<Rightarrow> u32 list \<Rightarrow> bytes \<Rightarrow> ('w, unit) op" where
  "EncodeIncremental wr truncationBlockLength blockNumbers blockData w =
     (if 0xFFFFFFFF < length blockNumbers then
        (Inl (errors_New ''manifest: too many incremental blocks''), w)
      else if length blockData \<noteq> length blockNumbers * PGPageSize then
        (Inl (errors_New ''manifest: blockData length''), w)
      else
        (let header = LittleEndian_PutUint32 IncrementalMagic
                      @ LittleEndian_PutUint32 (of_nat (length blockNumbers))
                      @ LittleEndian_PutUint32 truncationBlockLength;
             blockNumBytes = concat (map LittleEndian_PutUint32 blockNumbers)
         in case write_part wr ''manifest: write incremental header: '' header w of
              (Inl e, w1) \<Rightarrow> (Inl e, w1)
            | (Inr _, w1) \<Rightarrow>
                (case write_part wr ''manifest: write incremental block numbers: '' blockNumBytes w1 of
                   (Inl e, w2) \<Rightarrow> (Inl e, w2)
                 | (Inr _, w2) \<Rightarrow> write_part wr ''manifest: write incremental block data: '' blockData w2)))"

record IncrementalHeader =
  ih_NumBlocks :: u32
  ih_TruncationBlockLength :: u32

definition DecodeIncrementalHeader :: "bytes \<Rightarrow> (IncrementalHeader \<times> bytes) res" where
  "DecodeIncrementalHeader r =
     (case io_ReadFull 12 r of
        Inl e \<Rightarrow> Inl (wrapErr ''manifest: read incremental header: '' e)
      | Inr (hdr, r') \<Rightarrow>
          (let magic = LittleEndian_Uint32 (take 4 hdr)
           in if magic \<noteq> IncrementalMagic then Inl (errors_New ''manifest: bad incremental magic'')
              else Inr (\<lparr>ih_NumBlocks = LittleEndian_Uint32 (take 4 (drop 4 hdr)),
                         ih_TruncationBlockLength = LittleEndian_Uint32 (take 4 (drop 8 hdr))\<rparr>, r')))"

definition DecodeIncrementalBlockNumbers :: "bytes \<Rightarrow> u32 \<Rightarrow> (u32 list \<times> bytes) res" where
  "DecodeIncrementalBlockNumbers r num =
     (if num = 0 then Inr ([], r)
      else (case io_ReadFull (4 * unat num) r of
              Inl e \<Rightarrow> Inl (wrapErr ''manifest: read block numbers: '' e)
            | Inr (raw, r') \<Rightarrow>
                Inr (map (\<lambda>i. LittleEndian_Uint32 (take 4 (drop (4 * i) raw))) [0..<unat num], r')))"

text \<open>A \<open>bytes.Buffer\<close>, whose \<open>Write\<close> never fails.\<close>

definition Buffer_Write :: "bytes \<Rightarrow> (bytes, unit) op" where
  "Buffer_Write bs buf = (Inr (), buf @ bs)"

lemma EncodeIncremental_Buffer:
  assumes "length ns \<le> 0xFFFFFFFF" "length blks = length ns * PGPageSize"
  shows "EncodeIncremental Buffer_Write tbl ns blks buf =
         (Inr (), buf @ LittleEndian_PutUint32 IncrementalMagic @ LittleEndian_PutUint32 (of_nat (length ns))
                  @ LittleEndian_PutUint32 tbl @ concat (map LittleEndian_PutUint32 ns) @ blks)"
  using assms by (simp add: EncodeIncremental_def Buffer_Write_def write_part_def Let_def)

lemma DecodeIncrementalHeader_parts:
  "DecodeIncrementalHeader (LittleEndian_PutUint32 IncrementalMagic @ LittleEndian_PutUint32 n
     @ LittleEndian_PutUint32 t @ rest) = Inr (\<lparr>ih_NumBlocks = n, ih_TruncationBlockLength = t\<rparr>, rest)"
proof -
  let ?h = "LittleEndian_PutUint32 IncrementalMagic @ LittleEndian_PutUint32 n @ LittleEndian_PutUint32 t"
  have "io_ReadFull 12 (?h @ rest) = Inr (?h, rest)" by (rule io_ReadFull_append) simp
  then show ?thesis unfolding DecodeIncrementalHeader_def by (simp add: Let_def)
qed

lemma length_concat_u32: "length (concat (map LittleEndian_PutUint32 ns)) = 4 * length ns"
  by (induction ns) simp_all

lemma nth_concat_u32:
  "i < length ns \<Longrightarrow>
   LittleEndian_Uint32 (take 4 (drop (4 * i) (concat (map LittleEndian_PutUint32 ns) @ z))) = ns ! i"
proof (induction ns arbitrary: i)
  case (Cons n ns)
  then show ?case by (cases i) simp_all
qed simp

lemma DecodeIncrementalBlockNumbers_concat:
  assumes "length ns < 2 ^ 32"
  shows "DecodeIncrementalBlockNumbers (concat (map LittleEndian_PutUint32 ns) @ rest) (of_nat (length ns)) =
         Inr (ns, rest)"
proof -
  have u: "unat (of_nat (length ns) :: u32) = length ns" using assms by (simp add: unat_of_nat)
  have z: "(of_nat (length ns) :: u32) = 0 \<longleftrightarrow> ns = []"
    unfolding unat_eq_0 [symmetric] u by (rule length_0_conv)
  have rd: "io_ReadFull (4 * length ns) (concat (map LittleEndian_PutUint32 ns) @ rest) =
      Inr (concat (map LittleEndian_PutUint32 ns), rest)"
    by (rule io_ReadFull_append) (simp add: length_concat_u32)
  have m: "map (\<lambda>i. LittleEndian_Uint32 (take 4 (drop (4 * i) (concat (map LittleEndian_PutUint32 ns))))) [0..<length ns] = ns"
    using nth_concat_u32 [of _ ns "[]"] by (intro nth_equalityI) simp_all
  show ?thesis
    unfolding DecodeIncrementalBlockNumbers_def u rd z by (auto simp: m)
qed



section \<open>The manifest text read back as JSON\<close>

definition manifest_file_json :: "fileRec \<Rightarrow> json" where
  "manifest_file_json f =
     JObj ([(''Path'', JStr (fr_path f)),
            (''Size'', json_int (fr_size f)),
            (''Last-Modified'', JStr (format_gmt (fr_modTime f))),
            (''Checksum-Algorithm'', JStr ''SHA256''),
            (''Checksum'', JStr (hex_EncodeToString (fr_sha256 f)))]
           @ (if fr_incremental f then [(''Incremental'', JBool True)] else []))"

definition manifest_json :: "BackupStopInfo \<Rightarrow> Builder \<Rightarrow> json" where
  "manifest_json stop b =
     JObj [(''PostgreSQL-Backup-Manifest-Version'', JNum (fmt_d ManifestVersion)),
           (''System-Identifier'', JNum (fmt_d (unat (si_SystemIdentifier (bu_start b))))),
           (''Files'', JArr (map manifest_file_json (bu_files b))),
           (''WAL-Ranges'',
             JArr [JObj [(''Timeline'', JNum (fmt_d (unat (si_Timeline (bu_start b))))),
                         (''Start-LSN'', JStr (LSN_String (si_StartLSN (bu_start b)))),
                         (''End-LSN'', JStr (LSN_String (st_StopLSN stop)))]]),
           (''Manifest-Checksum'', JStr (hex_EncodeToString (sha256 (manifest_body b stop))))]"

lemma json_chars_jsonString_rune:
  assumes "s \<noteq> []" "decode_rune s \<noteq> utf8_bad"
  shows "json_chars (jsonString_rune (fst (decode_rune s)) @ rest) =
         push_front (encode_rune (fst (decode_rune s))) (json_chars rest)"
proof -
  let ?r = "fst (decode_rune s)"
  have simple: "?thesis" if "?r \<in> {0x22, 0x5C, 0x0A, 0x0D, 0x09}"
    using that
    by (elim insertE emptyE)
       (simp_all add: jsonString_rune_def json_chars_simple simple_escape_def encode_rune_ascii char_of_def
          bit_Suc_0_iff)
  have u: "?thesis" if "jsonString_rune ?r = u_literal ?r" "?r < 0x20"
    unfolding that(1)
    by (rule json_chars_u) (use that(2) in \<open>auto simp: is_surrogate_def in_range_def\<close>)
  have raw: "?thesis" if "jsonString_rune ?r = encode_rune ?r" "0x20 \<le> ?r" "?r \<noteq> 0x22" "?r \<noteq> 0x5C"
    unfolding that(1) by (rule json_chars_raw [OF assms that(2-4)])
  show ?thesis
    using simple u raw unfolding jsonString_rune_def by (auto split: if_splits)
qed

lemma reads_key_jsonString:
  "valid_utf8 s \<Longrightarrow> reads_key (concat (map jsonString_rune (utf8_runes s))) s"
  unfolding reads_key_def
proof (induction s rule: utf8_runes.induct)
  case (1 s)
  show ?case
  proof (cases "s = []")
    case True
    then show ?thesis by (simp add: utf8_runes.simps)
  next
    case False
    have v: "valid_utf8 (drop (snd (decode_rune s)) s)" "decode_rune s \<noteq> utf8_bad"
      using 1(2) False valid_utf8.simps [of s] by (simp_all split: if_splits)
    show ?thesis
      using 1(1) [OF False v(1)] encode_decode_rune [OF False v(2)] False v(2)
      by (subst utf8_runes.simps) (simp add: json_chars_jsonString_rune)
  qed
qed

lemma reads_jsonString: "valid_utf8 s \<Longrightarrow> reads d (jsonString s) (JStr s)"
  unfolding jsonString_def using reads_str [OF reads_key_jsonString, of s] by simp

lemma reads_quoted: "plain_text s \<Longrightarrow> reads d (quoted s) (JStr s)"
  unfolding quoted_def by (rule reads_str [OF reads_key_plain])

lemma plain_text_append [simp]: "plain_text (a @ b) \<longleftrightarrow> plain_text a \<and> plain_text b"
  by (simp add: plain_text_def)

lemma plain_text_Cons [simp]:
  "plain_text (c # s) \<longleftrightarrow>
     32 \<le> (of_char c :: nat) \<and> (of_char c :: nat) < 128 \<and> c \<noteq> CHR 0x22 \<and> c \<noteq> CHR 0x5C \<and> plain_text s"
  "plain_text []"
  by (auto simp: plain_text_def)

lemma plain_text_hexU: "\<forall>d \<in> set ds. d < 16 \<Longrightarrow> plain_text (map hexU ds)"
proof -
  have "32 \<le> (of_char (hexU d) :: nat) \<and> (of_char (hexU d) :: nat) < 128 \<and> hexU d \<noteq> CHR 0x22 \<and> hexU d \<noteq> CHR 0x5C"
    if "d < 16" for d
    using less16_cases [OF that] by (elim disjE) (simp_all add: hexU_def)
  then show "\<forall>d \<in> set ds. d < 16 \<Longrightarrow> plain_text (map hexU ds)" by (auto simp: plain_text_def list_all_iff)
qed

lemma plain_text_hex_EncodeToString [simp]: "plain_text (hex_EncodeToString bs)"
proof -
  have p: "32 \<le> (of_char (hexL d) :: nat) \<and> (of_char (hexL d) :: nat) < 128 \<and> hexL d \<noteq> CHR 0x22 \<and> hexL d \<noteq> CHR 0x5C"
    if "d < 16" for d
    using less16_cases [OF that] by (elim disjE) (simp_all add: hexL_def)
  show ?thesis
    unfolding plain_text_def list_all_iff by (auto dest!: set_hex_EncodeToString dest: p)
qed

lemma plain_text_fmt_X [simp]: "plain_text (fmt_X n)" "plain_text (fmt_d n)"
proof -
  have "\<forall>d \<in> set (digits_of 16 n). d < 16" using digits_of_bound [of 16 _ n] by simp
  then show "plain_text (fmt_X n)" unfolding fmt_X_def by (rule plain_text_hexU)
  have "\<forall>d \<in> set (digits_of 10 n). d < 16" using digits_of_bound [of 10 _ n] by fastforce
  then show "plain_text (fmt_d n)" unfolding fmt_d_def by (rule plain_text_hexU)
qed

lemma plain_text_LSN [simp]: "plain_text (LSN_String l)"
  by (simp add: LSN_String_def Let_def)

lemma plain_text_zeros [simp]: "plain_text (replicate n (CHR ''0''))"
  by (induction n) simp_all

lemma plain_text_appendInt [simp]: "plain_text (appendInt w x)"
  by (simp add: appendInt_def pad_d_def Let_def)

lemma plain_text_format_gmt [simp]: "plain_text (format_gmt t)"
  by (simp add: format_gmt_def split: prod.splits)

lemma reads_mem_cons:
  assumes "all_ws w0" "plain_text k" "reads d t v" "reads_members d u kvs"
  shows "reads_members d (w0 @ quoted k @ '': '' @ t @ '','' @ u) ((k, v) # kvs)"
  using reads_members_cons [OF assms(1) reads_key_plain [OF assms(2)] reads_ws [of "'' ''"] _ assms(4),
      OF _ assms(3), of "[]"]
  by (simp add: quoted_def)

lemma reads_mem_last:
  assumes "all_ws w0" "plain_text k" "reads d t v" "all_ws w"
  shows "reads_members d (w0 @ quoted k @ '': '' @ t @ w @ ''}'') [(k, v)]"
  using reads_members_last [OF assms(1) reads_key_plain [OF assms(2)] reads_ws [of "'' ''"] assms(4),
      OF _ assms(3)]
  by (simp add: quoted_def)

lemma reads_quoted_obj:
  assumes "reads_members d (w @ quoted k @ u) kvs" "all_ws w"
  shows "reads (Suc d) (''{'' @ w @ quoted k @ u) (JObj kvs)"
  using reads_obj [of d w "k @ [CHR 0x22] @ u" kvs] assms by (simp add: quoted_def)

lemma reads_true: "reads d ''true'' (JBool True)"
  by (auto simp: reads_def skip_ws_head is_ws_def elim!: Suc_le_D [THEN exE])

lemma reads_manifest_entry:
  assumes "valid_utf8 (fr_path f)"
  shows "reads (Suc d) (manifest_entry f) (manifest_file_json f)"
proof -
  have keys: "plain_text ''Path''" "plain_text ''Size''" "plain_text ''Last-Modified''"
      "plain_text ''Checksum-Algorithm''" "plain_text ''SHA256''" "plain_text ''Checksum''" "plain_text ''Incremental''"
    by (simp_all add: plain_text_def)
  have sz: "reads d (fmt_int (fr_size f)) (json_int (fr_size f))"
    unfolding json_int_def by (rule reads_num [OF int_literal_fmt_int])
  have last: "reads_members d ('' '' @ quoted ''Checksum'' @ '': '' @ quoted (hex_EncodeToString (fr_sha256 f))
        @ (if fr_incremental f then '', '' @ quoted ''Incremental'' @ '': true'' else []) @ '' }'')
      ((''Checksum'', JStr (hex_EncodeToString (fr_sha256 f)))
        # (if fr_incremental f then [(''Incremental'', JBool True)] else []))"
    using reads_mem_cons [OF _ keys(6) reads_quoted reads_mem_last [OF _ keys(7) reads_true, of "'' ''" "'' ''"],
        of "'' ''" "hex_EncodeToString (fr_sha256 f)"]
      reads_mem_last [OF _ keys(6) reads_quoted, of "'' ''" "hex_EncodeToString (fr_sha256 f)" "'' ''"]
    by simp
  note m = reads_mem_cons [OF _ keys(4) reads_quoted [OF keys(5)] last, of "'' ''"]
  note m = reads_mem_cons [OF _ keys(3) reads_quoted [OF plain_text_format_gmt] m, of "'' ''" "fr_modTime f"]
  note m = reads_mem_cons [OF _ keys(2) sz m, of "'' ''"]
  note m = reads_mem_cons [OF _ keys(1) reads_jsonString [OF assms] m, of "'' ''"]
  show ?thesis
    using reads_quoted_obj [OF m] unfolding manifest_entry_def manifest_file_json_def by simp
qed

lemma reads_manifest_files:
  "\<forall>g \<in> set (f # fs). valid_utf8 (fr_path g) \<Longrightarrow>
   reads_elems (Suc d) (manifest_files True (f # fs) @ [CHR 0x0A] @ '']'') (map manifest_file_json (f # fs))"
proof (induction fs arbitrary: f)
  case Nil
  have "reads (Suc d) ([CHR 0x0A] @ manifest_entry f) (manifest_file_json f)"
    using Nil by (intro reads_ws reads_manifest_entry) auto
  from reads_elems_last [OF this, of "[CHR 0x0A]"] show ?case by simp
next
  case (Cons g gs)
  have "reads (Suc d) ([CHR 0x0A] @ manifest_entry f) (manifest_file_json f)"
    using Cons.prems by (intro reads_ws reads_manifest_entry) auto
  from reads_elems_cons [OF this, of "[]", OF _ Cons.IH [of g]] Cons.prems show ?case by simp
qed

lemma reads_files_array:
  assumes "\<forall>g \<in> set fs. valid_utf8 (fr_path g)"
  shows "reads (Suc (Suc d)) (''['' @ manifest_files True fs @ (if 0 < length fs then [CHR 0x0A] else []) @ '']'')
           (JArr (map manifest_file_json fs))"
proof (cases fs)
  case Nil
  then show ?thesis by (auto simp: reads_def skip_ws_head is_ws_def elim!: Suc_le_D [THEN exE])
next
  case (Cons f gs)
  have sk: "\<exists>u. skip_ws (manifest_files True (f # gs) @ [CHR 0x0A] @ '']'') = CHR ''{'' # u"
    by (simp add: manifest_entry_def skip_ws_def is_ws_def)
  from sk obtain u where "skip_ws (manifest_files True (f # gs) @ [CHR 0x0A] @ '']'') = CHR ''{'' # u" ..
  from reads_arr [OF reads_manifest_files this] assms Cons show ?thesis by simp
qed

lemma reads_wal_range:
  "reads (Suc (Suc d)) (''['' @ [CHR 0x0A] @ ''{ '' @ quoted ''Timeline'' @ '': '' @ fmt_d n
      @ '', '' @ quoted ''Start-LSN'' @ '': '' @ quoted (LSN_String a)
      @ '', '' @ quoted ''End-LSN'' @ '': '' @ quoted (LSN_String b) @ '' }'' @ [CHR 0x0A] @ '']'')
    (JArr [JObj [(''Timeline'', JNum (fmt_d n)), (''Start-LSN'', JStr (LSN_String a)),
                 (''End-LSN'', JStr (LSN_String b))]])"
  (is "reads _ (''['' @ ?t) (JArr [?v])")
proof -
  have keys: "plain_text ''Timeline''" "plain_text ''Start-LSN''" "plain_text ''End-LSN''" by simp_all
  note m = reads_mem_last [OF _ keys(3) reads_quoted [OF plain_text_LSN], of "'' ''" "'' ''" d b]
  note m = reads_mem_cons [OF _ keys(2) reads_quoted [OF plain_text_LSN] m, of "'' ''" a]
  note m = reads_mem_cons [OF _ keys(1) reads_num [OF int_literal_fmt_d] m, of "'' ''" n]
  note e = reads_elems_last [OF reads_ws [OF _ reads_quoted_obj [OF m]], of "[CHR 0x0A]" "[CHR 0x0A]"]
  have sk: "skip_ws ?t = CHR ''{'' # drop 2 ?t" by (simp add: skip_ws_def is_ws_def)
  have e': "reads_elems (Suc d) ?t [?v]" using e by simp
  show ?thesis using reads_arr [OF e' sk] by simp
qed

lemma reads_Finalize:
  assumes "\<forall>f \<in> set (bu_files b). valid_utf8 (fr_path f)"
  shows "reads (Suc (Suc (Suc d))) (butlast (Finalize stop b)) (manifest_json stop b)"
proof -
  have keys: "plain_text ''PostgreSQL-Backup-Manifest-Version''" "plain_text ''System-Identifier''"
    "plain_text ''Files''" "plain_text ''WAL-Ranges''" "plain_text ''Manifest-Checksum''" by simp_all
  let ?sum = "hex_EncodeToString (sha256 (manifest_body b stop))"
  note m = reads_mem_last [OF _ keys(5) reads_quoted [OF plain_text_hex_EncodeToString],
      of "[CHR 0x0A]" "[]" "Suc (Suc d)" "sha256 (manifest_body b stop)"]
  note m = reads_mem_cons [OF _ keys(4) reads_wal_range m, of "[CHR 0x0A]" "unat (si_Timeline (bu_start b))"
      "si_StartLSN (bu_start b)" "st_StopLSN stop"]
  note m = reads_mem_cons [OF _ keys(3) reads_files_array [OF assms] m, of "[CHR 0x0A]"]
  note m = reads_mem_cons [OF _ keys(2) reads_num [OF int_literal_fmt_d] m, of "[CHR 0x0A]"
      "unat (si_SystemIdentifier (bu_start b))"]
  note m = reads_mem_cons [OF _ keys(1) reads_num [OF int_literal_fmt_d] m, of "'' ''" ManifestVersion]
  have fin: "butlast (Finalize stop b) =
      manifest_body b stop @ quoted ''Manifest-Checksum'' @ '': '' @ quoted ?sum @ ''}''"
    by (simp add: Finalize_def Let_def butlast_append)
  show ?thesis
    using reads_quoted_obj [OF m] unfolding fin manifest_json_def
    by (simp add: manifest_body_def [of b stop, THEN arg_cong, of "\<lambda>x. x @ _"])
qed


lemma ParseLSN_String: "ParseLSN (LSN_String l) = Inr l"
proof -
  have b: "unat l div 2 ^ 32 < 2 ^ 32" "unat l mod 2 ^ 32 < 2 ^ 32"
    using unat_lt2p_u64 [of l] by (simp_all add: less_mult_imp_div_less)
  show ?thesis unfolding LSN_String_halves ParseLSN_text [OF b] LSN_join ..
qed


section \<open>Properties\<close>

text \<open>every log sequence number is read back from its text: \<open>ParseLSN\<close> inverts \<open>LSN.String\<close>.\<close>

theorem ParseLSN_LSN_String: "ParseLSN (LSN_String l) = Inr l"
  by (rule ParseLSN_String)

lemma Finalize_value:
  assumes "\<forall>f \<in> set (bu_files b). valid_utf8 (fr_path f)"
  shows "json_value (Suc (length (Finalize stop b))) 10000 (Finalize stop b) = Some (manifest_json stop b, [CHR 0x0A])"
proof -
  have r: "reads 10000 (butlast (Finalize stop b)) (manifest_json stop b)"
    using reads_Finalize [OF assms, of 9997] by simp
  have f: "Finalize stop b = butlast (Finalize stop b) @ [CHR 0x0A]"
    by (simp add: Finalize_def Let_def butlast_append)
  have "num_end [CHR 0x0A]" by (simp add: num_end_def is_digit_def)
  then have "json_value (Suc (length (Finalize stop b))) 10000 (butlast (Finalize stop b) @ [CHR 0x0A]) =
      Some (manifest_json stop b, [CHR 0x0A])"
    by (intro readsD [OF r]) simp_all
  then show ?thesis unfolding f [symmetric] .
qed

lemma Finalize_Unmarshal:
  "\<forall>f \<in> set (bu_files b). valid_utf8 (fr_path f) \<Longrightarrow> json_Unmarshal (Finalize stop b) = Some (manifest_json stop b)"
  by (simp add: json_Unmarshal_def Finalize_value is_ws_def del: json_value.simps)

text \<open>C22: the manifest text that \<open>Finalize\<close> emits is one JSON document, and read back it lists exactly the
  files, sizes, times and digests the builder holds, the WAL range, and the SHA-256 of the text
  before the checksum.\<close>

theorem Finalize_parses:
  assumes "\<forall>f \<in> set (bu_files b). valid_utf8 (fr_path f)"
  shows "json_Decode (Finalize stop b) = Some (manifest_json stop b)"
  unfolding json_Decode_def Finalize_value [OF assms] by simp

definition example_builder :: Builder where
  "example_builder =
     SetLatestRepoChecksum 7 zero32
       (AddFile ''base/1/PG_VERSION'' 3 zero32 0
         (UpdateStartLSN 0x2000028 1
           (NewBuilder \<lparr>si_SystemIdentifier = 42, si_Timeline = 1, si_StartLSN = 0, si_StartTime = 0\<rparr>)))"

theorem Finalize_parses_witness:
  "json_Decode (Finalize \<lparr>st_StopLSN = 0x2000100, st_StopTime = 0\<rparr> example_builder) =
     Some (manifest_json \<lparr>st_StopLSN = 0x2000100, st_StopTime = 0\<rparr> example_builder)"
proof (rule Finalize_parses)
  have "ascii_string ''base/1/PG_VERSION''" by (simp add: ascii_string_def)
  then show "\<forall>f \<in> set (bu_files example_builder). valid_utf8 (fr_path f)"
    by (simp add: example_builder_def SetLatestRepoChecksum_def AddFile_def UpdateStartLSN_def NewBuilder_def
        Let_def valid_utf8_ascii)
qed



end
