(* ===== verification/Wal_Segments.thy ===== *)
theory Wal_Segments
  imports Manifest
begin

text \<open>
  \<open>internal/backup/wallag.go\<close> (segment names) and the label parser of \<open>internal/backup/parsers.go\<close>.

  \<open>segmentBytes\<close> is an \<open>int64\<close>, here an \<open>int\<close>; the arithmetic on it is done in \<open>uint64\<close>, here
  \<open>u64\<close>. A segment size above 4 GiB makes \<open>segmentsPerXLogID\<close> zero and the division by it panics:
  the functions return \<open>None\<close> then. \<open>WALSegmentsBetween\<close> counts in \<open>uint64\<close>, where \<open>n++\<close> wraps; its
  loop is a partial function, and that it ends is part of what is proved.
\<close>


section \<open>Segment names\<close>

definition segmentsPerXLogID :: "int \<Rightarrow> u64" where
  "segmentsPerXLogID segmentBytes = 0x100000000 div word_of_int segmentBytes"

definition segment_name :: "u32 \<Rightarrow> u64 \<Rightarrow> u64 \<Rightarrow> string" where
  "segment_name timeline segsPerID segNo =
     (let major = ucast (segNo div segsPerID) :: u32;
          minor = ucast (segNo mod segsPerID) :: u32
      in fmt_08X timeline @ fmt_08X major @ fmt_08X minor)"

definition WALSegmentName :: "u32 \<Rightarrow> LSN \<Rightarrow> int \<Rightarrow> string option" where
  "WALSegmentName timeline lsn segmentBytes =
     (if segmentBytes \<le> 0 then Some []
      else
        let segsPerID = segmentsPerXLogID segmentBytes;
            segNo = lsn div word_of_int segmentBytes
        in if segsPerID = 0 then None else Some (segment_name timeline segsPerID segNo))"

partial_function (option) segments_loop :: "u32 \<Rightarrow> u64 \<Rightarrow> u64 \<Rightarrow> u64 \<Rightarrow> string list \<Rightarrow> string list option" where
  "segments_loop timeline segsPerID lastNo n out =
     (if n \<le> lastNo then
        if segsPerID = 0 then None
        else segments_loop timeline segsPerID lastNo (n + 1) (out @ [segment_name timeline segsPerID n])
      else Some out)"

definition WALSegmentsBetween :: "u32 \<Rightarrow> LSN \<Rightarrow> LSN \<Rightarrow> int \<Rightarrow> string list option" where
  "WALSegmentsBetween timeline start stop segmentBytes =
     (if segmentBytes \<le> 0 \<or> stop < start then Some []
      else
        let segsPerID = segmentsPerXLogID segmentBytes;
            first = start div word_of_int segmentBytes;
            last0 = stop div word_of_int segmentBytes;
            lastNo = (if stop mod word_of_int segmentBytes = 0 \<and> start < stop \<and> 0 < last0 then last0 - 1 else last0)
        in segments_loop timeline segsPerID lastNo first [])"


section \<open>The backup label\<close>

text \<open>
  The two regular expressions are multi-line and start with \<open>^\<close>: the leftmost line start at which
  the rest matches. Blanks, digits and the literal parts have no byte in common, so the greedy
  repetitions have one way to match.
\<close>

definition re_space :: "char \<Rightarrow> bool" where
  "re_space c \<longleftrightarrow> c = CHR '' '' \<or> c = CHR 0x09 \<or> c = CHR 0x0A \<or> c = CHR 0x0C \<or> c = CHR 0x0D"

text \<open>\<open>lit\\s+\<close>: what follows it.\<close>

definition re_lit_space :: "string \<Rightarrow> string \<Rightarrow> string option" where
  "re_lit_space lit s =
     (if prefix lit s
      then let t = drop (length lit) s
           in if takeWhile re_space t = [] then None else Some (dropWhile re_space t)
      else None)"

definition re_lsn :: "string \<Rightarrow> string option" where
  "re_lsn t =
     (let a = takeWhile is_hex_digit t; u = dropWhile is_hex_digit t
      in case u of
           c # v \<Rightarrow>
             let b = takeWhile is_hex_digit v
             in if a \<noteq> [] \<and> c = CHR ''/'' \<and> b \<noteq> [] then Some (a @ c # b) else None
         | [] \<Rightarrow> None)"

definition re_digits :: "string \<Rightarrow> string option" where
  "re_digits t = (let a = takeWhile is_digit t in if a = [] then None else Some a)"

fun re_line :: "(string \<Rightarrow> string option) \<Rightarrow> string \<Rightarrow> bool \<Rightarrow> string option" where
  "re_line m [] bol = (if bol then m [] else None)"
| "re_line m (c # s) bol =
     (case if bol then m (c # s) else None of
        Some r \<Rightarrow> Some r
      | None \<Rightarrow> re_line m s (c = CHR 0x0A))"

definition match_lsn :: "string \<Rightarrow> string option" where
  "match_lsn s = Option.bind (re_lit_space ''START WAL LOCATION:'' s) re_lsn"

definition match_tli :: "string \<Rightarrow> string option" where
  "match_tli s = Option.bind (re_lit_space ''START TIMELINE:'' s) re_digits"

definition parseBackupLabel :: "string \<Rightarrow> (LSN \<times> u32) res" where
  "parseBackupLabel txt =
     (case re_line match_lsn txt True of
        None \<Rightarrow> Inl (errors_New ''parseBackupLabel: missing START WAL LOCATION'')
      | Some l \<Rightarrow>
          (case re_line match_tli txt True of
             None \<Rightarrow> Inl (errors_New ''parseBackupLabel: missing START TIMELINE'')
           | Some t \<Rightarrow>
               (case ParseLSN l of
                  Inl e \<Rightarrow> Inl (wrapErr ''parseBackupLabel'' e)
                | Inr lsn \<Rightarrow>
                    (case strconv_ParseUint 32 t of
                       None \<Rightarrow> Inl (errors_New (''parseBackupLabel: timeline: strconv.ParseUint: parsing '' @ t))
                     | Some tli \<Rightarrow> Inr (lsn, of_nat tli)))))"


section \<open>Arithmetic of segment numbers\<close>

text \<open>The segment sizes PostgreSQL allows are powers of two; all that matters is that they divide 4 GiB.\<close>

definition segment_size_ok :: "int \<Rightarrow> bool" where
  "segment_size_ok b \<longleftrightarrow> 1 < b \<and> b dvd 0x100000000"

lemma segment_size_words:
  assumes "segment_size_ok b"
  shows "unat (word_of_int b :: u64) = nat b" "unat (segmentsPerXLogID b) = 2 ^ 32 div nat b"
    "0 < nat b" "nat b dvd 2 ^ 32" "segmentsPerXLogID b \<noteq> 0"
proof -
  have b: "1 < b" "b dvd 2 ^ 32" using assms by (auto simp: segment_size_ok_def)
  then have le: "b \<le> 2 ^ 32" by (auto intro: zdvd_imp_le)
  show u: "unat (word_of_int b :: u64) = nat b"
    using b le by (simp add: unat_eq_nat_uint uint_word_of_int)
  show "0 < nat b" using b by simp
  show d: "nat b dvd 2 ^ 32"
    using b by (metis nat_numeral nat_power_eq zero_le_numeral nat_dvd_iff dvd_nat_abs_iff abs_of_pos zero_less_one less_trans int_dvd_int_iff of_nat_numeral of_nat_power nat_0_le less_imp_le)
  show p: "unat (segmentsPerXLogID b) = 2 ^ 32 div nat b"
    by (simp add: segmentsPerXLogID_def unat_div_distrib u)
  have "2 ^ 32 div nat b \<noteq> 0" using le b by (simp add: div_eq_0_iff nat_le_iff not_less)
  with p show "segmentsPerXLogID b \<noteq> 0" by (metis unat_0)
qed

lemma segments_loop_list:
  assumes "unat lastNo < 2 ^ 64 - 1" "per \<noteq> 0"
  shows "segments_loop tli per lastNo n out =
    Some (out @ map (\<lambda>k. segment_name tli per (of_nat k)) [unat n..<Suc (unat lastNo)])"
proof (induction "Suc (unat lastNo) - unat n" arbitrary: n out)
  case 0
  then show ?case by (subst segments_loop.simps) (auto simp: word_le_nat_alt)
next
  case (Suc x)
  then have le: "unat n \<le> unat lastNo" by simp
  then have nx: "unat (n + 1) = Suc (unat n)" using assms(1) unat_lt2p_u64 [of n]
    by (simp add: unat_word_ariths)
  have ih: "segments_loop tli per lastNo (n + 1) (out @ [segment_name tli per n]) =
      Some ((out @ [segment_name tli per n]) @
            map (\<lambda>k. segment_name tli per (of_nat k)) [unat (n + 1)..<Suc (unat lastNo)])"
    using Suc(1) [of "n + 1"] Suc(2) nx by simp
  have "[unat n..<Suc (unat lastNo)] = unat n # [Suc (unat n)..<Suc (unat lastNo)]"
    using le by (simp add: upt_conv_Cons del: upt_Suc)
  then show ?case
    using ih le assms(2) nx by (subst segments_loop.simps) (simp add: word_le_nat_alt del: upt_Suc)
qed

lemma segment_count:
  assumes "segment_size_ok b" "n * nat b < 2 ^ 64"
  shows "n div (2 ^ 32 div nat b) < 2 ^ 32" "n mod (2 ^ 32 div nat b) < 2 ^ 32" "n < 2 ^ 64"
    "(2 ^ 32 div nat b) * nat b = 2 ^ 32" "0 < (2::nat) ^ 32 div nat b"
proof -
  define per where "per = (2::nat) ^ 32 div nat b"
  note w = segment_size_words [OF assms(1)]
  have per: "0 < per" "per * nat b = 2 ^ 32"
    using w(4,5) unat_gt_0 [of "segmentsPerXLogID b"] unfolding w(2) by (auto simp: per_def)
  have "n * nat b < 2 ^ 32 * per * nat b" using assms(2) per by (simp add: mult.assoc)
  then have n: "n < 2 ^ 32 * per" by simp
  have le: "per \<le> 2 ^ 32" by (simp add: per_def)
  then have "2 ^ 32 * per \<le> (2 ^ 64 :: nat)" using mult_le_mono2 [OF le, of "2 ^ 32"] by simp
  with n show "n < 2 ^ 64" by simp
  show "n div (2 ^ 32 div nat b) < 2 ^ 32"
    using n per unfolding per_def [symmetric] by (simp add: less_mult_imp_div_less mult.commute)
  show "n mod (2 ^ 32 div nat b) < 2 ^ 32"
    using per(1) le unfolding per_def [symmetric] by (meson mod_less_divisor order.strict_trans2)
  show "(2 ^ 32 div nat b) * nat b = 2 ^ 32" "0 < (2::nat) ^ 32 div nat b"
    using per by (simp_all add: per_def)
qed

lemma unat_of_nat_small:
  "n < 2 ^ 64 \<Longrightarrow> unat (of_nat n :: u64) = n" "n < 2 ^ 32 \<Longrightarrow> unat (of_nat n :: u32) = n"
  by (simp_all add: unsigned_of_nat take_bit_nat_eq_self)

lemma ucast_u32: "unat (w :: u64) = n \<Longrightarrow> n < 2 ^ 32 \<Longrightarrow> (ucast w :: u32) = of_nat n"
  by (simp add: word_unat_eq_iff unsigned_ucast_eq unsigned_of_nat)

lemma segment_name_parts:
  assumes "segment_size_ok b" "n * nat b < 2 ^ 64"
  shows "segment_name tli (segmentsPerXLogID b) (of_nat n) =
    fmt_08X tli @ fmt_08X (of_nat (n div (2 ^ 32 div nat b))) @ fmt_08X (of_nat (n mod (2 ^ 32 div nat b)))"
proof -
  note c = segment_count [OF assms] and w = segment_size_words [OF assms(1)]
  have "unat ((of_nat n :: u64) div segmentsPerXLogID b) = n div (2 ^ 32 div nat b)"
    "unat ((of_nat n :: u64) mod segmentsPerXLogID b) = n mod (2 ^ 32 div nat b)"
    by (simp_all only: unat_div_distrib unat_mod_distrib w(2) unat_of_nat_small(1) [OF c(3)])
  from ucast_u32 [OF this(1) c(1)] ucast_u32 [OF this(2) c(2)] show ?thesis
    by (simp only: segment_name_def Let_def)
qed

lemma segment_name_less:
  assumes "segment_size_ok b" "m < n" "n * nat b < 2 ^ 64"
  shows "segment_name tli (segmentsPerXLogID b) (of_nat m) < segment_name tli (segmentsPerXLogID b) (of_nat n)"
proof -
  define per where "per = (2::nat) ^ 32 div nat b"
  have m: "m * nat b < 2 ^ 64" using assms(2,3) by (meson less_imp_le mult_le_mono1 order.strict_trans1)
  have less: "m div per < n div per \<or> m div per = n div per \<and> m mod per < n mod per"
    using assms(2) by (metis div_le_mono div_mult_mod_eq less_imp_le nat_add_left_cancel_less order_le_less)
  have w: "(of_nat x :: u32) < of_nat y \<longleftrightarrow> x < y" "(of_nat x :: u32) = of_nat y \<longleftrightarrow> x = y"
    if "x < 2 ^ 32" "y < 2 ^ 32" for x y
    using that by (simp_all add: word_less_nat_alt word_unat_eq_iff unat_of_nat_small)
  show ?thesis
    using less segment_count(1,2) [OF assms(1,3)] segment_count(1,2) [OF assms(1) m]
    unfolding segment_name_parts [OF assms(1,3)] segment_name_parts [OF assms(1) m] per_def [symmetric]
    by (auto simp: list_less_append fmt_08X_less w)
qed


section \<open>What the two functions return\<close>

lemma WALSegmentName_ok:
  assumes "segment_size_ok b"
  shows "WALSegmentName tli l b =
     Some (segment_name tli (segmentsPerXLogID b) (of_nat (unat l div nat b)))"
proof -
  have lt: "unat l div nat b < 2 ^ 64" using unat_lt2p_u64 [of l] by (meson div_le_dividend order.strict_trans1)
  have "l div word_of_int b = of_nat (unat l div nat b)"
    by (simp only: word_unat_eq_iff unat_div_distrib segment_size_words(1) [OF assms] unat_of_nat_small(1) [OF lt])
  then show ?thesis
    using assms segment_size_words(5) [OF assms] by (simp add: WALSegmentName_def Let_def segment_size_ok_def)
qed

text \<open>The last segment with data of the range: the one of the byte before \<open>stop\<close>.\<close>

definition last_segment :: "nat \<Rightarrow> nat \<Rightarrow> nat \<Rightarrow> nat" where
  "last_segment start stop b = (if start < stop then (stop - 1) div b else stop div b)"

lemma div_pred: "0 < (b::nat) \<Longrightarrow> 0 < n \<Longrightarrow> (n - 1) div b = (if n mod b = 0 then n div b - 1 else n div b)"
  by (cases n) (auto simp: div_Suc)

lemma WALSegmentsBetween_list:
  assumes b: "segment_size_ok b" and le: "start \<le> stop"
  shows "WALSegmentsBetween tli start stop b =
    Some (map (\<lambda>k. segment_name tli (segmentsPerXLogID b) (of_nat k))
            [unat start div nat b..<Suc (last_segment (unat start) (unat stop) (nat b))])"
proof -
  note w = segment_size_words [OF b]
  have b2: "2 \<le> nat b" using b unfolding segment_size_ok_def by linarith
  define l0 where "l0 = stop div word_of_int b"
  define l where "l = (if stop mod word_of_int b = 0 \<and> start < stop \<and> 0 < l0 then l0 - 1 else l0)"
  have l0: "unat l0 = unat stop div nat b" by (simp add: l0_def unat_div_distrib w(1))
  have small: "unat l0 < 2 ^ 64 - 1"
    using l0 unat_lt2p_u64 [of stop] div_le_mono2 [of 2 "nat b" "unat stop"] b2 by simp
  have pos: "0 < l0" if "unat stop mod nat b = 0" "start < stop"
    using that l0 w(3) unat_gt_0 [of l0] by (auto simp: word_less_nat_alt dvd_def)
  have l: "unat l = last_segment (unat start) (unat stop) (nat b)"
  proof (cases "start < stop \<and> unat stop mod nat b = 0")
    case True
    then have "l = l0 - 1" using pos by (auto simp: l_def word_unat_eq_iff unat_mod_distrib w(1))
    then have "unat l = unat l0 - 1" using pos True unat_minus_one [of l0] by (simp add: word_gt_0)
    then show ?thesis using True l0 div_pred [OF w(3), of "unat stop"] by (simp add: last_segment_def word_less_nat_alt)
  next
    case False
    then have "unat l = unat l0" by (auto simp: l_def word_unat_eq_iff unat_mod_distrib w(1))
    then show ?thesis using False l0 div_pred [OF w(3), of "unat stop"] by (auto simp: last_segment_def word_less_nat_alt)
  qed
  have "unat l \<le> unat l0" using unat_minus_one [of l0] by (auto simp: l_def)
  then have "unat l < 2 ^ 64 - 1" using small by simp
  from segments_loop_list [OF this w(5)] have
    "segments_loop tli (segmentsPerXLogID b) l (start div word_of_int b) [] =
      Some (map (\<lambda>k. segment_name tli (segmentsPerXLogID b) (of_nat k)) [unat start div nat b..<Suc (unat l)])"
    by (simp add: unat_div_distrib w(1) del: upt_Suc)
  moreover have "WALSegmentsBetween tli start stop b = segments_loop tli (segmentsPerXLogID b) l (start div word_of_int b) []"
    using b le unfolding WALSegmentsBetween_def Let_def l_def l0_def by (auto simp: segment_size_ok_def)
  ultimately show ?thesis using l by simp
qed

lemma sorted_map_upt:
  fixes f :: "nat \<Rightarrow> 'a :: linorder"
  assumes "\<And>m n. m < n \<Longrightarrow> n < hi \<Longrightarrow> f m < f n"
  shows "sorted_wrt (<) (map f [lo..<hi])"
  using assms by (auto simp: sorted_wrt_map intro: sorted_wrt_mono_rel [of _ "(<)"] sorted_wrt_upt)

text \<open>The segment numbers of the bytes in \<open>[start, stop)\<close>, plus the one of \<open>start\<close> itself.\<close>

lemma segment_numbers:
  fixes b start stop :: nat
  assumes "0 < b" "start \<le> stop"
  shows "{start div b..last_segment start stop b} = (\<lambda>l. l div b) ` {l. start \<le> l \<and> (l < stop \<or> l = start)}"
proof (cases "start < stop")
  case True
  have "n \<in> (\<lambda>l. l div b) ` {l. start \<le> l \<and> l < stop}"
    if n: "start div b \<le> n" "n \<le> (stop - 1) div b" for n
  proof (cases "n = start div b")
    case False
    with n have "Suc (start div b) \<le> n" by simp
    then have "start < n * b" using assms(1) by (metis Suc_le_eq div_less_iff_less_mult)
    moreover have "n * b \<le> stop - 1" using n(2) assms(1) by (simp add: less_eq_div_iff_mult_less_eq)
    ultimately show ?thesis using True assms(1) by (auto intro!: image_eqI [of _ _ "n * b"])
  qed (use True in auto)
  then have "{start div b..(stop - 1) div b} \<subseteq> (\<lambda>l. l div b) ` {l. start \<le> l \<and> l < stop}" by (meson atLeastAtMost_iff subsetI)
  moreover have "(\<lambda>l. l div b) ` {l. start \<le> l \<and> l < stop} \<subseteq> {start div b..(stop - 1) div b}"
    by (auto intro!: div_le_mono)
  moreover have "{l. start \<le> l \<and> (l < stop \<or> l = start)} = {l. start \<le> l \<and> l < stop}" using True by auto
  ultimately show ?thesis using True by (simp add: last_segment_def)
next
  case False
  with assms show ?thesis by (auto simp: last_segment_def)
qed

lemma unat_range:
  "unat ` {l :: u64. start \<le> l \<and> (l < stop \<or> l = start)} =
     {l. unat start \<le> l \<and> (l < unat stop \<or> l = unat start)}"
proof (intro equalityI subsetI)
  fix l assume l: "l \<in> {l. unat start \<le> l \<and> (l < unat stop \<or> l = unat start)}"
  then have "l < 2 ^ 64" using unat_lt2p_u64 [of stop] unat_lt2p_u64 [of start] by auto
  with l show "l \<in> unat ` {l :: u64. start \<le> l \<and> (l < stop \<or> l = start)}"
    by (intro image_eqI [of _ _ "of_nat l"])
       (simp_all add: unat_of_nat_small word_le_nat_alt word_less_nat_alt word_unat_eq_iff)
qed (auto simp: word_le_nat_alt word_less_nat_alt)

text \<open>C25: For every segment size PostgreSQL allows, \<open>WALSegmentName\<close> is PostgreSQL's file name: the
  timeline, the high half of the LSN and the segment index in the low half, eight hexadecimal digits
  each.\<close>

theorem WALSegmentName_is_walfile_name:
  assumes "segment_size_ok b"
  shows "WALSegmentName tli l b =
     Some (fmt_08X tli @ fmt_08X (ucast (drop_bit 32 l)) @ fmt_08X (ucast (take_bit 32 l div word_of_int b)))"
proof -
  define L where "L = unat l"
  define per where "per = (2::nat) ^ 32 div nat b"
  have L: "L < 2 ^ 64" using unat_lt2p_u64 by (simp add: L_def)
  have n: "L div nat b * nat b < 2 ^ 64" using L by (meson div_times_less_eq_dividend order.strict_trans1)
  note c = segment_count(4) [OF assms n, folded per_def] and w = segment_size_words [OF assms]
  have hi: "L div nat b div per = L div 2 ^ 32" using c by (simp add: div_mult2_eq [symmetric] mult.commute)
  have lo: "L div nat b mod per = L mod 2 ^ 32 div nat b"
    using mod_mult2_eq [of L "nat b" per] c w(3) by (simp add: mult.commute [of per])
  have "(ucast (drop_bit 32 l) :: u32) = of_nat (L div 2 ^ 32)"
    using segment_count(1) [OF assms n, folded per_def] hi by (intro ucast_u32) (simp_all add: unat_high L_def)
  moreover have "(ucast (take_bit 32 l div word_of_int b) :: u32) = of_nat (L mod 2 ^ 32 div nat b)"
    using segment_count(2) [OF assms n, folded per_def] lo
    by (intro ucast_u32) (simp_all add: unat_div_distrib unat_low w(1) L_def)
  ultimately show ?thesis
    using WALSegmentName_ok [OF assms, of tli l] segment_name_parts [OF assms n, of tli]
    unfolding L_def [symmetric] per_def [symmetric] hi lo by simp
qed

theorem WALSegmentName_is_walfile_name_witness:
  "WALSegmentName 1 0x205000028 0x1000000 = Some ''000000010000000200000005''"
proof -
  have "segment_size_ok 0x1000000" by (simp add: segment_size_ok_def)
  moreover have "fmt_08X 1 @ fmt_08X (ucast (drop_bit 32 (0x205000028 :: u64))) @
      fmt_08X (ucast (take_bit 32 (0x205000028 :: u64) div word_of_int 0x1000000)) = ''000000010000000200000005''"
    by code_simp
  ultimately show ?thesis
    using WALSegmentName_is_walfile_name [of "0x1000000" 1 "0x205000028"] by (simp only:)
qed

text \<open>C14: \<open>WALSegmentsBetween\<close> returns, for every segment size PostgreSQL allows and \<open>start <= stop\<close>: its
  loop ends without a panic, the names are strictly increasing (so none is repeated), and they are
  the names of exactly the segments that hold a byte of the range from \<open>start\<close> up to, not including,
  \<open>stop\<close>, together with the segment of \<open>start\<close> when the range is empty.\<close>

theorem WALSegmentsBetween_covers:
  assumes "segment_size_ok b" "start \<le> stop"
  shows "\<exists>names. WALSegmentsBetween tli start stop b = Some names \<and> sorted_wrt (<) names \<and>
    Some ` set names = (\<lambda>l. WALSegmentName tli l b) ` {l. start \<le> l \<and> (l < stop \<or> l = start)}"
proof -
  define f where "f k = segment_name tli (segmentsPerXLogID b) (of_nat k)" for k
  define hi where "hi = last_segment (unat start) (unat stop) (nat b)"
  have b: "0 < nat b" using segment_size_words(3) [OF assms(1)] .
  have le: "unat start \<le> unat stop" using assms(2) by (simp add: word_le_nat_alt)
  have "hi * nat b \<le> unat stop"
    using b by (auto simp: hi_def last_segment_def less_eq_div_iff_mult_less_eq [symmetric] intro: div_le_mono)
  then have bound: "hi * nat b < 2 ^ 64" using unat_lt2p_u64 [of stop] by simp
  have inc: "f m < f n" if "m < n" "n < Suc hi" for m n
  proof -
    have "n * nat b \<le> hi * nat b" using that(2) mult_le_mono1 by simp
    then have "n * nat b < 2 ^ 64" using bound by (rule order.strict_trans1)
    then show ?thesis unfolding f_def by (rule segment_name_less [OF assms(1) that(1)])
  qed
  have "(\<lambda>l. WALSegmentName tli l b) ` {l. start \<le> l \<and> (l < stop \<or> l = start)} =
      (\<lambda>n. Some (f n)) ` (\<lambda>l. l div nat b) ` unat ` {l. start \<le> l \<and> (l < stop \<or> l = start)}"
    by (simp add: image_image WALSegmentName_ok [OF assms(1)] f_def)
  note img = this [unfolded unat_range]
  have "(\<lambda>l. WALSegmentName tli l b) ` {l. start \<le> l \<and> (l < stop \<or> l = start)} =
      Some ` set (map f [unat start div nat b..<Suc hi])"
    unfolding img segment_numbers [OF b le, symmetric] hi_def by (simp add: image_image atLeastLessThanSuc_atLeastAtMost del: upt_Suc)
  moreover have "WALSegmentsBetween tli start stop b = Some (map f [unat start div nat b..<Suc hi])"
    unfolding f_def hi_def by (rule WALSegmentsBetween_list [OF assms])
  ultimately show ?thesis using sorted_map_upt [of "Suc hi" f, OF inc] by auto
qed

theorem WALSegmentsBetween_covers_witness:
  "\<exists>names. WALSegmentsBetween 1 0x5000028 0x7000000 0x1000000 = Some names \<and> sorted_wrt (<) names \<and>
    Some ` set names = (\<lambda>l. WALSegmentName 1 l 0x1000000) ` {l. 0x5000028 \<le> l \<and> (l < 0x7000000 \<or> l = 0x5000028)}"
  by (rule WALSegmentsBetween_covers) (simp_all add: segment_size_ok_def)


section \<open>Reading the label back\<close>

lemma re_line_skip:
  "CHR 0x0A \<notin> set a \<Longrightarrow> re_line m (a @ CHR 0x0A # s) False = re_line m s True"
  by (induction a) auto

lemma re_line_first: "m s = Some r \<Longrightarrow> re_line m s True = Some r"
  by (cases s) auto

lemma re_line_next:
  assumes "m (a @ CHR 0x0A # s) = None" "CHR 0x0A \<notin> set a"
  shows "re_line m (a @ CHR 0x0A # s) True = re_line m s True"
  using assms re_line_skip [of "tl a" m s] by (cases a) auto

text \<open>A line of the label that is not the one looked for.\<close>

definition other_line :: "string \<Rightarrow> string \<Rightarrow> bool" where
  "other_line lit a \<longleftrightarrow> CHR 0x0A \<notin> set a \<and> \<not> prefix lit a"

lemma other_line_None:
  assumes "other_line lit a" "CHR 0x0A \<notin> set lit"
  shows "re_lit_space lit (a @ CHR 0x0A # s) = None"
proof -
  have "\<not> prefix lit (a @ CHR 0x0A # s)"
  proof
    assume "prefix lit (a @ CHR 0x0A # s)"
    then consider "prefix lit a" | us where "lit = a @ us" "prefix us (CHR 0x0A # s)" by (auto simp: prefix_append)
    then show False using assms by (cases) (auto simp: other_line_def prefix_Cons)
  qed
  then show ?thesis by (simp add: re_lit_space_def)
qed

lemma re_line_lines:
  assumes "list_all (other_line lit) ls" "CHR 0x0A \<notin> set lit" "m = (\<lambda>s. Option.bind (re_lit_space lit s) g)"
  shows "re_line m (concat (map (\<lambda>a. a @ [CHR 0x0A]) ls) @ s) True = re_line m s True"
  using assms(1)
proof (induction ls)
  case (Cons a ls)
  then have "re_lit_space lit (a @ CHR 0x0A # concat (map (\<lambda>a. a @ [CHR 0x0A]) ls) @ s) = None"
    using other_line_None assms(2) by simp
  then have "re_line m (a @ CHR 0x0A # concat (map (\<lambda>a. a @ [CHR 0x0A]) ls) @ s) True =
      re_line m (concat (map (\<lambda>a. a @ [CHR 0x0A]) ls) @ s) True"
    using Cons.prems assms(3) by (intro re_line_next) (auto simp: other_line_def)
  then show ?case using Cons by simp
qed simp

lemma takeWhile_app: "list_all P a \<Longrightarrow> \<not> P c \<Longrightarrow> takeWhile P (a @ c # s) = a"
  and dropWhile_app: "list_all P a \<Longrightarrow> \<not> P c \<Longrightarrow> dropWhile P (a @ c # s) = c # s"
  by (induction a) auto

lemma fmt_X_hex: "list_all is_hex_digit (fmt_X n)"
  using digits_of_bound [of 16 _ n] by (auto simp: fmt_X_def list_all_iff)

lemma re_lsn_String: "\<not> is_hex_digit c \<Longrightarrow> re_lsn (LSN_String l @ c # s) = Some (LSN_String l)"
proof -
  have slash: "\<not> is_hex_digit (CHR ''/'')" by (simp add: is_hex_digit_def hexval_def)
  assume "\<not> is_hex_digit c"
  then show ?thesis
    by (simp add: re_lsn_def LSN_String_halves takeWhile_app dropWhile_app fmt_X_hex slash)
qed

lemma match_lsn_label:
  "\<not> is_hex_digit c \<Longrightarrow> match_lsn (''START WAL LOCATION: '' @ LSN_String l @ c # s) = Some (LSN_String l)"
proof -
  assume c: "\<not> is_hex_digit c"
  obtain d ds where d: "fmt_X (unat l div 2 ^ 32) = d # ds" by (cases "fmt_X (unat l div 2 ^ 32)") auto
  then have "\<not> re_space d" using fmt_X_hex [of "unat l div 2 ^ 32"] by (auto simp: re_space_def is_hex_digit_def hexval_def)
  then have "dropWhile re_space (CHR '' '' # LSN_String l @ c # s) = LSN_String l @ c # s"
    using d by (simp add: LSN_String_halves re_space_def)
  then show ?thesis using re_lsn_String [OF c, of l s]
    by (simp add: match_lsn_def re_lit_space_def re_space_def)
qed

lemma match_tli_label: "match_tli (''START TIMELINE: '' @ fmt_d n @ CHR 0x0A # s) = Some (fmt_d n)"
proof -
  obtain d ds where d: "fmt_d n = d # ds" by (cases "fmt_d n") (auto simp: fmt_d_def)
  then have nd: "\<not> re_space d" using fmt_d_digits [of n] by (auto simp: re_space_def is_digit_def)
  have "takeWhile is_digit (fmt_d n @ CHR 0x0A # s) = fmt_d n"
    by (rule takeWhile_app [OF fmt_d_digits]) (simp add: is_digit_def)
  then show ?thesis using d nd
    by (simp add: match_tli_def re_lit_space_def re_space_def re_digits_def)
qed

text \<open>C26: \<open>parseBackupLabel\<close> reads the start LSN and the timeline out of a label in PostgreSQL's format: a
  first line with the location (and anything after it), any lines but a \<open>START TIMELINE\<close> one, the
  timeline line, and anything after it.\<close>

theorem parseBackupLabel_label:
  assumes "CHR 0x0A \<notin> set tail" "list_all (other_line ''START TIMELINE:'') ls"
  shows "parseBackupLabel (''START WAL LOCATION: '' @ LSN_String l @ '' '' @ tail @ [CHR 0x0A] @
      concat (map (\<lambda>a. a @ [CHR 0x0A]) ls) @ ''START TIMELINE: '' @ fmt_d (unat t) @ [CHR 0x0A] @ rest) = Inr (l, t)"
proof -
  define last_part where "last_part = ''START TIMELINE: '' @ fmt_d (unat t) @ CHR 0x0A # rest"
  define head where "head = ''START WAL LOCATION: '' @ LSN_String l @ CHR '' '' # tail"
  define body where "body = head @ CHR 0x0A # concat (map (\<lambda>a. a @ [CHR 0x0A]) ls) @ last_part"
  have sp: "\<not> is_hex_digit (CHR '' '')" by (simp add: is_hex_digit_def hexval_def)
  have lsn: "re_line match_lsn body True = Some (LSN_String l)"
    using match_lsn_label [OF sp, of l] by (intro re_line_first) (simp add: body_def head_def)
  have no_newline: "CHR 0x0A \<notin> set (fmt_X n)" for n
    using fmt_X_hex [of n] by (auto simp: list_all_iff is_hex_digit_def hexval_def)
  have "other_line ''START TIMELINE:'' head"
    using assms(1) no_newline by (simp add: other_line_def head_def LSN_String_halves)
  then have "re_line match_tli body True = re_line match_tli last_part True"
    using re_line_lines [of "''START TIMELINE:''" "head # ls" match_tli re_digits last_part] assms(2)
    by (simp add: body_def match_tli_def fun_eq_iff)
  also have "\<dots> = Some (fmt_d (unat t))"
    unfolding last_part_def by (rule re_line_first, rule match_tli_label)
  finally have "parseBackupLabel body = Inr (l, t)"
    using lsn ParseLSN_String unat_lt2p_u32 [of t] by (simp add: parseBackupLabel_def)
  then show ?thesis by (simp add: body_def head_def last_part_def)
qed

theorem parseBackupLabel_label_witness:
  "parseBackupLabel (''START WAL LOCATION: '' @ LSN_String 0x205000028 @ '' '' @ ''(file 000000010000000200000005)'' @ [CHR 0x0A] @
      concat (map (\<lambda>a. a @ [CHR 0x0A]) [''BACKUP METHOD: streamed'', ''LABEL: pgsafe'']) @
      ''START TIMELINE: '' @ fmt_d (unat (1 :: u32)) @ [CHR 0x0A] @ []) = Inr (0x205000028, 1)"
  by (rule parseBackupLabel_label) (simp_all add: other_line_def)

end
