(* ===== verification/Local_Files.thy ===== *)
theory Local_Files
  imports Posix_Fs
begin

text \<open>
  The files a command reads and writes on its own host (WAL segments PostgreSQL hands over, restored
  files, local copies): the calls of package \<open>os\<close> as a record, what their callers rely on as the
  locale \<open>local_files\<close>, and its interpretation on the file system of \<open>Posix_Fs\<close>.
\<close>

record ('s, 'f) OS =
  o_Open :: "string \<Rightarrow> ('s, reader) op"
  o_MkdirAll :: "string \<Rightarrow> ('s, unit) op"
  o_Create :: "string \<Rightarrow> ('s, 'f) op"
  o_Write :: "'f \<Rightarrow> bytes \<Rightarrow> ('s, unit) op"
  o_Close :: "'f \<Rightarrow> ('s, unit) op"

text \<open>
  \<open>content s p\<close> is what the file \<open>p\<close> holds; \<open>lpath\<close> the paths callers use; \<open>ready s p\<close> says that
  the directory of \<open>p\<close> is there; \<open>handle s f p d\<close> that \<open>f\<close> is open for writing on \<open>p\<close>, which holds \<open>d\<close>.
\<close>

locale local_files =
  fixes os :: "('s, 'f) OS"
    and content :: "'s \<Rightarrow> string \<Rightarrow> bytes option"
    and lpath :: "string \<Rightarrow> bool"
    and linv :: "'s \<Rightarrow> bool"
    and ready :: "'s \<Rightarrow> string \<Rightarrow> bool"
    and handle :: "'s \<Rightarrow> 'f \<Rightarrow> string \<Rightarrow> bytes \<Rightarrow> bool"
  assumes open_keeps: "linv s \<Longrightarrow> o_Open os p s = (rr, s') \<Longrightarrow> linv s' \<and> content s' = content s"
    and open_data: "linv s \<Longrightarrow> o_Open os p s = (Inr (d, None), s') \<Longrightarrow> content s p = Some d"
    and mkdir_keeps: "linv s \<Longrightarrow> lpath p \<Longrightarrow> o_MkdirAll os (path_Dir p) s = (ru, s') \<Longrightarrow> linv s' \<and> content s' = content s"
    and mkdir_ready: "linv s \<Longrightarrow> lpath p \<Longrightarrow> o_MkdirAll os (path_Dir p) s = (Inr u, s') \<Longrightarrow> ready s' p"
    and create_ok: "linv s \<Longrightarrow> lpath p \<Longrightarrow> ready s p \<Longrightarrow> o_Create os p s = (Inr f, s') \<Longrightarrow>
        linv s' \<and> content s' = (content s)(p \<mapsto> []) \<and> handle s' f p []"
    and create_err: "linv s \<Longrightarrow> lpath p \<Longrightarrow> o_Create os p s = (Inl e, s') \<Longrightarrow> linv s' \<and> content s' = content s"
    and fwrite_ok: "linv s \<Longrightarrow> handle s f p d \<Longrightarrow> o_Write os f x s = (Inr u, s') \<Longrightarrow>
        linv s' \<and> content s' = (content s)(p \<mapsto> d @ x) \<and> handle s' f p (d @ x)"
    and fwrite_err: "linv s \<Longrightarrow> handle s f p d \<Longrightarrow> o_Write os f x s = (Inl e, s') \<Longrightarrow>
        \<exists>n. linv s' \<and> content s' = (content s)(p \<mapsto> d @ take n x) \<and> handle s' f p (d @ take n x)"
    and fclose_keeps: "linv s \<Longrightarrow> handle s f p d \<Longrightarrow> o_Close os f s = (ru, s') \<Longrightarrow> linv s' \<and> content s' = content s"

sublocale local_files \<subseteq> fsink: byte_sink "o_Write os"
  "\<lambda>s f (p, c) d. linv s \<and> handle s f p d \<and> content s = c(p \<mapsto> d)"
proof (unfold_locales, goal_cases)
  case (1 s h k d x u s')
  then show ?case using fwrite_ok [of s h "fst k" d x u s'] by (auto split: prod.splits)
next
  case (2 s h k d x e s')
  then show ?case using fwrite_err [of s h "fst k" d x e s'] by (auto split: prod.splits)
qed

text \<open>Make the directory, create the file, copy a reader into it and close it, the shape every local
  download has; \<open>m\<close> gives the message a failing step is wrapped with.\<close>

definition write_local :: "('s, 'f) OS \<Rightarrow> (string \<Rightarrow> string) \<Rightarrow> string \<Rightarrow> reader \<Rightarrow> ('s, unit) op" where
  "write_local os m p src s =
     (case o_MkdirAll os (path_Dir p) s of
        (Inl e, s1) \<Rightarrow> (Inl (wrapErr (m ''mkdir'') e), s1)
      | (Inr _, s1) \<Rightarrow>
          (case o_Create os p s1 of
             (Inl e, s2) \<Rightarrow> (Inl (wrapErr (m ''create'') e), s2)
           | (Inr f, s2) \<Rightarrow>
               (case io_Copy (o_Write os f) src s2 of
                  (Inl e, s3) \<Rightarrow> (Inl (wrapErr (m ''copy'') e), snd (o_Close os f s3))
                | (Inr _, s3) \<Rightarrow>
                    (case o_Close os f s3 of
                       (Inl e, s4) \<Rightarrow> (Inl (wrapErr (m ''close'') e), s4)
                     | (Inr _, s4) \<Rightarrow> (Inr (), s4)))))"

context local_files
begin

lemma write_local_ok:
  assumes "linv s" "lpath p" "write_local os m p src s = (Inr u, s')"
  shows "linv s' \<and> content s' = (content s)(p \<mapsto> fst src) \<and> snd src = None"
proof -
  from assms(3) obtain v s1 where 1: "o_MkdirAll os (path_Dir p) s = (Inr v, s1)"
    by (auto simp: write_local_def split: prod.splits sum.splits)
  with assms(3) obtain f s2 where 2: "o_Create os p s1 = (Inr f, s2)"
    by (auto simp: write_local_def split: prod.splits sum.splits)
  with 1 assms(3) obtain n s3 where 3: "io_Copy (o_Write os f) src s2 = (Inr n, s3)"
    by (auto simp: write_local_def split: prod.splits sum.splits)
  with 1 2 assms(3) obtain v' where 4: "o_Close os f s3 = (Inr v', s')"
    by (auto simp: write_local_def split: prod.splits sum.splits)
  have a: "linv s1" "content s1 = content s" "ready s1 p"
    using mkdir_keeps [OF assms(1,2) 1] mkdir_ready [OF assms(1,2) 1] by auto
  have b: "linv s2" "content s2 = (content s)(p \<mapsto> [])" "handle s2 f p []"
    using create_ok [OF a(1) assms(2) a(3) 2] a(2) by auto
  have c: "linv s3" "handle s3 f p (fst src)" "content s3 = (content s)(p \<mapsto> fst src)" "snd src = None"
    using fsink.copy_ok [of s2 f "(p, content s)" "[]" src n s3] b 3 by auto
  from fclose_keeps [OF c(1,2) 4] c show ?thesis by simp
qed

text \<open>Whatever happens, only the file itself changes.\<close>

lemma write_local_only:
  assumes "linv s" "lpath p" "write_local os m p src s = (r, s')" "q \<noteq> p"
  shows "linv s' \<and> content s' q = content s q"
proof -
  obtain r1 s1 where 1: "o_MkdirAll os (path_Dir p) s = (r1, s1)" by (cases "o_MkdirAll os (path_Dir p) s")
  note a = mkdir_keeps [OF assms(1,2) 1]
  obtain r2 s2 where 2: "o_Create os p s1 = (r2, s2)" by (cases "o_Create os p s1")
  show ?thesis
  proof (cases "isl r1 \<or> isl r2")
    case True
    then show ?thesis
    proof (cases "isl r1")
      case False
      with True obtain e where "r2 = Inl e" by (auto simp: isl_def)
      with create_err [of s1 p e s2] a assms 1 2 False show ?thesis
        by (auto simp: write_local_def isl_def split: sum.splits)
    qed (use a assms(3) 1 in \<open>auto simp: write_local_def isl_def\<close>)
  next
    case False
    then obtain v f where r: "r1 = Inr v" "r2 = Inr f" by (cases r1; cases r2) auto
    have b: "linv s2" "content s2 = (content s)(p \<mapsto> [])" "handle s2 f p []"
      using create_ok [of s1 p f s2] mkdir_ready [of s p v s1] a assms(1,2) 1 2 r by auto
    obtain r3 s3 where 3: "io_Copy (o_Write os f) src s2 = (r3, s3)" by (cases "io_Copy (o_Write os f) src s2")
    have "\<exists>d. linv s3 \<and> handle s3 f p d \<and> content s3 = (content s)(p \<mapsto> d)"
    proof (cases r3)
      case (Inl e)
      then show ?thesis using fsink.copy_err [of s2 f "(p, content s)" "[]" src e s3] b 3 by auto
    next
      case (Inr n)
      then show ?thesis using fsink.copy_ok [of s2 f "(p, content s)" "[]" src n s3] b 3 by auto
    qed
    then obtain d where d: "linv s3" "handle s3 f p d" "content s3 = (content s)(p \<mapsto> d)" by blast
    have "s' = snd (o_Close os f s3)"
      using assms(3) 1 2 3 r by (auto simp: write_local_def split: sum.splits prod.splits)
    with fclose_keeps [OF d(1,2), of "fst (o_Close os f s3)" s'] d(3) assms(4) show ?thesis by (cases "o_Close os f s3") auto
  qed
qed

end


section \<open>The operating system's files\<close>

definition pfs_os :: "(pfs, nat) OS" where
  "pfs_os = \<lparr>o_Open = os_Open, o_MkdirAll = os_MkdirAll, o_Create = os_Create, o_Write = fd_Write, o_Close = (\<lambda>_. fd_Close)\<rparr>"

definition local_path :: "string \<Rightarrow> bool" where
  "local_path p \<longleftrightarrow> clean_abs p \<and> clean_abs (path_Dir p)"

definition dir_ready :: "pfs \<Rightarrow> string \<Rightarrow> bool" where
  "dir_ready s p \<longleftrightarrow> is_dir (path_Dir p) s"

definition open_file :: "pfs \<Rightarrow> nat \<Rightarrow> string \<Rightarrow> bytes \<Rightarrow> bool" where
  "open_file s i p d \<longleftrightarrow> map_of (fs_now s) p = Some (NFile i) \<and> fs_data s i = d"

lemma local_path_split:
  assumes "local_path p"
  obtains b where "p = path_Dir p @ CHR ''/'' # b" "CHR ''/'' \<notin> set b" "path_Dir p \<noteq> []"
proof -
  have d: "clean_abs p" "clean_abs (path_Dir p)" using assms by (auto simp: local_path_def)
  then have "CHR ''/'' \<in> set p" by (auto simp: clean_abs_def)
  then obtain a b where ab: "p = a @ CHR ''/'' # b" "CHR ''/'' \<notin> set b" by (meson split_list_last)
  have "a \<noteq> []"
  proof
    assume "a = []"
    then have "path_Dir p = ''/''" using ab last_index_append [of "CHR ''/''" b "[]"] by (simp add: path_Dir_def path_Clean_def)
    with d(2) show False by (auto simp: clean_abs_def)
  qed
  then obtain a' where a': "a = CHR ''/'' # a'" using d(1) ab by (cases a) (auto simp: clean_abs_def)
  have "clean_abs a"
    using d(1) ab a' by (auto simp: clean_abs_def clean_rel_append)
  then have "path_Dir p = a" using ab path_Dir_append by simp
  with ab \<open>a \<noteq> []\<close> show ?thesis using that by simp
qed

interpretation lfs: local_files pfs_os file_at local_path fs_ok dir_ready open_file
proof (unfold_locales, goal_cases)
  case (1 s p rr s')
  then show ?case by (auto simp: pfs_os_def os_Open_def split: option.splits sum.splits node.splits prod.splits)
next
  case (2 s p d s')
  then show ?case
    by (auto simp: pfs_os_def os_Open_def file_at_def split: option.splits sum.splits node.splits prod.splits dest: lookup_simps)
next
  case (3 s p ru s')
  then show ?case using os_MkdirAll_facts [of s "path_Dir p"] by (simp add: pfs_os_def local_path_def)
next
  case (4 s p u s')
  then show ?case using os_MkdirAll_facts [of s "path_Dir p"] by (simp add: pfs_os_def local_path_def dir_ready_def)
next
  case (5 s p f s')
  obtain b where "p = path_Dir p @ CHR ''/'' # b" "CHR ''/'' \<notin> set b" "path_Dir p \<noteq> []"
    using local_path_split [OF 5(2)] by blast
  from os_Create_ok [OF 5(1) this, of f s'] 5 show ?case
    by (simp add: pfs_os_def dir_ready_def local_path_def open_file_def)
next
  case (6 s p e s')
  then show ?case using os_Create_err [of p s e s'] quietD by (auto simp: pfs_os_def)
next
  case (7 s f p d x u s')
  then show ?case using fd_Write_facts [of s p f x "Inr u" s'] by (auto simp: pfs_os_def open_file_def)
next
  case (8 s f p d x e s')
  then show ?case using fd_Write_facts [of s p f x "Inl e" s'] by (auto simp: pfs_os_def open_file_def)
next
  case (9 s f p d ru s')
  then show ?case by (auto simp: pfs_os_def fd_Close_def split: option.splits)
qed

end
