(* ===== verification/Archive.thy ===== *)
theory Archive
  imports Wal_Segments Local_Files Posix_Example
begin

text \<open>
  \<open>internal/wal/archive/archive.go\<close>: the WAL archive. A segment is stored under
  \<open>wal/TLI/NAME-SHA256\<close>, so that pushing it again is recognised by its name. The lemmas about
  \<open>Push\<close>, \<open>FindSegment\<close> and \<open>Get\<close> are proved over any backend that keeps the contract of
  \<open>storage_backend\<close>; the properties are their instances for the POSIX driver.

  \<open>Push\<close> reads the source file twice, once to hash it and once to upload it.
\<close>


section \<open>Keys and names\<close>

definition SegmentDir :: "u32 \<Rightarrow> string" where
  "SegmentDir timeline = ''wal/'' @ fmt_08X timeline"

definition SegmentKey :: "u32 \<Rightarrow> string \<Rightarrow> bytes \<Rightarrow> string" where
  "SegmentKey timeline segmentName srcHash =
     SegmentDir timeline @ ''/'' @ segmentName @ ''-'' @ hex_EncodeToString srcHash"

definition SegmentKeyPrefix :: "u32 \<Rightarrow> string \<Rightarrow> string" where
  "SegmentKeyPrefix timeline segmentName = SegmentDir timeline @ ''/'' @ segmentName @ ''-''"

definition SegmentNameFromBasename :: "string \<Rightarrow> string \<times> bool" where
  "SegmentNameFromBasename base =
     (if length base \<noteq> 24 + 1 + 64 \<or> base ! 24 \<noteq> CHR ''-'' then ([], False) else (take 24 base, True))"

text \<open>
  \<open>isHex\<close> ranges over runes; a byte above 127 starts a rune, or an invalid sequence read as
  \<open>U+FFFD\<close>, that is not in the set, so the test is the one on bytes.
\<close>

definition isHex :: "string \<Rightarrow> bool" where
  "isHex s \<longleftrightarrow> list_all (\<lambda>c. c \<in> set ''0123456789ABCDEFabcdef'') s"

definition IsSegmentName :: "string \<Rightarrow> bool" where
  "IsSegmentName s0 = (let s = path_Base s0 in length s = 24 \<and> isHex s)"

definition IsArchivableFile :: "string \<Rightarrow> bool" where
  "IsArchivableFile name0 =
     (let name = path_Base name0 in
      IsSegmentName name
      \<or> (length name = 24 + 1 + 8 + length ''.backup'' \<and> name ! 24 = CHR ''.'' \<and> name ! 33 = CHR ''.'' \<and>
         strings_HasSuffix name ''.backup'' \<and> isHex (take 24 name) \<and> isHex (drop 25 (take 33 name)))
      \<or> (length name = 24 + length ''.partial'' \<and> strings_HasSuffix name ''.partial'' \<and> isHex (take 24 name))
      \<or> (length name = 8 + length ''.history'' \<and> strings_HasSuffix name ''.history'' \<and> isHex (take 8 name)))"

definition TimelineFromSegment :: "string \<Rightarrow> u32 res" where
  "TimelineFromSegment seg0 =
     (let seg = path_Base seg0 in
      if \<not> IsArchivableFile seg
      then Inl (errors_New (''wal/archive: '' @ seg @ '' is not a PG archive file''))
      else (case sscanf_x 32 (take 8 seg) of
              None \<Rightarrow> Inl (errors_New (''wal/archive: parse timeline from '' @ seg))
            | Some tli \<Rightarrow> Inr (of_nat tli)))"


section \<open>Finding a segment\<close>

definition segment_mismatch :: "string \<Rightarrow> goerr" where
  "segment_mismatch msg =
     GoErr ErrSegmentMismatch (''wal/archive: existing segment differs from source: '' @ msg)"

definition FindSegment :: "('s, 'w) Backend \<Rightarrow> u32 \<Rightarrow> string \<Rightarrow> ('s, string \<times> bool) op" where
  "FindSegment b timeline segmentName s =
     (let pre = SegmentKeyPrefix timeline segmentName in
      case b_List b (SegmentDir timeline) s of
        (Inl e, s1) \<Rightarrow>
          if errors_Is e ErrNotExist then (Inr ([], False), s1)
          else (Inl (wrapErr (''wal/archive: list '' @ SegmentDir timeline) e), s1)
      | (Inr infos, s1) \<Rightarrow>
          (let matches = filter (\<lambda>p. strings_HasPrefix p pre \<and> \<not> strings_HasSuffix p ''.tmp'') (map fi_Path infos)
           in case matches of
                [] \<Rightarrow> (Inr ([], False), s1)
              | [m] \<Rightarrow> (Inr (m, True), s1)
              | _ \<Rightarrow>
                  (Inl (segment_mismatch (fmt_d (length matches) @ '' copies of '' @ segmentName @
                          '' in storage: ['' @ strings_Join (CHR '' '') matches @ '']'')), s1)))"


section \<open>Push\<close>

definition hashFile :: "('s, 'f) OS \<Rightarrow> string \<Rightarrow> ('s, bytes) op" where
  "hashFile os p s =
     (case o_Open os p s of
        (Inl e, s1) \<Rightarrow> (Inl e, s1)
      | (Inr (d, None), s1) \<Rightarrow> (Inr (sha256 d), s1)
      | (Inr (d, Some e), s1) \<Rightarrow> (Inl e, s1))"

definition streamFileTo :: "('s, 'f) OS \<Rightarrow> ('s, 'w) Backend \<Rightarrow> string \<Rightarrow> string \<Rightarrow> ('s, unit) op" where
  "streamFileTo os b sourcePath key s =
     (case o_Open os sourcePath s of
        (Inl e, s1) \<Rightarrow> (Inl (wrapErr (''wal/archive: open '' @ sourcePath) e), s1)
      | (Inr src, s1) \<Rightarrow> stream_reader_to b sourcePath src key s1)"

text \<open>From the random suffix on: stage the bytes under a key of their own, then promote it.\<close>

definition Push_upload ::
  "('s, 'f) OS \<Rightarrow> ('s, 'w) Backend \<Rightarrow> bytes res \<Rightarrow> string \<Rightarrow> string \<Rightarrow> ('s, unit) op" where
  "Push_upload os b rnd sourcePath key s =
     (case rnd of
        Inl e \<Rightarrow> (Inl (wrapErr ''wal/archive: rand'' e), s)
      | Inr r \<Rightarrow>
          (let tmpKey = key @ ''.'' @ hex_EncodeToString r @ ''.tmp'' in
           case streamFileTo os b sourcePath tmpKey s of
             (Inl e, s1) \<Rightarrow> (Inl e, snd (b_Delete b tmpKey s1))
           | (Inr _, s1) \<Rightarrow>
               (case b_Commit b tmpKey key s1 of
                  (Inr _, s2) \<Rightarrow> (Inr (), s2)
                | (Inl commitErr, s2) \<Rightarrow>
                    if errors_Is commitErr ErrExist then (Inr (), snd (b_Delete b tmpKey s2))
                    else (Inl (wrapErr (''wal/archive: Commit '' @ tmpKey @ arrow @ key) commitErr),
                          snd (b_Delete b tmpKey s2)))))"

definition Push :: "('s, 'f) OS \<Rightarrow> ('s, 'w) Backend \<Rightarrow> bytes res \<Rightarrow> u32 \<Rightarrow> string \<Rightarrow> ('s, unit) op" where
  "Push os b rnd timeline sourcePath s =
     (let segName = path_Base sourcePath in
      case hashFile os sourcePath s of
        (Inl e, s1) \<Rightarrow> (Inl (wrapErr (''wal/archive: hash source '' @ sourcePath) e), s1)
      | (Inr srcHash, s1) \<Rightarrow>
          (let key = SegmentKey timeline segName srcHash in
           case b_Stat b key s1 of
             (Inr _, s2) \<Rightarrow> (Inr (), s2)
           | (Inl statErr, s2) \<Rightarrow>
               if \<not> errors_Is statErr ErrNotExist
               then (Inl (wrapErr (''wal/archive: stat '' @ key) statErr), s2)
               else (case FindSegment b timeline segName s2 of
                       (Inl e, s3) \<Rightarrow> (Inl e, s3)
                     | (Inr (other, found), s3) \<Rightarrow>
                         if found then
                           if other = key then (Inr (), s3)
                           else (Inl (segment_mismatch (segName @ '' already in storage at '' @ other @
                                        '' with different source SHA'')), s3)
                         else Push_upload os b rnd sourcePath key s3)))"


section \<open>Get\<close>

definition Get_messages :: "string \<Rightarrow> string \<Rightarrow> string \<Rightarrow> string" where
  "Get_messages key destPath step =
     (if step = ''mkdir'' then ''wal/archive: mkdir for '' @ destPath
      else if step = ''create'' then ''wal/archive: create '' @ destPath
      else if step = ''copy'' then ''wal/archive: copy '' @ key @ arrow @ destPath
      else ''wal/archive: close '' @ destPath)"

definition Get :: "('s, 'f) OS \<Rightarrow> ('s, 'w) Backend \<Rightarrow> u32 \<Rightarrow> string \<Rightarrow> string \<Rightarrow> ('s, unit) op" where
  "Get os b timeline segmentName destPath s =
     (case FindSegment b timeline segmentName s of
        (Inl e, s1) \<Rightarrow> (Inl e, s1)
      | (Inr (key, found), s1) \<Rightarrow>
          if \<not> found
          then (Inl (GoErr ErrNotExist (''wal/archive: Get '' @ SegmentDir timeline @ ''/'' @ segmentName @
                       '': file does not exist'')), s1)
          else (case b_Get b key s1 of
                  (Inl e, s2) \<Rightarrow> (Inl (wrapErr (''wal/archive: Get '' @ key) e), s2)
                | (Inr rc, s2) \<Rightarrow> write_local os (Get_messages key destPath) destPath rc s2))"


section \<open>Names that PostgreSQL archives\<close>

lemma isHex_iff: "isHex s \<longleftrightarrow> list_all is_hex_digit s"
proof -
  have "c \<in> set ''0123456789ABCDEFabcdef'' \<longleftrightarrow> is_hex_digit c" for c
    by (cases c) (auto simp: is_hex_digit_def hexval_def of_char_def)
  then show ?thesis unfolding isHex_def by presburger
qed

lemma char_not_hex: "\<not> is_hex_digit (CHR ''/'')" "\<not> is_hex_digit (CHR ''p'')" "\<not> is_hex_digit (CHR ''g'')"
  by (simp_all add: is_hex_digit_def hexval_def)

text \<open>A name without a slash, as all four archivable forms are.\<close>

lemma archivable_chars:
  assumes "IsArchivableFile p"
  shows "path_Base p \<noteq> []" "CHR ''/'' \<notin> set (path_Base p)" "CHR ''g'' \<notin> set (path_Base p)"
proof -
  let ?n = "path_Base p"
  have hex: "CHR ''/'' \<notin> set s" "CHR ''p'' \<notin> set s" "CHR ''g'' \<notin> set s" if "isHex s" for s
    using that unfolding isHex_iff list_all_iff by (metis char_not_hex)+
  have shape: "\<exists>x y. ?n = x @ y \<and> isHex x \<and> x \<noteq> [] \<and>
      (y = [] \<or> y = ''.partial'' \<or> y = ''.history'' \<or> (\<exists>z. y = ''.'' @ z @ ''.backup'' \<and> isHex z))"
  proof -
    from assms consider "length ?n = 24" "isHex ?n"
      | "length ?n = 40" "?n ! 24 = CHR ''.''" "strings_HasSuffix ?n ''.backup''" "isHex (take 24 ?n)" "isHex (drop 25 (take 33 ?n))"
      | "length ?n = 32" "strings_HasSuffix ?n ''.partial''" "isHex (take 24 ?n)"
      | "length ?n = 16" "strings_HasSuffix ?n ''.history''" "isHex (take 8 ?n)"
      unfolding IsArchivableFile_def IsSegmentName_def Let_def by auto
    then show ?thesis
    proof cases
      case 1
      then show ?thesis by (intro exI [of _ ?n] exI [of _ "[]"]) auto
    next
      case 2
      then obtain u where u: "?n = u @ ''.backup''" "length u = 33" by (auto simp: suffix_def)
      then have "u = take 24 u @ [u ! 24] @ drop 25 u" using id_take_nth_drop [of 24 u] by simp
      then have "?n = take 24 ?n @ ''.'' @ drop 25 (take 33 ?n) @ ''.backup''"
        using 2 u by (simp add: nth_append)
      with 2 show ?thesis by (intro exI [of _ "take 24 ?n"] exI [of _ "''.'' @ drop 25 (take 33 ?n) @ ''.backup''"]) auto
    next
      case 3
      then obtain u where "?n = u @ ''.partial''" "length u = 24" by (auto simp: suffix_def)
      with 3 show ?thesis by (intro exI [of _ u] exI [of _ "''.partial''"]) auto
    next
      case 4
      then obtain u where "?n = u @ ''.history''" "length u = 8" by (auto simp: suffix_def)
      with 4 show ?thesis by (intro exI [of _ u] exI [of _ "''.history''"]) auto
    qed
  qed
  show "?n \<noteq> []" using shape by auto
  show "CHR ''/'' \<notin> set ?n" using shape hex by auto
  show "CHR ''g'' \<notin> set ?n" using shape hex by auto
qed


section \<open>What the archive holds\<close>

text \<open>The keys that count as a stored copy of a segment, and the archive's invariant.\<close>

definition segment_copy :: "u32 \<Rightarrow> string \<Rightarrow> string \<Rightarrow> bool" where
  "segment_copy timeline segmentName k \<longleftrightarrow>
     strings_HasPrefix k (SegmentKeyPrefix timeline segmentName) \<and> \<not> strings_HasSuffix k ''.tmp''"

text \<open>Every archived segment is named by the SHA-256 of its content.\<close>

definition archive_ok :: "(string \<Rightarrow> bytes option) \<Rightarrow> bool" where
  "archive_ok v \<longleftrightarrow>
     (\<forall>tli seg h d. length h = 32 \<longrightarrow> v (SegmentKey tli seg h) = Some d \<longrightarrow> sha256 d = h)"

definition source_is ::
  "('s, 'f) OS \<Rightarrow> ('s \<Rightarrow> bool) \<Rightarrow> ('s \<Rightarrow> string \<Rightarrow> bytes option) \<Rightarrow> ('s \<Rightarrow> string \<Rightarrow> bool) \<Rightarrow> string \<Rightarrow> bytes \<Rightarrow> bool" where
  "source_is os ok view blocked p d \<longleftrightarrow>
     (\<forall>s r s'. ok s \<longrightarrow> o_Open os p s = (r, s') \<longrightarrow>
        ok s' \<and> view s' = view s \<and> blocked s' = blocked s \<and> (\<forall>x. r = Inr (x, None) \<longrightarrow> x = d))"

lemma SegmentKey_copy: "segment_copy tli seg (SegmentKey tli seg h)"
proof -
  have "\<not> suffix ''.tmp'' (SegmentKey tli seg h)"
  proof
    assume "suffix ''.tmp'' (SegmentKey tli seg h)"
    then obtain us where us: "SegmentKey tli seg h = us @ ''.tmp''" by (auto simp: suffix_def)
    show False
    proof (cases "h = []")
      case True
      then have "last (SegmentKey tli seg h) = CHR ''-''" by (simp add: SegmentKey_def hex_EncodeToString_def)
      with us show False by simp
    next
      case False
      then have ne: "hex_EncodeToString h \<noteq> []" using length_hex_EncodeToString [of h] by (metis length_0_conv mult_is_0 zero_neq_numeral)
      then have "last (SegmentKey tli seg h) \<in> set (hex_EncodeToString h)" by (simp add: SegmentKey_def)
      with us have "CHR ''p'' \<in> set (hex_EncodeToString h)" by simp
      then show False by (auto dest!: set_hex_EncodeToString simp: hexL_def nth_Cons' split: if_splits)
    qed
  qed
  then show ?thesis by (simp add: segment_copy_def SegmentKeyPrefix_def SegmentKey_def prefix_def)
qed

lemma SegmentKey_hash:
  assumes "SegmentKey t seg h = SegmentKey t' seg' h'" "length h = 32" "length h' = 32"
  shows "h = h'"
proof -
  have l: "length (hex_EncodeToString h) = length (hex_EncodeToString h')" using assms(2,3) by simp
  have "hex_EncodeToString h = hex_EncodeToString h'"
    using assms(1) append_eq_append_conv [of "SegmentDir t @ ''/'' @ seg @ ''-''" "SegmentDir t' @ ''/'' @ seg' @ ''-''"
      "hex_EncodeToString h" "hex_EncodeToString h'"] l by (simp add: SegmentKey_def)
  then show ?thesis by (rule hex_EncodeToString_inj)
qed

lemma SegmentKey_not_tmp: "SegmentKey t seg h \<noteq> k @ ''.tmp''"
  using SegmentKey_copy [of t seg h] by (auto simp: segment_copy_def suffix_def)


section \<open>The archive over any backend\<close>

lemma segment_listed: "segment_copy tli seg k \<Longrightarrow> listed (SegmentDir tli) k"
  by (auto simp: segment_copy_def SegmentKeyPrefix_def listed_def SegmentDir_def prefix_def)

context named_backend
begin

lemma FindSegment_facts:
  assumes "inv s" "key (SegmentDir tli)" "FindSegment B tli seg s = (r, s')"
  shows "inv s' \<and> view s' = view s \<and> (\<forall>k. blocked s' k \<longrightarrow> blocked s k) \<and>
     (\<forall>m. r = Inr (m, True) \<longrightarrow> {k. view s k \<noteq> None \<and> segment_copy tli seg k} = {m}) \<and>
     (\<forall>m. r = Inr (m, False) \<longrightarrow> {k. view s k \<noteq> None \<and> segment_copy tli seg k} = {})"
proof -
  obtain l s1 where l: "b_List B (SegmentDir tli) s = (l, s1)" by (cases "b_List B (SegmentDir tli) s")
  have dk: "SegmentDir tli = [] \<or> key (SegmentDir tli)" using assms(2) by simp
  note base = list [OF assms(1) dk l] and nodirs = list_dirs [OF assms(1) dk l]
  have s1: "s' = s1"
    using assms(3) l by (auto simp: FindSegment_def Let_def split: sum.splits list.splits if_splits)
  show ?thesis
  proof (cases l)
    case (Inl e)
    have "{k. view s k \<noteq> None \<and> segment_copy tli seg k} = {}" if "errors_Is e ErrNotExist"
      using list_missing [OF assms(1) dk l [unfolded Inl] that] segment_listed by blast
    then show ?thesis using assms(3) l Inl base nodirs s1
      by (auto simp: FindSegment_def Let_def split: if_splits)
  next
    case (Inr xs)
    define ms where "ms = filter (\<lambda>p. strings_HasPrefix p (SegmentKeyPrefix tli seg) \<and> \<not> strings_HasSuffix p ''.tmp'') (map fi_Path xs)"
    have "set ms = {k. view s k \<noteq> None \<and> segment_copy tli seg k}"
      using list_keys [OF assms(1) dk l [unfolded Inr]] segment_listed by (auto simp: ms_def segment_copy_def)
    then show ?thesis using assms(3) l Inr base nodirs s1
      by (auto simp: FindSegment_def Let_def ms_def [symmetric] split: list.splits)
  qed
qed

text \<open>The upload never overwrites, touches only the key and its staging key, and succeeds only if stored.\<close>

lemma Push_upload_facts:
  assumes s: "inv s" and src: "source_is os inv view blocked p d" and k: "key k" "key t"
    and t: "t = k @ ''.'' @ hex_EncodeToString rb @ ''.tmp''" and nb: "\<not> blocked s k" and ns: "CHR ''/'' \<notin> set (drop (length k) t)"
    and c: "Push_upload os B (Inr rb) p k s = (r, s')"
  shows "inv s' \<and> (\<forall>x. x \<noteq> k \<longrightarrow> x \<noteq> t \<longrightarrow> view s' x = view s x) \<and>
     (view s' k = view s k \<or> view s k = None \<and> view s' k = Some d) \<and> (r = Inr () \<longrightarrow> view s' k \<noteq> None)"
proof -
  have tk: "t \<noteq> k" using t by simp
  have np: "\<not> strings_HasPrefix t (k @ ''/'')" using t ns by (auto simp: prefix_def)
  obtain ro s1 where op: "o_Open os p s = (ro, s1)" by (cases "o_Open os p s")
  have o: "inv s1" "view s1 = view s" "blocked s1 = blocked s" "\<And>x. ro = Inr (x, None) \<Longrightarrow> x = d"
    using src s op unfolding source_is_def by blast+
  have del: "inv (snd (b_Delete B t x)) \<and> (\<forall>y. y \<noteq> t \<longrightarrow> view (snd (b_Delete B t x)) y = view x y)" if "inv x" for x
    using delete_cases [OF that k(2), of "fst (b_Delete B t x)" "snd (b_Delete B t x)"] by auto
  obtain rs s2 where st: "streamFileTo os B p t s = (rs, s2)" by (cases "streamFileTo os B p t s")
  show ?thesis
  proof (cases rs)
    case (Inl e)
    have "inv s2 \<and> (\<forall>y. y \<noteq> t \<longrightarrow> view s2 y = view s y)"
    proof (cases ro)
      case (Inr rd)
      with st op Inl have "stream_reader_to B p rd t s1 = (Inl e, s2)" by (simp add: streamFileTo_def)
      from stream_reader_to_err [OF o(1) k(2) this] o(2) show ?thesis by auto
    qed (use o st op in \<open>simp add: streamFileTo_def\<close>)
    moreover have "r = Inl e" "s' = snd (b_Delete B t s2)" using c st Inl t by (simp_all add: Push_upload_def Let_def)
    ultimately show ?thesis using del [of s2] tk by auto
  next
    case (Inr u)
    then obtain rd where rd: "ro = Inr rd" "stream_reader_to B p rd t s1 = (Inr u, s2)"
      using st op by (auto simp: streamFileTo_def split: sum.splits)
    have v2: "inv s2" "view s2 = (view s)(t \<mapsto> d)"
      using stream_reader_to_ok [OF o(1) k(2) rd(2)] o(2,4) rd(1) by (cases rd; auto)+
    have nb2: "\<not> blocked s2 k"
      by (rule stream_reader_to_dirs [OF o(1) k(2,1) _ np rd(2)]) (use nb o(3) in simp)
    obtain rc s3 where cm: "b_Commit B t k s2 = (rc, s3)" by (cases "b_Commit B t k s2")
    have tn: "view s2 t \<noteq> None" using v2 by simp
    note cc = commit_cases [OF v2(1) tn k(1) tk cm]
    show ?thesis
    proof (cases rc)
      case (Inr v)
      have "r = Inr ()" "s' = s3" using c st \<open>rs = Inr u\<close> cm Inr t by (simp_all add: Push_upload_def Let_def)
      with commit_ok [OF v2(1) tn k(1) tk cm [unfolded Inr]] v2 tk show ?thesis by auto
    next
      case (Inl e)
      have s': "s' = snd (b_Delete B t s3)" "r = Inr () \<Longrightarrow> errors_Is e ErrExist"
        using c st \<open>rs = Inr u\<close> cm Inl t by (auto simp: Push_upload_def Let_def split: if_splits)
      have "view s' k \<noteq> None" if "r = Inr ()"
        using commit_found [OF v2(1) tn k(1) tk cm [unfolded Inl] s'(2) [OF that]]
          commit_exists [OF v2(1) tn k(1) tk cm [unfolded Inl] s'(2) [OF that]] nb2 del [of s3] s'(1) tk by auto
      with cc del [of s3] s'(1) v2 tk show ?thesis by auto
    qed
  qed
qed

lemma Push_facts:
  assumes s: "inv s" and src: "source_is os inv view blocked p d" and dir: "key (SegmentDir tli)" and k: "key k" "key t"
    and kd: "k = SegmentKey tli (path_Base p) (sha256 d)"
    and t: "t = k @ ''.'' @ hex_EncodeToString rb @ ''.tmp''" and nb: "\<not> blocked s k" and ns: "CHR ''/'' \<notin> set (drop (length k) t)"
    and c: "Push os B (Inr rb) tli p s = (r, s')"
  shows "inv s' \<and> (\<forall>x. x \<noteq> k \<longrightarrow> x \<noteq> t \<longrightarrow> view s' x = view s x) \<and>
     (view s' k = view s k \<or> view s k = None \<and> view s' k = Some d) \<and> (r = Inr () \<longrightarrow> view s' k \<noteq> None)"
    "view s k = None \<Longrightarrow> view s m \<noteq> None \<Longrightarrow> segment_copy tli (path_Base p) m \<Longrightarrow> m \<noteq> k \<Longrightarrow>
       view s' = view s \<and> (\<exists>e. r = Inl e)"
    "view s k \<noteq> None \<Longrightarrow> view s' = view s"
proof -
  let ?concl = "inv s' \<and> (\<forall>x. x \<noteq> k \<longrightarrow> x \<noteq> t \<longrightarrow> view s' x = view s x) \<and>
     (view s' k = view s k \<or> view s k = None \<and> view s' k = Some d) \<and> (r = Inr () \<longrightarrow> view s' k \<noteq> None) \<and>
     (view s k = None \<longrightarrow> (\<exists>m. view s m \<noteq> None \<and> segment_copy tli (path_Base p) m \<and> m \<noteq> k) \<longrightarrow>
       view s' = view s \<and> (\<exists>e. r = Inl e)) \<and>
     (view s k \<noteq> None \<longrightarrow> view s' = view s)"
  obtain ro s1 where op: "o_Open os p s = (ro, s1)" by (cases "o_Open os p s")
  have o: "inv s1" "view s1 = view s" "blocked s1 = blocked s" "\<And>x. ro = Inr (x, None) \<Longrightarrow> x = d"
    using src s op unfolding source_is_def by blast+
  define rh where "rh = fst (hashFile os p s)"
  have h: "hashFile os p s = (rh, s1)" "rh = Inr x \<Longrightarrow> x = sha256 d" for x
    using o(4) by (auto simp: rh_def hashFile_def op split: sum.splits prod.splits option.splits)
  obtain rt s2 where st: "b_Stat B k s1 = (rt, s2)" by (cases "b_Stat B k s1")
  note st2 = stat [OF o(1) k(1) st]
  obtain rf s3 where f: "FindSegment B tli (path_Base p) s2 = (rf, s3)" by (cases "FindSegment B tli (path_Base p) s2")
  have ff: "inv s3" "view s3 = view s" "blocked s3 k \<Longrightarrow> blocked s2 k"
     "\<And>m. rf = Inr (m, True) \<Longrightarrow> {k. view s k \<noteq> None \<and> segment_copy tli (path_Base p) k} = {m}"
     "\<And>m. rf = Inr (m, False) \<Longrightarrow> {k. view s k \<noteq> None \<and> segment_copy tli (path_Base p) k} = {}"
    using FindSegment_facts [OF _ dir f] st2 o(2) by auto
  have nb3: "\<not> blocked s3 k" using ff(3) stat_dirs [OF o(1) k(1) st, of k] nb o(3) by auto
  have ?concl
  proof (cases "isl rh \<or> (\<exists>fi. rt = Inr fi) \<or> (\<exists>e. rt = Inl e \<and> \<not> errors_Is e ErrNotExist)")
    case True
    show ?thesis
    proof (cases "\<not> isl rh \<and> (\<exists>fi. rt = Inr fi)")
      case True
      then obtain fi where "rt = Inr fi" by blast
      with stat_found [OF o(1) k(1)] st nb o(2,3) have "view s k \<noteq> None" by (metis (mono_tags))
      moreover have "s' = s2" using c h st True kd by (cases rh) (auto simp: Push_def Let_def)
      ultimately show ?thesis using st2 o(2) by auto
    next
      case False
      with True c h st kd o(2) st2 o(1) show ?thesis
        by (cases rh; cases rt) (auto simp: Push_def Let_def split: if_splits)
    qed
  next
    case False
    then obtain e where e: "rh = Inr (sha256 d)" "rt = Inl e" "errors_Is e ErrNotExist" using h(2) by (cases rh; cases rt) auto
    have vk: "view s k = None" using stat_missing [OF o(1) k(1)] st e o(2) by metis
    have un: "Push os B (Inr rb) tli p s = (case (rf, s3) of (Inl e, s3) \<Rightarrow> (Inl e, s3)
       | (Inr (other, found), s3) \<Rightarrow> if found then if other = k then (Inr (), s3)
            else (Inl (segment_mismatch (path_Base p @ '' already in storage at '' @ other @ '' with different source SHA'')), s3)
            else Push_upload os B (Inr rb) p k s3)"
      using h(1) st f e unfolding kd by (simp add: Push_def Let_def)
    show ?thesis
    proof (cases "\<exists>m. rf = Inr (m, False)")
      case True
      then obtain m where m: "rf = Inr (m, False)" by blast
      with un c have up: "Push_upload os B (Inr rb) p k s3 = (r, s')" by simp
      have none: "\<not> (\<exists>m. view s m \<noteq> None \<and> segment_copy tli (path_Base p) m \<and> m \<noteq> k)" using ff(5) [OF m] by blast
      from Push_upload_facts [OF ff(1) src k t nb3 ns up] ff(2) none vk show ?thesis by (metis (no_types, lifting))
    next
      case False
      have "other \<noteq> k" if "rf = Inr (other, True)" for other using ff(4) [OF that] vk by (metis (mono_tags, lifting) mem_Collect_eq singletonI)
      with un c False ff(1,2) show ?thesis by (auto split: sum.splits prod.splits if_splits)
    qed
  qed
  then show "inv s' \<and> (\<forall>x. x \<noteq> k \<longrightarrow> x \<noteq> t \<longrightarrow> view s' x = view s x) \<and>
     (view s' k = view s k \<or> view s k = None \<and> view s' k = Some d) \<and> (r = Inr () \<longrightarrow> view s' k \<noteq> None)"
    "view s k = None \<Longrightarrow> view s m \<noteq> None \<Longrightarrow> segment_copy tli (path_Base p) m \<Longrightarrow> m \<noteq> k \<Longrightarrow>
       view s' = view s \<and> (\<exists>e. r = Inl e)"
    "view s k \<noteq> None \<Longrightarrow> view s' = view s" by blast+
qed

end


section \<open>The archive on the POSIX driver\<close>

lemma archive_keys:
  assumes "IsArchivableFile p"
  shows "posix_key (SegmentDir tli)" "posix_key (SegmentKey tli (path_Base p) h)"
    "posix_key (SegmentKey tli (path_Base p) h @ ''.'' @ hex_EncodeToString rb @ ''.tmp'')"
    "CHR ''/'' \<notin> set (drop (length (SegmentKey tli (path_Base p) h))
       (SegmentKey tli (path_Base p) h @ ''.'' @ hex_EncodeToString rb @ ''.tmp''))"
proof -
  note n = archivable_chars [OF assms]
  have hl: "CHR ''/'' \<notin> set (hex_EncodeToString x)" "CHR ''g'' \<notin> set (hex_EncodeToString x)" for x
    using less16_cases by (auto dest!: set_hex_EncodeToString simp: hexL_def nth_Cons' split: if_splits)
  have tl: "plain_comp (fmt_08X tli)" "CHR ''g'' \<notin> set (fmt_08X tli)"
  proof -
    have l: "length (fmt_08X tli) = 8" by simp
    show "plain_comp (fmt_08X tli)" unfolding plain_comp_def by (intro conjI notI) (use l in simp_all)
    show "CHR ''g'' \<notin> set (fmt_08X tli)"
      by (auto dest!: set_fmt_08X simp: hexU_def nth_Cons' split: if_splits)
  qed
  have dir: "clean_rel (SegmentDir tli)" "path_Base (SegmentDir tli) = fmt_08X tli"
  proof -
    have "clean_rel ''wal''" by (simp add: clean_rel_def plain_comp_def)
    then show "clean_rel (SegmentDir tli)"
      using clean_rel_append [of "''wal''" "fmt_08X tli"] tl(1) by (simp add: SegmentDir_def clean_rel_single)
    show "path_Base (SegmentDir tli) = fmt_08X tli"
      using path_Base_append [of "fmt_08X tli" "''wal''"] tl(1) by (simp add: SegmentDir_def plain_comp_def)
  qed
  have nosub: "\<not> strings_Contains w ''.pgsafe-tmp''" if "CHR ''g'' \<notin> set w" for w
    using that by (auto simp: sublist_def)
  have key: "posix_key (SegmentDir tli @ ''/'' @ w)" if "w \<noteq> []" "CHR ''/'' \<notin> set w" "CHR ''g'' \<notin> set w" "CHR ''-'' \<in> set w" for w
  proof -
    have "plain_comp w" using that by (auto simp: plain_comp_def)
    then show ?thesis using that dir(1) path_Base_append [of w "SegmentDir tli"] nosub [of w]
      by (simp add: posix_key_def clean_rel_append clean_rel_single)
  qed
  show "posix_key (SegmentDir tli)" using dir tl nosub by (simp add: posix_key_def)
  show "posix_key (SegmentKey tli (path_Base p) h)"
    using key [of "path_Base p @ ''-'' @ hex_EncodeToString h"] n hl by (simp add: SegmentKey_def)
  show "posix_key (SegmentKey tli (path_Base p) h @ ''.'' @ hex_EncodeToString rb @ ''.tmp'')"
    using key [of "path_Base p @ ''-'' @ hex_EncodeToString h @ ''.'' @ hex_EncodeToString rb @ ''.tmp''"] n hl by (simp add: SegmentKey_def)
  show "CHR ''/'' \<notin> set (drop (length (SegmentKey tli (path_Base p) h))
       (SegmentKey tli (path_Base p) h @ ''.'' @ hex_EncodeToString rb @ ''.tmp''))"
    using hl by simp
qed

lemma archive_ok_after:
  assumes "archive_ok v" "\<forall>x. x \<noteq> SegmentKey tli seg (sha256 d) \<longrightarrow> x \<noteq> t \<longrightarrow> v' x = v x" "t = k @ ''.tmp''"
    "v' (SegmentKey tli seg (sha256 d)) = v (SegmentKey tli seg (sha256 d)) \<or> v' (SegmentKey tli seg (sha256 d)) = Some d"
  shows "archive_ok v'"
  unfolding archive_ok_def
proof (intro allI impI)
  fix tli' seg' h d' assume h: "length h = 32" "v' (SegmentKey tli' seg' h) = Some d'"
  show "sha256 d' = h"
  proof (cases "v' (SegmentKey tli' seg' h) = v (SegmentKey tli' seg' h)")
    case True
    then show ?thesis using assms(1) h unfolding archive_ok_def by metis
  next
    case False
    then have eq: "SegmentKey tli' seg' h = SegmentKey tli seg (sha256 d)"
      using assms(2,3) SegmentKey_not_tmp [of tli' seg' h k] by auto
    then have "d' = d" using False assms(4) h(2) by auto
    then show ?thesis using SegmentKey_hash [OF eq h(1)] by simp
  qed
qed

text \<open>C3: Invariant 7 of the WAL archive. Whatever the outcome of a push, the archive still names every
  segment by the SHA-256 of its content, no file but the segment's own key and its staging key has
  changed, and if the segment was there already nothing has changed at all. If the push returns
  success, the segment is stored under its key, with the source's hash.\<close>

theorem Push_archives:
  assumes "posix_inv r s" "IsArchivableFile p"
    "source_is os (posix_inv r) (posix_view r) (posix_blocked r) p d"
    "archive_ok (posix_view r s)" "\<not> posix_blocked r s (SegmentKey tli (path_Base p) (sha256 d))"
    "Push os (posix_backend r) (Inr rb) tli p s = (res, s')"
  shows "posix_inv r s' \<and> archive_ok (posix_view r s') \<and>
    (\<forall>x. x \<notin> {SegmentKey tli (path_Base p) (sha256 d),
               SegmentKey tli (path_Base p) (sha256 d) @ ''.'' @ hex_EncodeToString rb @ ''.tmp''} \<longrightarrow>
         posix_view r s' x = posix_view r s x) \<and>
    (posix_view r s (SegmentKey tli (path_Base p) (sha256 d)) \<noteq> None \<longrightarrow> posix_view r s' = posix_view r s) \<and>
    (res = Inr () \<longrightarrow> (\<exists>x. posix_view r s' (SegmentKey tli (path_Base p) (sha256 d)) = Some x \<and> sha256 x = sha256 d))"
proof -
  note k = archive_keys [OF assms(2)]
  let ?k = "SegmentKey tli (path_Base p) (sha256 d)"
  note f = pnamed.Push_facts [OF assms(1,3) k(1) k(2) k(3) refl refl assms(5) k(4) assms(6)]
  have ok: "archive_ok (posix_view r s')"
    by (rule archive_ok_after [OF assms(4), of tli "path_Base p" d _ _ "?k @ ''.'' @ hex_EncodeToString rb"]) (use f(1) in auto)
  have stored: "\<exists>x. posix_view r s' ?k = Some x \<and> sha256 x = sha256 d" if "res = Inr ()"
  proof -
    obtain x where x: "posix_view r s' ?k = Some x" using f(1) \<open>res = Inr ()\<close> by blast
    with ok show ?thesis unfolding archive_ok_def using length_sha256 by blast
  qed
  show ?thesis by (intro conjI) (use f ok stored in auto)
qed

text \<open>A push of one byte into the example storage.\<close>

definition example_os :: "bytes \<Rightarrow> ('s, nat) OS" where
  "example_os d = \<lparr>o_Open = (\<lambda>_ s. (Inr (d, None), s)), o_MkdirAll = (\<lambda>_ s. (Inr (), s)), o_Create = (\<lambda>_ s. (Inr 0, s)),
     o_Write = (\<lambda>_ _ s. (Inr (), s)), o_Close = (\<lambda>_ s. (Inr (), s))\<rparr>"

lemma example_source: "source_is (example_os d) ok view blocked p d"
  by (auto simp: source_is_def example_os_def)

definition example_segment :: string where
  "example_segment = ''000000010000000000000002''"

lemma example_archivable: "IsArchivableFile example_segment" "path_Base example_segment = example_segment"
proof -
  have "path_Base example_segment = example_segment"
    by (rule path_Base_no_slash) (simp_all add: example_segment_def)
  then show "path_Base example_segment = example_segment"
    "IsArchivableFile example_segment"
    by (simp_all add: IsArchivableFile_def IsSegmentName_def isHex_def) (simp_all add: example_segment_def)
qed

lemma example_view_wal: "posix_view example_root example_fs (SegmentKey tli seg h) = None"
  by (auto simp: posix_view_def file_at_def example_defs under_root_def SegmentKey_def SegmentDir_def)

theorem Push_archives_witness:
  "\<exists>res s'. Push (example_os ''x'') (posix_backend example_root) (Inr [CHR 0x01]) 1 example_segment example_fs = (res, s') \<and>
    archive_ok (posix_view example_root s') \<and>
    (res = Inr () \<longrightarrow> (\<exists>x. posix_view example_root s' (SegmentKey 1 example_segment (sha256 ''x'')) = Some x \<and> sha256 x = sha256 ''x''))"
proof -
  obtain res s' where c: "Push (example_os ''x'') (posix_backend example_root) (Inr [CHR 0x01]) 1 example_segment example_fs = (res, s')"
    by fastforce
  have ok: "archive_ok (posix_view example_root example_fs)" by (simp add: archive_ok_def example_view_wal)
  have nb: "\<not> posix_blocked example_root example_fs (SegmentKey 1 (path_Base example_segment) (sha256 ''x''))"
    by (auto simp: posix_blocked_def example_defs under_root_def SegmentKey_def SegmentDir_def)
  from Push_archives [OF example_inv example_archivable(1) example_source ok nb c] c show ?thesis
    by (auto simp: example_archivable(2))
qed


text \<open>A storage that holds one archived segment.\<close>

definition example_hash :: bytes where
  "example_hash = (case sha256 ''x'' of c # cs \<Rightarrow> (if c = CHR 0x00 then CHR 0x01 else CHR 0x00) # cs | [] \<Rightarrow> [])"

lemma example_hash: "length example_hash = 32" "example_hash \<noteq> sha256 ''x''"
proof -
  have "length (sha256 ''x'') = 32" by simp
  then obtain c cs where "sha256 ''x'' = c # cs" "length cs = 31" by (cases "sha256 ''x''") auto
  then show "length example_hash = 32" "example_hash \<noteq> sha256 ''x''" by (auto simp: example_hash_def)
qed

definition example_archive :: "bytes \<Rightarrow> pfs" where
  "example_archive h = example_fs\<lparr>fs_now := [(''/r'', NDir), (''/r/wal'', NDir), (''/r/wal/00000001'', NDir),
     (''/r/'' @ SegmentKey 1 example_segment h, NFile 0)]\<rparr>"

lemma SegmentDir_1: "SegmentDir 1 = ''wal/00000001''"
  unfolding SegmentDir_def fmt_08X_def fmt_X_def hexU_def by (simp add: digits_of.simps numeral_eq_Suc)

lemma example_archive_fs: "fs_ok (example_archive h)"
proof -
  define b where "b = example_segment @ ''-'' @ hex_EncodeToString h"
  let ?p = "''/r/'' @ SegmentKey 1 example_segment h"
  have p: "?p = ''/r/wal/00000001'' @ CHR ''/'' # b" by (simp add: SegmentKey_def SegmentDir_1 b_def)
  have nb: "CHR ''/'' \<notin> set b" using archivable_chars(2) [OF example_archivable(1)]
    by (auto simp: b_def example_archivable(2) dest!: set_hex_EncodeToString) (metis hexL_not_slash)
  have "clean_rel (SegmentKey 1 example_segment h)"
    using archive_keys(2) [OF example_archivable(1)] by (simp add: posix_key_def example_archivable(2))
  then have cl: "clean_abs ?p" using clean_abs_append [of "''/r''"] example_paths(1) by simp
  have base: "clean_abs ''/r/wal''" "clean_abs ''/r/wal/00000001''" "ancestors ''/r'' = []"
    "ancestors ''/r/wal'' = [''/r'']" "ancestors ''/r/wal/00000001'' = [''/r'', ''/r/wal'']"
    by (simp_all add: clean_abs_code clean_rel_def plain_comp_def ancestors_def upt_rec)
  have anc: "set (ancestors ?p) = {''/r'', ''/r/wal'', ''/r/wal/00000001''}"
    using ancestors_step [OF nb, of "''/r/wal/00000001''"] base(5) unfolding p by (simp only:) auto
  have ne: "?p \<noteq> ''/r''" "?p \<noteq> ''/r/wal''" "?p \<noteq> ''/r/wal/00000001''" unfolding p by auto
  show ?thesis
    using cl anc ne example_paths(1) base
    by (auto simp: fs_ok_def tree_ok_def example_archive_def example_fs_def split: if_splits)
qed

lemma example_archive_inv: "posix_inv example_root (example_archive h)"
  using example_archive_fs example_paths(1)
  by (auto simp: posix_inv_def faults_ok_def file_at_def example_archive_def example_root_def)

lemma example_archive_view:
  "posix_view example_root (example_archive h) (SegmentKey 1 example_segment x) =
     (if SegmentKey 1 example_segment x = SegmentKey 1 example_segment h then Some ''old'' else None)"
  "\<not> posix_blocked example_root (example_archive h) (SegmentKey 1 example_segment x)"
  using archive_keys(2) [OF example_archivable(1), of 1 x]
  by (auto simp: posix_view_def posix_blocked_def file_at_def example_archive_def example_fs_def example_root_def under_root_def
      example_archivable(2) SegmentKey_def SegmentDir_1 split: if_splits)


text \<open>C21: \<open>Get\<close> gives back what was archived: if it returns success, exactly one finished copy of the
  segment is stored and the destination file holds its bytes.\<close>

theorem Get_restores:
  assumes "posix_inv r s" "posix_key (SegmentDir tli)" "local_path dest"
    "Get pfs_os (posix_backend r) tli seg dest s = (Inr (), s')"
  shows "\<exists>k d. {x. posix_view r s x \<noteq> None \<and> segment_copy tli seg x} = {k} \<and>
           posix_view r s k = Some d \<and> file_at s' dest = Some d"
proof -
  obtain rf s1 where f: "FindSegment (posix_backend r) tli seg s = (rf, s1)"
    by (cases "FindSegment (posix_backend r) tli seg s")
  note ff = pnamed.FindSegment_facts [OF assms(1,2) f]
  from assms(4) f obtain k where k: "rf = Inr (k, True)"
    by (auto simp: Get_def split: sum.splits if_splits)
  with ff have only: "{x. posix_view r s x \<noteq> None \<and> segment_copy tli seg x} = {k}" by blast
  then have "posix_view r s k \<noteq> None" by blast
  with pstore.view_key [OF assms(1)] have key: "posix_key k" by blast
  from assms(4) f k obtain rc s2 where g: "b_Get (posix_backend r) k s1 = (Inr rc, s2)"
    and w: "write_local pfs_os (Get_messages k dest) dest rc s2 = (Inr (), s')"
    by (auto simp: Get_def split: sum.splits prod.splits)
  have s1: "posix_inv r s1" "posix_view r s1 = posix_view r s" using ff by blast+
  have "fs_ok s2" using pstore.get [OF s1(1) key g] by (simp add: posix_inv_def)
  from lfs.write_local_ok [OF this assms(3) w] have out: "file_at s' dest = Some (fst rc)" "snd rc = None" by auto
  with pstore.get_data [OF s1(1) key, of "fst rc" s2] g s1(2) only show ?thesis by (metis prod.collapse)
qed

theorem Get_restores_witness:
  "\<exists>k d. {x. posix_view example_root (example_archive (replicate 32 (CHR 0x00))) x \<noteq> None \<and> segment_copy 1 example_segment x} = {k} \<and>
      posix_view example_root (example_archive (replicate 32 (CHR 0x00))) k = Some d \<and>
      file_at (snd (Get pfs_os (posix_backend example_root) 1 example_segment ''/tmp/seg'' (example_archive (replicate 32 (CHR 0x00))))) ''/tmp/seg'' = Some d"
proof -
  let ?out = "Get pfs_os (posix_backend example_root) 1 example_segment ''/tmp/seg'' (example_archive (replicate 32 (CHR 0x00)))"
  have run: "fst ?out = Inr ()" by code_simp
  have eq: "?out = (Inr (), snd ?out)" by (rule prod_eqI) (simp_all only: run fst_conv snd_conv)
  have lp: "local_path ''/tmp/seg''" by code_simp
  have "posix_key (SegmentDir 1)" by (rule archive_keys(1) [OF example_archivable(1)])
  from Get_restores [OF example_archive_inv this lp, where seg = example_segment and s' = "snd ?out"] eq show ?thesis
    by (simp only:)
qed

end
