(* ===== verification/Sidecar.thy ===== *)
theory Sidecar
  imports Manifest
begin

text \<open>
  \<open>internal/manifest/sidecar.go\<close>: the record behind \<open>Storage-Metadata.json\<close>, its indented JSON text
  and the strict reader. A Go slice is \<open>None\<close> when it is nil, because nil and empty slices have
  different JSON.
\<close>

definition SidecarVersion :: int where "SidecarVersion = 3"

definition BackupTypeFull :: string where "BackupTypeFull = ''full''"

definition BackupTypeIncremental :: string where "BackupTypeIncremental = ''incremental''"

record WALSegmentRecord =
  wr_Name :: string
  wr_Size :: int
  wr_SHA256 :: bytes

record Sidecar =
  sc_Version :: int
  sc_Server :: string
  sc_EncryptionRecipients :: "string slice"
  sc_Compression :: string
  sc_StorageLayoutVersion :: int
  sc_WALSegments :: "WALSegmentRecord slice"
  sc_SystemIdentifier :: nat
  sc_Directories :: "string slice"
  sc_Type :: string
  sc_ParentBackupID :: string
  sc_Annotation :: string
  sc_LockHeld :: bool

definition zero_WALSegmentRecord :: WALSegmentRecord where
  "zero_WALSegmentRecord = \<lparr>wr_Name = [], wr_Size = 0, wr_SHA256 = zero32\<rparr>"

definition zero_Sidecar :: Sidecar where
  "zero_Sidecar =
     \<lparr>sc_Version = 0, sc_Server = [], sc_EncryptionRecipients = None, sc_Compression = [],
      sc_StorageLayoutVersion = 0, sc_WALSegments = None, sc_SystemIdentifier = 0, sc_Directories = None,
      sc_Type = [], sc_ParentBackupID = [], sc_Annotation = [], sc_LockHeld = False\<rparr>"


section \<open>Writing\<close>

definition json_WALSegmentRecord :: "WALSegmentRecord \<Rightarrow> json" where
  "json_WALSegmentRecord r =
     JObj [(''name'', JStr (wr_Name r)), (''size'', json_int (wr_Size r)), (''sha256'', json_bytes (wr_SHA256 r))]"

text \<open>A field tagged \<open>omitempty\<close> is left out when it holds its zero value.\<close>

definition omit_if :: "bool \<Rightarrow> 'a \<Rightarrow> 'a list" where
  "omit_if z x = (if z then [] else [x])"

definition json_Sidecar :: "Sidecar \<Rightarrow> json" where
  "json_Sidecar s =
     JObj ([(''version'', json_int (sc_Version s)),
            (''server'', JStr (sc_Server s)),
            (''encryption_recipients'', json_slice JStr (sc_EncryptionRecipients s)),
            (''compression'', JStr (sc_Compression s)),
            (''storage_layout_version'', json_int (sc_StorageLayoutVersion s)),
            (''wal_segments'', json_slice json_WALSegmentRecord (sc_WALSegments s))]
           @ omit_if (sc_SystemIdentifier s = 0) (''system_identifier'', JNum (fmt_d (sc_SystemIdentifier s)))
           @ [(''directories'', json_slice JStr (sc_Directories s))]
           @ omit_if (sc_Type s = []) (''type'', JStr (sc_Type s))
           @ omit_if (sc_ParentBackupID s = []) (''parent_backup_id'', JStr (sc_ParentBackupID s))
           @ omit_if (sc_Annotation s = []) (''annotation'', JStr (sc_Annotation s))
           @ omit_if (\<not> sc_LockHeld s) (''lock_held'', JBool (sc_LockHeld s)))"

definition MarshalSidecar :: "Sidecar \<Rightarrow> bytes" where
  "MarshalSidecar s = json_MarshalIndent (json_Sidecar s)"


section \<open>Reading\<close>

definition fields_WALSegmentRecord :: "(string \<times> WALSegmentRecord dec) list" where
  "fields_WALSegmentRecord =
     [(''name'', dec_field wr_Name (\<lambda>a. wr_Name_update (\<lambda>_. a)) dec_string),
      (''size'', dec_field wr_Size (\<lambda>a. wr_Size_update (\<lambda>_. a)) dec_int64),
      (''sha256'', dec_field wr_SHA256 (\<lambda>a. wr_SHA256_update (\<lambda>_. a)) dec_bytes32)]"

definition fields_Sidecar :: "(string \<times> Sidecar dec) list" where
  "fields_Sidecar =
     [(''version'', dec_field sc_Version (\<lambda>a. sc_Version_update (\<lambda>_. a)) dec_int64),
      (''server'', dec_field sc_Server (\<lambda>a. sc_Server_update (\<lambda>_. a)) dec_string),
      (''encryption_recipients'',
         dec_field sc_EncryptionRecipients (\<lambda>a. sc_EncryptionRecipients_update (\<lambda>_. a)) (dec_slice dec_string [])),
      (''compression'', dec_field sc_Compression (\<lambda>a. sc_Compression_update (\<lambda>_. a)) dec_string),
      (''storage_layout_version'',
         dec_field sc_StorageLayoutVersion (\<lambda>a. sc_StorageLayoutVersion_update (\<lambda>_. a)) dec_int64),
      (''wal_segments'',
         dec_field sc_WALSegments (\<lambda>a. sc_WALSegments_update (\<lambda>_. a))
           (dec_slice (dec_struct fields_WALSegmentRecord) zero_WALSegmentRecord)),
      (''system_identifier'',
         dec_field sc_SystemIdentifier (\<lambda>a. sc_SystemIdentifier_update (\<lambda>_. a)) (dec_uint 64)),
      (''directories'', dec_field sc_Directories (\<lambda>a. sc_Directories_update (\<lambda>_. a)) (dec_slice dec_string [])),
      (''type'', dec_field sc_Type (\<lambda>a. sc_Type_update (\<lambda>_. a)) dec_string),
      (''parent_backup_id'', dec_field sc_ParentBackupID (\<lambda>a. sc_ParentBackupID_update (\<lambda>_. a)) dec_string),
      (''annotation'', dec_field sc_Annotation (\<lambda>a. sc_Annotation_update (\<lambda>_. a)) dec_string),
      (''lock_held'', dec_field sc_LockHeld (\<lambda>a. sc_LockHeld_update (\<lambda>_. a)) dec_bool)]"

definition UnmarshalSidecar :: "bytes \<Rightarrow> Sidecar res" where
  "UnmarshalSidecar data =
     (case json_Decode data of
        None \<Rightarrow> Inl (errors_New ''manifest: decode sidecar: syntax error'')
      | Some v \<Rightarrow>
          (case dec_struct fields_Sidecar zero_Sidecar v of
             None \<Rightarrow> Inl (errors_New ''manifest: decode sidecar: bad or unknown field'')
           | Some s \<Rightarrow> Inr s))"


section \<open>The round trip\<close>

text \<open>What the Go types guarantee: integers in range, digests of 32 bytes, well-formed strings.\<close>

definition WALSegmentRecord_ok :: "WALSegmentRecord \<Rightarrow> bool" where
  "WALSegmentRecord_ok r \<longleftrightarrow> valid_utf8 (wr_Name r) \<and> fits_int64 (wr_Size r) \<and> length (wr_SHA256 r) = 32"

definition Sidecar_ok :: "Sidecar \<Rightarrow> bool" where
  "Sidecar_ok s \<longleftrightarrow>
     fits_int64 (sc_Version s) \<and> valid_utf8 (sc_Server s) \<and> slice_all valid_utf8 (sc_EncryptionRecipients s) \<and>
     valid_utf8 (sc_Compression s) \<and> fits_int64 (sc_StorageLayoutVersion s) \<and>
     slice_all WALSegmentRecord_ok (sc_WALSegments s) \<and> sc_SystemIdentifier s < 2 ^ 64 \<and>
     slice_all valid_utf8 (sc_Directories s) \<and> valid_utf8 (sc_Type s) \<and> valid_utf8 (sc_ParentBackupID s) \<and>
     valid_utf8 (sc_Annotation s)"

lemma slice_all_mono: "slice_all p xs \<Longrightarrow> (\<And>x. p x \<Longrightarrow> q x) \<Longrightarrow> slice_all q xs"
  by (cases xs) (auto simp: slice_all_def list_all_iff)

lemma find_field_hd [simp]: "find_field ((k, f) # fs) k = Some f"
  by (simp add: find_field_def)

lemma dec_members_known:
  "map_of fs k = Some f \<Longrightarrow> f r v = Some r' \<Longrightarrow> dec_members fs r ((k, v) # kvs) = dec_members fs r' kvs"
  by (simp add: find_field_def)

lemma dec_WALSegmentRecord:
  assumes "WALSegmentRecord_ok r"
  shows "dec_struct fields_WALSegmentRecord zero_WALSegmentRecord (json_WALSegmentRecord r) = Some r"
  using assms
  by (simp add: dec_struct_def json_WALSegmentRecord_def dec_members_known fields_WALSegmentRecord_def
      find_field_def dec_field_def zero_WALSegmentRecord_def zero32_def WALSegmentRecord_ok_def)

lemma wf_json_Sidecar:
  assumes "Sidecar_ok s"
  shows "json_wf 10000 (json_Sidecar s)"
proof -
  have a: "ascii_string k \<Longrightarrow> valid_utf8 k" for k by (rule valid_utf8_ascii)
  have w: "slice_all (\<lambda>x. json_wf 9998 (json_WALSegmentRecord x)) (sc_WALSegments s)"
    using assms
    by (auto simp: Sidecar_ok_def json_WALSegmentRecord_def WALSegmentRecord_ok_def a ascii_string_def
        elim!: slice_all_mono)
  have strs: "slice_all (\<lambda>x. json_wf 9998 (JStr x)) (sc_EncryptionRecipients s)"
    "slice_all (\<lambda>x. json_wf 9998 (JStr x)) (sc_Directories s)"
    using assms by (auto simp: Sidecar_ok_def elim!: slice_all_mono)
  show ?thesis
    using assms w strs
    by (simp add: json_Sidecar_def Sidecar_ok_def json_wf_slice omit_if_def a ascii_string_def
        int_literal_fmt_d)
qed

lemma Sidecar_round_trip:
  assumes "Sidecar_ok s"
  shows "UnmarshalSidecar (MarshalSidecar s) = Inr s"
proof -
  have segs: "slice_all (\<lambda>x. dec_struct fields_WALSegmentRecord zero_WALSegmentRecord (json_WALSegmentRecord x) = Some x)
      (sc_WALSegments s)"
    using assms by (auto simp: Sidecar_ok_def dec_WALSegmentRecord elim!: slice_all_mono)
  have strs: "slice_all (\<lambda>x. dec_string [] (JStr x) = Some x) xs" for xs
    by (cases xs) (simp_all add: slice_all_def list_all_iff)
  note segs' = dec_slice_json_slice [where dec = "dec_struct fields_WALSegmentRecord"
      and zero = zero_WALSegmentRecord and f = json_WALSegmentRecord, OF segs]
  note strs' = dec_slice_json_slice [where dec = dec_string and zero = "[]" and f = JStr, OF strs]
  have "dec_struct fields_Sidecar zero_Sidecar (json_Sidecar s) = Some s"
    using assms
    by (simp add: dec_struct_def json_Sidecar_def fields_Sidecar_def find_field_def dec_field_def
        segs' strs' omit_if_def zero_Sidecar_def Sidecar_ok_def)
  then show ?thesis
    using json_Decode_MarshalIndent [OF wf_json_Sidecar [OF assms]]
    by (simp add: UnmarshalSidecar_def MarshalSidecar_def)
qed

text \<open>C24: reading back the sidecar text that was written gives the same sidecar, field by field.\<close>

theorem UnmarshalSidecar_MarshalSidecar:
  assumes "Sidecar_ok s"
  shows "UnmarshalSidecar (MarshalSidecar s) = Inr s"
  by (rule Sidecar_round_trip [OF assms])

definition example_sidecar :: Sidecar where
  "example_sidecar =
     \<lparr>sc_Version = SidecarVersion, sc_Server = ''main'', sc_EncryptionRecipients = Some [''age1abc''], sc_Compression = ''zstd'',
      sc_StorageLayoutVersion = 1,
      sc_WALSegments = Some [\<lparr>wr_Name = ''000000010000000000000002'', wr_Size = 16777216, wr_SHA256 = zero32\<rparr>],
      sc_SystemIdentifier = 7302841, sc_Directories = None, sc_Type = BackupTypeFull, sc_ParentBackupID = [],
      sc_Annotation = [], sc_LockHeld = False\<rparr>"

lemma example_sidecar_ok: "Sidecar_ok example_sidecar"
proof -
  have "ascii_string s \<Longrightarrow> valid_utf8 s" for s by (rule valid_utf8_ascii)
  then show ?thesis
    by (simp add: example_sidecar_def Sidecar_ok_def fits_int64_def slice_all_def WALSegmentRecord_ok_def
        ascii_string_def SidecarVersion_def BackupTypeFull_def zero32_def)
qed

theorem UnmarshalSidecar_MarshalSidecar_witness:
  "UnmarshalSidecar (MarshalSidecar example_sidecar) = Inr example_sidecar"
  by (rule UnmarshalSidecar_MarshalSidecar [OF example_sidecar_ok])

lemma dec_members_unknown:
  "(k, v) \<in> set kvs \<Longrightarrow> find_field fs k = None \<Longrightarrow> dec_members fs r kvs = None"
  by (induction fs r kvs rule: dec_members.induct) (auto split: option.splits)

text \<open>A sidecar document with a member that is no field of the sidecar is refused, so that an older
  binary notices a newer schema.\<close>

theorem UnmarshalSidecar_unknown_field:
  assumes "json_Decode doc = Some (JObj kvs)" "(k, v) \<in> set kvs" "find_field fields_Sidecar k = None"
  shows "\<exists>e. UnmarshalSidecar doc = Inl e"
  using assms(1) dec_members_unknown [OF assms(2,3)] by (simp add: UnmarshalSidecar_def dec_struct_def)

theorem UnmarshalSidecar_unknown_field_witness:
  "\<exists>e. UnmarshalSidecar (json_MarshalIndent (JObj [(''epoch'', JBool True)])) = Inl e"
proof (rule UnmarshalSidecar_unknown_field)
  have "ascii_string ''epoch''" by (simp add: ascii_string_def)
  then show "json_Decode (json_MarshalIndent (JObj [(''epoch'', JBool True)])) = Some (JObj [(''epoch'', JBool True)])"
    by (intro json_Decode_MarshalIndent) (simp add: valid_utf8_ascii)
  show "(''epoch'', JBool True) \<in> set [(''epoch'', JBool True)]" by simp
  show "find_field fields_Sidecar ''epoch'' = None"
    by (simp add: find_field_def fields_Sidecar_def foldName_def utf8_runes_ascii ascii_string_def fold_rune_def)
qed

end
