(* ===== verification/Wal_Wait.thy ===== *)
theory Wal_Wait
  imports Archive Sidecar
begin

text \<open>
  Waiting for the WAL of a backup: \<open>WaitForWAL\<close> and \<open>missingSegments\<close> (\<open>internal/backup/wallag.go\<close>),
  \<open>AcquireBracketWAL\<close> (\<open>walsource.go\<close>) and \<open>hashWALSegments\<close> (\<open>parsers.go\<close>).

  The wait polls the storage while other processes archive into it. \<open>now\<close> reads the clock and \<open>pause\<close>
  is the \<open>select\<close> over \<open>ctx.Done()\<close> and \<open>time.After(delay)\<close>: it returns the state of the world
  afterwards and the context's error when the context ended first. The loop has no bound of its own:
  it is a partial function, and that it ends is proved from the clock.
\<close>

record 's clock =
  c_Now :: "'s \<Rightarrow> gotime \<times> 's"
  c_Pause :: "duration \<Rightarrow> 's \<Rightarrow> goerr option \<times> 's"

fun missingSegments :: "('s, 'w) Backend \<Rightarrow> u32 \<Rightarrow> string list \<Rightarrow> ('s, string list) op" where
  "missingSegments b timeline [] s = (Inr [], s)"
| "missingSegments b timeline (name # names) s =
     (case FindSegment b timeline name s of
        (Inl e, s1) \<Rightarrow> (Inl e, s1)
      | (Inr (_, found), s1) \<Rightarrow>
          (case missingSegments b timeline names s1 of
             (Inl e, s2) \<Rightarrow> (Inl e, s2)
           | (Inr out, s2) \<Rightarrow> (Inr (if found then out else name # out), s2)))"

definition time_Millisecond :: duration where
  "time_Millisecond = 1000000"

definition fmt_v :: "string list \<Rightarrow> string" where
  "fmt_v xs = ''['' @ strings_Join (CHR '' '') xs @ '']''"

definition wal_timeout :: "string list \<Rightarrow> goerr" where
  "wal_timeout missing = GoErr ErrWALWait (''backup: WAL-wait: timeout; missing '' @ fmt_v missing)"

partial_function (option) wait_loop ::
  "'s clock \<Rightarrow> ('s, 'w) Backend \<Rightarrow> u32 \<Rightarrow> string list \<Rightarrow> gotime \<Rightarrow> duration \<Rightarrow> 's \<Rightarrow> (unit res \<times> 's) option" where
  "wait_loop c b timeline segments deadline delay s =
     (case missingSegments b timeline segments s of
        (Inl e, s1) \<Rightarrow> Some (Inl (wrapErr ''WAL-wait'' e), s1)
      | (Inr missing, s1) \<Rightarrow>
          if missing = [] then Some (Inr (), s1)
          else (case c_Now c s1 of
                  (t, s2) \<Rightarrow>
                    if deadline < t then Some (Inl (wal_timeout missing), s2)
                    else (case c_Pause c delay s2 of
                            (Some e, s3) \<Rightarrow> Some (Inl (wrapErr ''WAL-wait'' e), s3)
                          | (None, s3) \<Rightarrow>
                              wait_loop c b timeline segments deadline
                                (if delay < 2 * time_Second then delay * 2 else delay) s3)))"

definition WaitForWAL ::
  "'s clock \<Rightarrow> ('s, 'w) Backend option \<Rightarrow> u32 \<Rightarrow> string list \<Rightarrow> duration \<Rightarrow> 's \<Rightarrow> (unit res \<times> 's) option" where
  "WaitForWAL c b timeline segments timeout s =
     (if segments = [] then Some (Inr (), s)
      else case b of
             None \<Rightarrow> Some (Inl (errors_New ''WAL-wait: backend is required''), s)
           | Some bk \<Rightarrow>
               (case c_Now c s of
                  (t, s1) \<Rightarrow> wait_loop c bk timeline segments (t + timeout) (50 * time_Millisecond) s1))"


section \<open>Sources of the bracket WAL\<close>

definition WALSourceArchive :: string where "WALSourceArchive = ''archive''"
definition WALSourceStream :: string where "WALSourceStream = ''stream''"
definition WALSourceWalgrab :: string where "WALSourceWalgrab = ''walgrab''"

record ('s, 'w) AcquireOptions =
  aq_Backend :: "('s, 'w) Backend option"
  aq_Timeline :: u32
  aq_StartLSN :: LSN
  aq_StopLSN :: LSN
  aq_SegSize :: int
  aq_Timeout :: duration
  aq_WALSource :: string

definition walRecordsNeeded :: "string \<Rightarrow> bool" where
  "walRecordsNeeded s \<longleftrightarrow> s = [] \<or> s = WALSourceArchive"

definition AcquireBracketWAL ::
  "'s clock \<Rightarrow> ('s, 'w) AcquireOptions \<Rightarrow> 's \<Rightarrow> (string list res \<times> 's) option" where
  "AcquireBracketWAL c opts s =
     (let source = (if aq_WALSource opts = [] then WALSourceArchive else aq_WALSource opts) in
      case WALSegmentsBetween (aq_Timeline opts) (aq_StartLSN opts) (aq_StopLSN opts) (aq_SegSize opts) of
        None \<Rightarrow> None
      | Some segments \<Rightarrow>
          if source = WALSourceArchive then
            (case WaitForWAL c (aq_Backend opts) (aq_Timeline opts) segments (aq_Timeout opts) s of
               None \<Rightarrow> None
             | Some (Inl e, s1) \<Rightarrow> Some (Inl e, s1)
             | Some (Inr _, s1) \<Rightarrow> Some (Inr segments, s1))
          else if source = WALSourceStream then Some (Inr segments, s)
          else if source = WALSourceWalgrab then Some (Inr segments, s)
          else Some (Inl (errors_New (''unknown WAL source '' @ source)), s))"

fun hash_segments ::
  "('s, 'w) Backend \<Rightarrow> u32 \<Rightarrow> string list \<Rightarrow> WALSegmentRecord list \<Rightarrow> ('s, WALSegmentRecord list) op" where
  "hash_segments b timeline [] out s = (Inr out, s)"
| "hash_segments b timeline (n # ns) out s =
     (case FindSegment b timeline n s of
        (Inl e, s1) \<Rightarrow> (Inl (wrapErr ''hashWALSegments'' e), s1)
      | (Inr (key, found), s1) \<Rightarrow>
          if \<not> found then (Inl (errors_New (''hashWALSegments: '' @ n @ '' not found in storage'')), s1)
          else (case b_Get b key s1 of
                  (Inl e, s2) \<Rightarrow> (Inl (wrapErr (''hashWALSegments: backend.Get '' @ key) e), s2)
                | (Inr (d, Some e), s2) \<Rightarrow> (Inl (wrapErr (''hashWALSegments: read '' @ key) e), s2)
                | (Inr (d, None), s2) \<Rightarrow>
                    hash_segments b timeline ns
                      (out @ [\<lparr>wr_Name = n, wr_Size = int (length d), wr_SHA256 = sha256 d\<rparr>]) s2))"

definition hashWALSegments :: "('s, 'w) Backend \<Rightarrow> u32 \<Rightarrow> string list \<Rightarrow> ('s, WALSegmentRecord list) op" where
  "hashWALSegments b timeline names s = hash_segments b timeline names [] s"


section \<open>The wait ends, and with the right answer\<close>

text \<open>A finished copy of the segment is stored.\<close>

definition archived :: "(string \<Rightarrow> bytes option) \<Rightarrow> u32 \<Rightarrow> string \<Rightarrow> bool" where
  "archived v tli n \<longleftrightarrow> (\<exists>k. v k \<noteq> None \<and> segment_copy tli n k)"

text \<open>What the sidecar records of a segment: the size and the SHA-256 of its only stored copy.\<close>

definition segment_record :: "(string \<Rightarrow> bytes option) \<Rightarrow> u32 \<Rightarrow> string \<Rightarrow> WALSegmentRecord \<Rightarrow> bool" where
  "segment_record v tli n rec \<longleftrightarrow>
     (\<exists>k d. {x. v x \<noteq> None \<and> segment_copy tli n x} = {k} \<and> v k = Some d \<and>
        rec = \<lparr>wr_Name = n, wr_Size = int (length d), wr_SHA256 = sha256 d\<rparr>)"

context named_backend
begin

lemma missingSegments_facts:
  assumes "inv s" "key (SegmentDir tli)" "missingSegments B tli names s = (r, s')"
  shows "inv s' \<and> view s' = view s \<and> (\<forall>out. r = Inr out \<longrightarrow> out = filter (\<lambda>n. \<not> archived (view s) tli n) names)"
  using assms
proof (induction names arbitrary: s r s')
  case (Cons n ns)
  obtain rf s1 where f: "FindSegment B tli n s = (rf, s1)" by (cases "FindSegment B tli n s")
  note ff = FindSegment_facts [OF Cons.prems(1,2) f]
  obtain rm s2 where m: "missingSegments B tli ns s1 = (rm, s2)" by (cases "missingSegments B tli ns s1")
  have ih: "inv s2 \<and> view s2 = view s \<and> (\<forall>out. rm = Inr out \<longrightarrow> out = filter (\<lambda>n. \<not> archived (view s) tli n) ns)"
    using Cons.IH [OF _ Cons.prems(2) m] ff by (simp add: archived_def)
  have found: "archived (view s) tli n" if "rf = Inr (k, True)" for k
  proof -
    have "{x. view s x \<noteq> None \<and> segment_copy tli n x} = {k}" using ff that by blast
    then show ?thesis unfolding archived_def by blast
  qed
  have lost: "\<not> archived (view s) tli n" if "rf = Inr (k, False)" for k
  proof -
    have "{x. view s x \<noteq> None \<and> segment_copy tli n x} = {}" using ff that by blast
    then show ?thesis unfolding archived_def by blast
  qed
  show ?case
  proof (cases rf)
    case (Inl e)
    then show ?thesis using Cons.prems(3) f ff by auto
  next
    case (Inr kf)
    obtain k found' where kf: "kf = (k, found')" by (cases kf)
    show ?thesis using Cons.prems(3) f Inr kf m ih found [of k] lost [of k]
      by (cases rm; cases found') auto
  qed
qed auto

lemma hash_segments_facts:
  assumes "inv s" "key (SegmentDir tli)" "hash_segments B tli names out s = (Inr recs, s')"
  shows "inv s' \<and> view s' = view s \<and> (\<exists>rs. recs = out @ rs \<and> list_all2 (segment_record (view s) tli) names rs)"
  using assms
proof (induction names arbitrary: out s)
  case (Cons n ns)
  obtain rf s1 where f: "FindSegment B tli n s = (rf, s1)" by (cases "FindSegment B tli n s")
  note ff = FindSegment_facts [OF Cons.prems(1,2) f]
  from Cons.prems(3) f obtain k where k: "rf = Inr (k, True)" by (auto split: sum.splits if_splits)
  then have only: "{x. view s x \<noteq> None \<and> segment_copy tli n x} = {k}" using ff by blast
  then have key: "key k" using view_key [OF Cons.prems(1)] by blast
  from Cons.prems(3) f k obtain d s2 where g: "b_Get B k s1 = (Inr (d, None), s2)"
    and rest: "hash_segments B tli ns (out @ [\<lparr>wr_Name = n, wr_Size = int (length d), wr_SHA256 = sha256 d\<rparr>]) s2 = (Inr recs, s')"
    by (auto split: sum.splits prod.splits option.splits)
  have s1: "inv s1" "view s1 = view s" using ff by blast+
  have s2: "inv s2" "view s2 = view s" using get [OF s1(1) key g] s1 by auto
  have "view s k = Some d" using get_data [OF s1(1) key g] s1 by simp
  with only have "segment_record (view s) tli n \<lparr>wr_Name = n, wr_Size = int (length d), wr_SHA256 = sha256 d\<rparr>"
    unfolding segment_record_def by auto
  with Cons.IH [OF s2(1) Cons.prems(2) rest] s2(2) show ?case by auto
qed simp

end

text \<open>
  What the wait needs of the world: reading the clock changes no stored file and gives the time
  \<open>tm\<close>; a pause that is not interrupted lasts at least as long as asked for, and whatever other
  processes did meanwhile kept the storage well-formed; listing does not turn the clock back.
\<close>

definition world_ok :: "PosixBackend \<Rightarrow> pfs clock \<Rightarrow> (pfs \<Rightarrow> gotime) \<Rightarrow> bool" where
  "world_ok r c tm \<longleftrightarrow>
     (\<forall>s t s'. posix_inv r s \<longrightarrow> c_Now c s = (t, s') \<longrightarrow>
        posix_inv r s' \<and> posix_view r s' = posix_view r s \<and> t = tm s' \<and> tm s \<le> tm s') \<and>
     (\<forall>s d e s'. posix_inv r s \<longrightarrow> c_Pause c d s = (e, s') \<longrightarrow>
        posix_inv r s' \<and> tm s \<le> tm s' \<and> (e = None \<longrightarrow> tm s + d \<le> tm s')) \<and>
     (\<forall>s p. tm s \<le> tm (snd (b_List (posix_backend r) p s)))"

lemma missingSegments_clock:
  assumes "\<And>s p. tm s \<le> tm (snd (b_List b p s))"
  shows "tm s \<le> (tm (snd (missingSegments b tli names s)) :: int)"
proof (induction names arbitrary: s)
  case (Cons n ns)
  have "snd (FindSegment b tli n s) = snd (b_List b (SegmentDir tli) s)"
    by (auto simp: FindSegment_def Let_def split: prod.splits sum.splits list.splits)
  then have "tm s \<le> tm (snd (FindSegment b tli n s))" using assms by simp
  moreover note Cons.IH [of "snd (FindSegment b tli n s)"]
  ultimately show ?case by (auto split: prod.splits sum.splits)
qed simp

definition wait_result :: "PosixBackend \<Rightarrow> (pfs \<Rightarrow> gotime) \<Rightarrow> u32 \<Rightarrow> string list \<Rightarrow> gotime \<Rightarrow> unit res \<Rightarrow> pfs \<Rightarrow> bool" where
  "wait_result r tm tli names deadline res s' \<longleftrightarrow>
     posix_inv r s' \<and>
     (res = Inr () \<and> (\<forall>n \<in> set names. archived (posix_view r s') tli n) \<or>
      (\<exists>missing. res = Inl (wal_timeout missing) \<and> deadline < tm s' \<and> missing \<noteq> [] \<and>
         set missing = {n \<in> set names. \<not> archived (posix_view r s') tli n}) \<or>
      (\<exists>e. res = Inl (wrapErr ''WAL-wait'' e)))"

lemma wait_loop_result:
  assumes w: "world_ok r c tm" and dir: "posix_key (SegmentDir tli)" and inv: "posix_inv r s" and d: "0 < delay"
  shows "\<exists>res s'. wait_loop c (posix_backend r) tli names deadline delay s = Some (res, s') \<and>
     wait_result r tm tli names deadline res s'"
  using inv d
proof (induction "nat (deadline + 1 - tm s)" arbitrary: s delay rule: less_induct)
  case less
  obtain rm s1 where m: "missingSegments (posix_backend r) tli names s = (rm, s1)"
    by (cases "missingSegments (posix_backend r) tli names s")
  note mf = pnamed.missingSegments_facts [OF less.prems(1) dir m]
  have mono: "tm x \<le> tm (snd (b_List (posix_backend r) p x))" for x p using w unfolding world_ok_def by blast
  have t1: "tm s \<le> tm s1"
    using missingSegments_clock [of tm "posix_backend r" s tli names, OF mono] unfolding m by simp
  show ?case
  proof (cases "\<exists>e. rm = Inl e \<or> rm = Inr []")
    case True
    then consider e where "rm = Inl e" | "rm = Inr []" by blast
    then show ?thesis
    proof cases
      case 1
      then have "wait_loop c (posix_backend r) tli names deadline delay s = Some (Inl (wrapErr ''WAL-wait'' e), s1)"
        using m by (subst wait_loop.simps) simp
      then show ?thesis using mf by (auto simp: wait_result_def)
    next
      case 2
      then have "wait_loop c (posix_backend r) tli names deadline delay s = Some (Inr (), s1)"
        using m by (subst wait_loop.simps) simp
      moreover have "\<forall>n \<in> set names. archived (posix_view r s1) tli n"
        using mf 2 by (metis (mono_tags, lifting) filter_empty_conv)
      ultimately show ?thesis using mf by (auto simp: wait_result_def)
    qed
  next
    case False
    then obtain x xs where out: "rm = Inr (x # xs)" by (cases rm) (auto simp: neq_Nil_conv)
    obtain t s2 where now: "c_Now c s1 = (t, s2)" by (cases "c_Now c s1")
    have n: "posix_inv r s2" "posix_view r s2 = posix_view r s" "t = tm s2" "tm s1 \<le> tm s2"
      using w [unfolded world_ok_def, THEN conjunct1, rule_format, OF _ now] mf by simp_all
    have gone: "x # xs = filter (\<lambda>n. \<not> archived (posix_view r s2) tli n) names"
      using mf out n(2) by (simp add: archived_def)
    show ?thesis
    proof (cases "deadline < t")
      case True
      have "wait_loop c (posix_backend r) tli names deadline delay s = Some (Inl (wal_timeout (x # xs)), s2)"
        using m out now True by (subst wait_loop.simps) simp
      moreover have "wait_result r tm tli names deadline (Inl (wal_timeout (x # xs))) s2"
      proof -
        have "set (x # xs) = {m \<in> set names. \<not> archived (posix_view r s2) tli m}" unfolding gone by auto
        then show ?thesis using n(1,3) True unfolding wait_result_def by blast
      qed
      ultimately show ?thesis by blast
    next
      case False
      obtain e s3 where p: "c_Pause c delay s2 = (e, s3)" by (cases "c_Pause c delay s2")
      have q: "posix_inv r s3" "e = None \<Longrightarrow> tm s2 + delay \<le> tm s3"
        using w [unfolded world_ok_def, THEN conjunct2, THEN conjunct1, rule_format, OF n(1) p] by simp_all
      show ?thesis
      proof (cases e)
        case (Some e')
        then have "wait_loop c (posix_backend r) tli names deadline delay s = Some (Inl (wrapErr ''WAL-wait'' e'), s3)"
          using m out now False p by (subst wait_loop.simps) simp
        then show ?thesis using q(1) by (auto simp: wait_result_def)
      next
        case None
        let ?d = "if delay < 2 * time_Second then delay * 2 else delay"
        have "nat (deadline + 1 - tm s3) < nat (deadline + 1 - tm s)"
          using q(2) [OF None] t1 n(3,4) False less.prems(2) by simp
        from less.hyps [OF this q(1), of ?d] less.prems(2) m out now False p None show ?thesis
          by (subst wait_loop.simps) simp
      qed
    qed
  qed
qed


text \<open>A world in which a pause lets the clock, counted by the system calls, run on.\<close>

definition example_clock :: "pfs clock" where
  "example_clock = \<lparr>c_Now = (\<lambda>s. (int (fs_tick s), s)), c_Pause = (\<lambda>d s. (None, s\<lparr>fs_tick := fs_tick s + nat d\<rparr>))\<rparr>"

lemma example_world: "world_ok example_root example_clock (\<lambda>s. int (fs_tick s))"
  unfolding world_ok_def
proof (intro conjI allI impI)
  show "int (fs_tick s) \<le> int (fs_tick (snd (b_List (posix_backend example_root) p s)))" for s p
    by (auto simp: posix_backend_def posix_List_def os_Stat_def tick_def split: prod.splits sum.splits option.splits)
  show "posix_inv example_root s'" if "posix_inv example_root s" "c_Pause example_clock d s = (e, s')" for s d e s'
    using that quiet_inv [of s s' example_root] by (auto simp: example_clock_def quiet_def)
qed (auto simp: example_clock_def)


text \<open>C27: The WAL records of a backup describe what is stored: when \<open>hashWALSegments\<close> succeeds it gives one
  record per name, in order, with the length and the SHA-256 of the bytes of that segment's only
  finished copy.\<close>

theorem hashWALSegments_records:
  assumes "posix_inv r s" "posix_key (SegmentDir tli)"
    "hashWALSegments (posix_backend r) tli names s = (Inr recs, s')"
  shows "list_all2 (segment_record (posix_view r s) tli) names recs \<and> posix_view r s' = posix_view r s"
  using pnamed.hash_segments_facts [OF assms(1,2) assms(3) [unfolded hashWALSegments_def]] by auto

theorem hashWALSegments_records_witness:
  "\<exists>s'. hashWALSegments (posix_backend example_root) 1 [example_segment] (example_archive (replicate 32 (CHR 0x00))) =
       (Inr [\<lparr>wr_Name = example_segment, wr_Size = 3, wr_SHA256 = sha256 ''old''\<rparr>], s') \<and>
     list_all2 (segment_record (posix_view example_root (example_archive (replicate 32 (CHR 0x00)))) 1) [example_segment]
       [\<lparr>wr_Name = example_segment, wr_Size = 3, wr_SHA256 = sha256 ''old''\<rparr>]"
proof -
  define s where "s = example_archive (replicate 32 (CHR 0x00))"
  define k where "k = SegmentKey 1 example_segment (replicate 32 (CHR 0x00))"
  define f where "f = FindSegment (posix_backend example_root) 1 example_segment s"
  define g where "g = b_Get (posix_backend example_root) k (snd f)"
  have "fst f = Inr (k, True)" unfolding f_def s_def k_def by code_simp
  then have 1: "FindSegment (posix_backend example_root) 1 example_segment s = (Inr (k, True), snd f)"
    unfolding f_def [symmetric] by (metis prod.collapse)
  have "fst g = Inr (''old'', None)" unfolding g_def f_def s_def k_def by code_simp
  then have 2: "b_Get (posix_backend example_root) k (snd f) = (Inr (''old'', None), snd g)"
    unfolding g_def [symmetric] by (metis prod.collapse)
  have run: "hashWALSegments (posix_backend example_root) 1 [example_segment] s =
      (Inr [\<lparr>wr_Name = example_segment, wr_Size = 3, wr_SHA256 = sha256 ''old''\<rparr>], snd g)"
    by (simp add: hashWALSegments_def 1 2)
  have "posix_key (SegmentDir 1)" by (rule archive_keys(1) [OF example_archivable(1)])
  from hashWALSegments_records [OF example_archive_inv this run [unfolded s_def]] run show ?thesis
    unfolding s_def by blast
qed

end
