(* ===== verification/Tee_Writer.thy ===== *)
theory Tee_Writer
  imports Storage
begin

text \<open>
  \<open>internal/storage/multi/multi.go\<close>: the \<open>TeeWriter\<close> that fans one byte stream out to several sinks,
  one goroutine each, over buffered channels.

  The caller's goroutine and the workers run concurrently; a state holds the program counter of the
  caller and, per worker, its channel, its \<open>fail\<close> flag and its result. \<open>main_step\<close> and \<open>worker_step\<close> are
  the atomic steps (one channel operation, one write to a sink); \<open>tee_step\<close> interleaves them in any
  order. The sinks are outside this package: \<open>sw i got c\<close> is what sink \<open>i\<close> answers to the write of
  \<open>c\<close> after it took \<open>got\<close>, and \<open>sc i got\<close> what it answers to \<open>Close\<close>. \<open>tw_hist\<close> records the payloads of
  the \<open>Write\<close> calls so far; the code has no such variable and no step reads it.
\<close>


section \<open>State\<close>

datatype pc =
    Idle
  | Checking bytes nat nat
  | Sending bytes nat nat
  | Closing nat
  | Waiting
  | Closed

record tee_worker =
  wk_present :: bool
  wk_linked :: bool
  wk_closed :: bool
  wk_failed :: bool
  wk_done :: bool
  wk_queue :: "bytes list"
  wk_got :: "bytes list"
  wk_err :: "goerr option"

record TeeWriter =
  tw_workers :: "tee_worker list"
  tw_pc :: pc
  tw_hist :: "bytes list"
  tw_res :: "unit res"

type_synonym sink_write = "nat \<Rightarrow> bytes list \<Rightarrow> bytes \<Rightarrow> goerr option"
type_synonym sink_close = "nat \<Rightarrow> bytes list \<Rightarrow> goerr option"

definition DefaultBufDepth :: nat where
  "DefaultBufDepth = 256"

definition new_worker :: "bool \<Rightarrow> tee_worker" where
  "new_worker present =
     \<lparr>wk_present = present, wk_linked = present, wk_closed = False, wk_failed = False, wk_done = False,
      wk_queue = [], wk_got = [], wk_err = (if present then None else Some (errors_New ''multi: nil sink''))\<rparr>"

text \<open>\<open>New\<close>: which of the sinks are not nil.\<close>

definition NewWithDepth :: "bool list \<Rightarrow> TeeWriter" where
  "NewWithDepth sinks = \<lparr>tw_workers = map new_worker sinks, tw_pc = Idle, tw_hist = [], tw_res = Inr ()\<rparr>"


section \<open>Steps\<close>

abbreviation set_worker :: "nat \<Rightarrow> tee_worker \<Rightarrow> TeeWriter \<Rightarrow> TeeWriter" where
  "set_worker i w s \<equiv> s\<lparr>tw_workers := (tw_workers s)[i := w]\<rparr>"

definition all_failed :: "unit res" where
  "all_failed = Inl (errors_New ''multi: all backends failed'')"

text \<open>
  The caller: the two \<open>select\<close>s of \<open>Write\<close> for each worker in turn, then the count; \<open>Close\<close> closes the
  channels one after the other, waits for the workers and looks at their results. When both cases of
  the second \<open>select\<close> are ready, \<open>c\<close> says which one is taken. \<open>None\<close>: blocked, or nothing to do.
\<close>

definition main_step :: "nat \<Rightarrow> bool \<Rightarrow> TeeWriter \<Rightarrow> TeeWriter option" where
  "main_step depth c s =
     (case tw_pc s of
        Checking p i live \<Rightarrow>
          (if length (tw_workers s) \<le> i
           then Some (s\<lparr>tw_pc := Idle, tw_res := (if live = 0 then all_failed else Inr ())\<rparr>)
           else let w = tw_workers s ! i in
                if \<not> wk_linked w then Some (s\<lparr>tw_pc := Checking p (Suc i) live\<rparr>)
                else if wk_failed w
                then Some (set_worker i (w\<lparr>wk_linked := False\<rparr>) s\<lparr>tw_pc := Checking p (Suc i) live\<rparr>)
                else Some (s\<lparr>tw_pc := Sending p i live\<rparr>))
      | Sending p i live \<Rightarrow>
          (let w = tw_workers s ! i; room = (length (wk_queue w) < depth) in
           if wk_failed w \<and> (c \<or> \<not> room)
           then Some (set_worker i (w\<lparr>wk_linked := False\<rparr>) s\<lparr>tw_pc := Checking p (Suc i) live\<rparr>)
           else if room
           then Some (set_worker i (w\<lparr>wk_queue := wk_queue w @ [p]\<rparr>) s\<lparr>tw_pc := Checking p (Suc i) (Suc live)\<rparr>)
           else None)
      | Closing i \<Rightarrow>
          (if length (tw_workers s) \<le> i then Some (s\<lparr>tw_pc := Waiting\<rparr>)
           else let w = tw_workers s ! i in
                Some (set_worker i (w\<lparr>wk_closed := wk_present w\<rparr>) s\<lparr>tw_pc := Closing (Suc i)\<rparr>))
      | Waiting \<Rightarrow>
          (if list_all (\<lambda>w. wk_present w \<longrightarrow> wk_done w) (tw_workers s)
           then Some (s\<lparr>tw_pc := Closed,
                        tw_res := (if list_ex (\<lambda>w. wk_err w = None) (tw_workers s) then Inr () else all_failed)\<rparr>)
           else None)
      | Idle \<Rightarrow> None
      | Closed \<Rightarrow> None)"

text \<open>One round of a worker's loop: take a payload, or close the sink when the channel is closed and empty.\<close>

definition worker_step :: "sink_write \<Rightarrow> sink_close \<Rightarrow> nat \<Rightarrow> TeeWriter \<Rightarrow> TeeWriter option" where
  "worker_step sw sc i s =
     (if length (tw_workers s) \<le> i then None
      else let w = tw_workers s ! i in
        if \<not> wk_present w \<or> wk_done w then None
        else case wk_queue w of
               chunk # q \<Rightarrow>
                 if wk_failed w then Some (set_worker i (w\<lparr>wk_queue := q\<rparr>) s)
                 else (case sw i (wk_got w) chunk of
                         Some e \<Rightarrow> Some (set_worker i (w\<lparr>wk_queue := q, wk_err := Some e, wk_failed := True\<rparr>) s)
                       | None \<Rightarrow> Some (set_worker i (w\<lparr>wk_queue := q, wk_got := wk_got w @ [chunk]\<rparr>) s))
             | [] \<Rightarrow>
                 if \<not> wk_closed w then None
                 else if wk_failed w then Some (set_worker i (w\<lparr>wk_done := True\<rparr>) s)
                 else Some (set_worker i (w\<lparr>wk_done := True, wk_err := sc i (wk_got w)\<rparr>) s))"

text \<open>The calls: the caller is one goroutine and makes one at a time, and none after \<open>Close\<close>.\<close>

definition call_Write :: "bytes \<Rightarrow> TeeWriter \<Rightarrow> TeeWriter" where
  "call_Write p s = s\<lparr>tw_pc := Checking p 0 0, tw_hist := tw_hist s @ [p]\<rparr>"

definition call_Close :: "TeeWriter \<Rightarrow> TeeWriter" where
  "call_Close s = s\<lparr>tw_pc := Closing 0\<rparr>"

inductive tee_step :: "sink_write \<Rightarrow> sink_close \<Rightarrow> nat \<Rightarrow> TeeWriter \<Rightarrow> TeeWriter \<Rightarrow> bool"
  for sw sc depth where
  main: "main_step depth c s = Some s' \<Longrightarrow> tee_step sw sc depth s s'"
| work: "worker_step sw sc i s = Some s' \<Longrightarrow> tee_step sw sc depth s s'"

inductive tee_reach :: "sink_write \<Rightarrow> sink_close \<Rightarrow> nat \<Rightarrow> bool list \<Rightarrow> TeeWriter \<Rightarrow> bool"
  for sw sc depth sinks where
  start: "tee_reach sw sc depth sinks (NewWithDepth sinks)"
| step: "tee_reach sw sc depth sinks s \<Longrightarrow> tee_step sw sc depth s s' \<Longrightarrow> tee_reach sw sc depth sinks s'"
| call_write: "tee_reach sw sc depth sinks s \<Longrightarrow> tw_pc s = Idle \<Longrightarrow> tee_reach sw sc depth sinks (call_Write p s)"
| call_close: "tee_reach sw sc depth sinks s \<Longrightarrow> tw_pc s = Idle \<Longrightarrow> tee_reach sw sc depth sinks (call_Close s)"

inductive_cases tee_stepE: "tee_step sw sc depth s s'"

text \<open>\<open>Results\<close> and \<open>LiveIndices\<close>, valid after \<open>Close\<close>.\<close>

definition Results :: "TeeWriter \<Rightarrow> goerr option list" where
  "Results s = map wk_err (tw_workers s)"

definition LiveIndices :: "TeeWriter \<Rightarrow> nat list" where
  "LiveIndices s = filter (\<lambda>i. Results s ! i = None) [0..<length (Results s)]"


section \<open>What a sink sees\<close>

text \<open>One sink on its own: the payloads in order until one fails, then \<open>Close\<close>.\<close>

fun sink_run :: "sink_write \<Rightarrow> sink_close \<Rightarrow> nat \<Rightarrow> bytes list \<Rightarrow> bytes list \<Rightarrow> bytes list \<times> goerr option" where
  "sink_run sw sc i got [] = (got, sc i got)"
| "sink_run sw sc i got (c # cs) =
     (case sw i got c of Some e \<Rightarrow> (got, Some e) | None \<Rightarrow> sink_run sw sc i (got @ [c]) cs)"

text \<open>All the writes of \<open>cs\<close> after \<open>got\<close> succeed.\<close>

fun writes_ok :: "sink_write \<Rightarrow> nat \<Rightarrow> bytes list \<Rightarrow> bytes list \<Rightarrow> bool" where
  "writes_ok sw i got [] \<longleftrightarrow> True"
| "writes_ok sw i got (c # cs) \<longleftrightarrow> sw i got c = None \<and> writes_ok sw i (got @ [c]) cs"

lemma writes_ok_snoc:
  "writes_ok sw i g (cs @ [c]) \<longleftrightarrow> writes_ok sw i g cs \<and> sw i (g @ cs) c = None"
  by (induction cs arbitrary: g) auto

lemma sink_run_ok: "writes_ok sw i g cs \<Longrightarrow> sink_run sw sc i g cs = (g @ cs, sc i (g @ cs))"
  by (induction cs arbitrary: g) auto

lemma sink_run_fail:
  "writes_ok sw i g cs \<Longrightarrow> sw i (g @ cs) c = Some e \<Longrightarrow> sink_run sw sc i g (cs @ c # rest) = (g @ cs, Some e)"
  by (induction cs arbitrary: g) auto


section \<open>The invariant\<close>

text \<open>What the worker \<open>i\<close> has been sent: everything but the payload the caller is still to hand it.\<close>

definition sent :: "TeeWriter \<Rightarrow> nat \<Rightarrow> bytes list" where
  "sent s i =
     (case tw_pc s of
        Checking p j live \<Rightarrow> if j \<le> i then butlast (tw_hist s) else tw_hist s
      | Sending p j live \<Rightarrow> if j \<le> i then butlast (tw_hist s) else tw_hist s
      | _ \<Rightarrow> tw_hist s)"

definition pc_ok :: "TeeWriter \<Rightarrow> bool" where
  "pc_ok s \<longleftrightarrow>
     (case tw_pc s of
        Checking p j live \<Rightarrow> tw_hist s \<noteq> [] \<and> last (tw_hist s) = p \<and> j \<le> length (tw_workers s)
      | Sending p j live \<Rightarrow> tw_hist s \<noteq> [] \<and> last (tw_hist s) = p \<and> j < length (tw_workers s) \<and> wk_linked (tw_workers s ! j)
      | Closing j \<Rightarrow> j \<le> length (tw_workers s)
      | _ \<Rightarrow> True)"

definition worker_ok :: "sink_write \<Rightarrow> sink_close \<Rightarrow> nat \<Rightarrow> bytes list \<Rightarrow> bytes list \<Rightarrow> tee_worker \<Rightarrow> bool" where
  "worker_ok sw sc i snt hist w \<longleftrightarrow>
     (if \<not> wk_present w then \<not> wk_linked w \<and> \<not> wk_closed w \<and> wk_err w \<noteq> None
      else
        writes_ok sw i [] (wk_got w) \<and> (wk_done w \<longrightarrow> wk_closed w \<and> wk_queue w = []) \<and>
        (if wk_failed w
         then \<exists>c e rest. hist = wk_got w @ c # rest \<and> sw i (wk_got w) c = Some e \<and> wk_err w = Some e
         else wk_linked w \<and> wk_got w @ wk_queue w = snt \<and> wk_err w = (if wk_done w then sc i (wk_got w) else None)))"

definition closed_ok :: "TeeWriter \<Rightarrow> bool" where
  "closed_ok s \<longleftrightarrow>
     (\<forall>i < length (tw_workers s). wk_closed (tw_workers s ! i) \<longleftrightarrow>
        wk_present (tw_workers s ! i) \<and>
        (case tw_pc s of Closing j \<Rightarrow> i < j | Waiting \<Rightarrow> True | Closed \<Rightarrow> True | _ \<Rightarrow> False))"

definition tee_inv :: "sink_write \<Rightarrow> sink_close \<Rightarrow> TeeWriter \<Rightarrow> bool" where
  "tee_inv sw sc s \<longleftrightarrow>
     pc_ok s \<and> closed_ok s \<and>
     (\<forall>i < length (tw_workers s). worker_ok sw sc i (sent s i) (tw_hist s) (tw_workers s ! i)) \<and>
     (tw_pc s = Closed \<longrightarrow> (\<forall>w \<in> set (tw_workers s). wk_present w \<longrightarrow> wk_done w))"

lemmas tee_defs = tee_inv_def pc_ok_def closed_ok_def sent_def

lemma tee_inv_start: "tee_inv sw sc (NewWithDepth sinks)"
  by (auto simp: tee_defs worker_ok_def NewWithDepth_def new_worker_def)

lemma tee_inv_call_Write: "tee_inv sw sc s \<Longrightarrow> tw_pc s = Idle \<Longrightarrow> tee_inv sw sc (call_Write p s)"
  by (auto simp: tee_defs worker_ok_def call_Write_def split: if_splits)

lemma tee_inv_call_Close: "tee_inv sw sc s \<Longrightarrow> tw_pc s = Idle \<Longrightarrow> tee_inv sw sc (call_Close s)"
  by (auto simp: tee_defs worker_ok_def call_Close_def split: if_splits)

text \<open>A step of the caller or of a worker changes one worker at most.\<close>

lemma tee_invI:
  assumes inv: "tee_inv sw sc s" and i: "i < length (tw_workers s)"
    and s': "tw_workers s' = (tw_workers s)[i := w']" "tw_hist s' = tw_hist s"
    and w': "worker_ok sw sc i (sent s' i) (tw_hist s) w'"
    and others: "\<And>j. j \<noteq> i \<Longrightarrow> j < length (tw_workers s) \<Longrightarrow> sent s' j = sent s j"
    and pc: "pc_ok s'" "closed_ok s'" "tw_pc s' = Closed \<Longrightarrow> \<forall>w \<in> set (tw_workers s'). wk_present w \<longrightarrow> wk_done w"
  shows "tee_inv sw sc s'"
proof -
  have "worker_ok sw sc j (sent s' j) (tw_hist s') (tw_workers s' ! j)" if "j < length (tw_workers s')" for j
  proof (cases "j = i")
    case True
    then show ?thesis using w' s' i by simp
  next
    case False
    then show ?thesis using inv others [OF False] that s' by (simp add: tee_inv_def)
  qed
  then show ?thesis using pc by (simp add: tee_inv_def)
qed

lemma sent_prefix: "pc_ok s \<Longrightarrow> \<exists>rest. tw_hist s = sent s i @ rest"
  by (auto simp: pc_ok_def sent_def split: pc.splits intro: exI [of _ "[]"] exI [of _ "[last (tw_hist s)]"])

lemma worker_step_inv:
  assumes inv: "tee_inv sw sc s" and st: "worker_step sw sc i s = Some s'"
  shows "tee_inv sw sc s'"
proof -
  let ?w = "tw_workers s ! i"
  have i: "i < length (tw_workers s)" and w: "wk_present ?w" "\<not> wk_done ?w"
    using st by (auto simp: worker_step_def Let_def split: if_splits)
  obtain w' where s': "s' = set_worker i w' s" and same: "wk_present w' = wk_present ?w" "wk_closed w' = wk_closed ?w" "wk_linked w' = wk_linked ?w"
    using st by (auto simp: worker_step_def Let_def split: if_splits list.splits option.splits)
  have sent': "sent s' j = sent s j" for j by (simp add: s' sent_def split: pc.splits)
  have ok: "worker_ok sw sc i (sent s i) (tw_hist s) ?w" and pc: "pc_ok s" "closed_ok s" "tw_pc s \<noteq> Closed"
    using inv i w by (auto simp: tee_inv_def)
  obtain rest where rest: "tw_hist s = sent s i @ rest" using sent_prefix [OF pc(1)] by blast
  have eq: "set_worker i a s = set_worker i b s \<longleftrightarrow> a = b" for a b
  proof
    assume "set_worker i a s = set_worker i b s"
    then have "(tw_workers s)[i := a] ! i = (tw_workers s)[i := b] ! i" by (metis TeeWriter.select_convs(1) TeeWriter.surjective TeeWriter.update_convs(1))
    then show "a = b" using i by simp
  qed simp
  have "worker_ok sw sc i (sent s i) (tw_hist s) w'"
    using st ok w i unfolding s' worker_step_def Let_def
    by (auto simp: eq worker_ok_def writes_ok_snoc split: if_splits list.splits option.splits)
       (use rest in \<open>metis append.assoc append_Cons\<close>)+
  then show ?thesis
  proof (intro tee_invI [OF inv i, of s' w'])
    show "pc_ok s'" using pc(1) same i by (auto simp: pc_ok_def s' nth_list_update split: pc.splits)
    show "closed_ok s'" using pc(2) same i by (auto simp: closed_ok_def s' nth_list_update)
  qed (use s' sent' pc(3) in auto)
qed

text \<open>Two steps of the caller that touch no worker, and its steps at one worker.\<close>

lemma tee_inv_same:
  assumes inv: "tee_inv sw sc s" and s': "tw_workers s' = tw_workers s" "tw_hist s' = tw_hist s"
    and sent': "\<And>j. j < length (tw_workers s) \<Longrightarrow> sent s' j = sent s j \<or> \<not> wk_linked (tw_workers s ! j)"
    and pc: "pc_ok s'" "closed_ok s'" "tw_pc s' = Closed \<Longrightarrow> \<forall>w \<in> set (tw_workers s'). wk_present w \<longrightarrow> wk_done w"
  shows "tee_inv sw sc s'"
proof -
  have "worker_ok sw sc j (sent s' j) (tw_hist s') (tw_workers s' ! j)" if j: "j < length (tw_workers s')" for j
  proof -
    have ok: "worker_ok sw sc j (sent s j) (tw_hist s) (tw_workers s ! j)" using inv j s' by (simp add: tee_inv_def)
    consider "sent s' j = sent s j" | "\<not> wk_linked (tw_workers s ! j)" using sent' [of j] j s' by auto
    then show ?thesis using ok unfolding s' by cases (auto simp: worker_ok_def split: if_splits)
  qed
  then show ?thesis using pc by (simp add: tee_inv_def)
qed

lemma main_step_inv:
  assumes inv: "tee_inv sw sc s" and st: "main_step depth c s = Some s'"
  shows "tee_inv sw sc s'"
proof (cases "tw_pc s")
  case (Checking p i live)
  have pc: "tw_hist s \<noteq> []" "last (tw_hist s) = p" "i \<le> length (tw_workers s)" and cl: "closed_ok s"
    using inv Checking by (auto simp: tee_inv_def pc_ok_def)
  let ?w = "tw_workers s ! i"
  consider (finish) r where "i = length (tw_workers s)" "s' = s\<lparr>tw_pc := Idle, tw_res := r\<rparr>"
    | (skip) "i < length (tw_workers s)" "\<not> wk_linked ?w" "s' = s\<lparr>tw_pc := Checking p (Suc i) live\<rparr>"
    | (fail) "i < length (tw_workers s)" "wk_linked ?w" "wk_failed ?w"
        "s' = set_worker i (?w\<lparr>wk_linked := False\<rparr>) s\<lparr>tw_pc := Checking p (Suc i) live\<rparr>"
    | (go) "i < length (tw_workers s)" "wk_linked ?w" "s' = s\<lparr>tw_pc := Sending p i live\<rparr>"
    using st pc(3) by (auto simp: main_step_def Checking Let_def split: if_splits)
  then show ?thesis
  proof cases
    case finish
    show ?thesis
      by (rule tee_inv_same [OF inv]) (use finish Checking cl in \<open>auto simp: sent_def pc_ok_def closed_ok_def\<close>)
  next
    case skip
    show ?thesis
      by (rule tee_inv_same [OF inv]) (use skip Checking pc cl in \<open>auto simp: sent_def pc_ok_def closed_ok_def dest: le_neq_implies_less\<close>)
  next
    case fail
    have "worker_ok sw sc i (sent s i) (tw_hist s) ?w" using inv fail by (simp add: tee_inv_def)
    then have "worker_ok sw sc i (sent s' i) (tw_hist s) (?w\<lparr>wk_linked := False\<rparr>)"
      using fail by (auto simp: worker_ok_def split: if_splits)
    then show ?thesis
      by (rule tee_invI [OF inv fail(1), rotated 2])
         (use fail Checking pc cl in \<open>auto simp: sent_def pc_ok_def closed_ok_def nth_list_update\<close>)
  next
    case go
    show ?thesis
      by (rule tee_inv_same [OF inv]) (use go Checking pc cl in \<open>auto simp: sent_def pc_ok_def closed_ok_def\<close>)
  qed
next
  case (Sending p i live)
  have pc: "tw_hist s \<noteq> []" "last (tw_hist s) = p" "i < length (tw_workers s)" "wk_linked (tw_workers s ! i)" and cl: "closed_ok s"
    using inv Sending by (auto simp: tee_inv_def pc_ok_def)
  let ?w = "tw_workers s ! i"
  have ok: "worker_ok sw sc i (sent s i) (tw_hist s) ?w" using inv pc by (simp add: tee_inv_def)
  have nd: "\<not> wk_closed ?w" using cl pc(3) Sending by (auto simp: closed_ok_def)
  consider (fail) "wk_failed ?w" "s' = set_worker i (?w\<lparr>wk_linked := False\<rparr>) s\<lparr>tw_pc := Checking p (Suc i) live\<rparr>"
    | (put) "s' = set_worker i (?w\<lparr>wk_queue := wk_queue ?w @ [p]\<rparr>) s\<lparr>tw_pc := Checking p (Suc i) (Suc live)\<rparr>"
    using st by (auto simp: main_step_def Sending Let_def split: if_splits)
  then show ?thesis
  proof cases
    case fail
    with ok have "worker_ok sw sc i (sent s' i) (tw_hist s) (?w\<lparr>wk_linked := False\<rparr>)"
      by (auto simp: worker_ok_def split: if_splits)
    then show ?thesis
      by (rule tee_invI [OF inv pc(3), rotated 2])
         (use fail Sending pc cl in \<open>auto simp: sent_def pc_ok_def closed_ok_def nth_list_update\<close>)
  next
    case put
    have "sent s i @ [p] = sent s' i"
      using pc put Sending by (simp add: sent_def) (metis append_butlast_last_id)
    with ok nd have "worker_ok sw sc i (sent s' i) (tw_hist s) (?w\<lparr>wk_queue := wk_queue ?w @ [p]\<rparr>)"
      by (auto simp: worker_ok_def pc(4) simp flip: append_assoc split: if_splits)
    then show ?thesis
      by (rule tee_invI [OF inv pc(3), rotated 2])
         (use put Sending pc cl in \<open>auto simp: sent_def pc_ok_def closed_ok_def nth_list_update\<close>)
  qed
next
  case (Closing i)
  have pc: "i \<le> length (tw_workers s)" and cl: "closed_ok s" using inv Closing by (auto simp: tee_inv_def pc_ok_def)
  let ?w = "tw_workers s ! i"
  consider "i = length (tw_workers s)" "s' = s\<lparr>tw_pc := Waiting\<rparr>"
    | "i < length (tw_workers s)" "s' = set_worker i (?w\<lparr>wk_closed := wk_present ?w\<rparr>) s\<lparr>tw_pc := Closing (Suc i)\<rparr>"
    using st pc by (auto simp: main_step_def Closing Let_def split: if_splits)
  then show ?thesis
  proof cases
    case 1
    show ?thesis
      by (rule tee_inv_same [OF inv]) (use 1 Closing cl in \<open>auto simp: sent_def pc_ok_def closed_ok_def\<close>)
  next
    case 2
    have "worker_ok sw sc i (sent s i) (tw_hist s) ?w" using inv 2 by (simp add: tee_inv_def)
    then have "worker_ok sw sc i (sent s' i) (tw_hist s) (?w\<lparr>wk_closed := wk_present ?w\<rparr>)"
      using 2 Closing by (auto simp: worker_ok_def sent_def split: if_splits)
    then show ?thesis
      by (rule tee_invI [OF inv 2(1), rotated 2])
         (use 2 Closing cl in \<open>auto simp: sent_def pc_ok_def closed_ok_def nth_list_update less_Suc_eq\<close>)
  qed
next
  case Waiting
  then obtain r where s': "s' = s\<lparr>tw_pc := Closed, tw_res := r\<rparr>"
    and d: "\<forall>w \<in> set (tw_workers s). wk_present w \<longrightarrow> wk_done w"
    using st by (auto simp: main_step_def list_all_iff split: if_splits)
  show ?thesis
    by (rule tee_inv_same [OF inv]) (use s' d Waiting inv in \<open>auto simp: sent_def pc_ok_def closed_ok_def tee_inv_def\<close>)
qed (use st in \<open>auto simp: main_step_def\<close>)

lemma tee_reach_inv: "tee_reach sw sc depth sinks s \<Longrightarrow> tee_inv sw sc s"
  by (induction rule: tee_reach.induct)
     (auto simp: tee_inv_start elim!: tee_stepE intro: main_step_inv worker_step_inv tee_inv_call_Write tee_inv_call_Close)


section \<open>Results\<close>

lemma tee_closed_result:
  assumes "tee_inv sw sc s" "tw_pc s = Closed" "i < length (tw_workers s)" "wk_present (tw_workers s ! i)"
  shows "(wk_got (tw_workers s ! i), wk_err (tw_workers s ! i)) = sink_run sw sc i [] (tw_hist s)"
proof -
  let ?w = "tw_workers s ! i"
  have "wk_done ?w" "worker_ok sw sc i (sent s i) (tw_hist s) ?w" "sent s i = tw_hist s"
    using assms by (auto simp: tee_inv_def sent_def)
  then show ?thesis
    using assms(4) sink_run_ok [of sw i "[]" "wk_got ?w" sc] sink_run_fail [of sw i "[]" "wk_got ?w" _ _ sc]
    by (auto simp: worker_ok_def split: if_splits)
qed

lemma tee_workers_length: "tee_reach sw sc depth sinks s \<Longrightarrow> length (tw_workers s) = length sinks"
  by (induction rule: tee_reach.induct)
     (auto simp: NewWithDepth_def call_Write_def call_Close_def main_step_def worker_step_def Let_def elim!: tee_stepE
        split: pc.splits if_splits list.splits option.splits)

lemma present_upd:
  "wk_present w = wk_present (ws ! k) \<Longrightarrow> i < length ws \<Longrightarrow> wk_present (ws[k := w] ! i) = wk_present (ws ! i)"
  by (cases "k < length ws") (auto simp: nth_list_update)

lemma tee_present: "tee_reach sw sc depth sinks s \<Longrightarrow> i < length sinks \<Longrightarrow> wk_present (tw_workers s ! i) = sinks ! i"
proof (induction rule: tee_reach.induct)
  case (step s s')
  have "length (tw_workers s) = length sinks" using tee_workers_length [OF step.hyps(1)] .
  with step show ?case
    by (auto simp: main_step_def worker_step_def Let_def present_upd elim!: tee_stepE
        split: pc.splits if_splits list.splits option.splits)
qed (auto simp: NewWithDepth_def new_worker_def call_Write_def call_Close_def)

text \<open>The caller's answer after \<open>Close\<close>.\<close>

lemma tee_closed_res:
  "tee_reach sw sc depth sinks s \<Longrightarrow> tw_pc s = Closed \<Longrightarrow>
     tw_res s = (if list_ex (\<lambda>w. wk_err w = None) (tw_workers s) then Inr () else all_failed)"
proof (induction rule: tee_reach.induct)
  case (step s s')
  have d: "\<forall>w \<in> set (tw_workers s). wk_present w \<longrightarrow> wk_done w" if "tw_pc s = Closed"
    using tee_reach_inv [OF step.hyps(1)] that by (simp add: tee_inv_def)
  from step.hyps(2) consider c where "main_step depth c s = Some s'" | i where "worker_step sw sc i s = Some s'"
    by (rule tee_stepE)
  then show ?case
  proof cases
    case 1
    then show ?thesis using step.prems
      by (auto simp: main_step_def Let_def split: pc.splits if_splits)
  next
    case 2
    then have i: "i < length (tw_workers s)" "tw_pc s = Closed" "wk_present (tw_workers s ! i)" "\<not> wk_done (tw_workers s ! i)"
      using step.prems by (auto simp: worker_step_def Let_def split: if_splits list.splits option.splits)
    then show ?thesis using d [OF i(2)] nth_mem [OF i(1)] by blast
  qed
qed (auto simp: NewWithDepth_def call_Write_def call_Close_def)


section \<open>Progress\<close>

definition pc_weight :: "nat \<Rightarrow> pc \<Rightarrow> nat" where
  "pc_weight n c = (case c of Idle \<Rightarrow> 0 | Checking p i live \<Rightarrow> 3 * (n - i) + 1 | Sending p i live \<Rightarrow> 3 * (n - i)
      | Closing i \<Rightarrow> (n - i) + 2 | Waiting \<Rightarrow> 1 | Closed \<Rightarrow> 0)"

definition worker_weight :: "tee_worker \<Rightarrow> nat" where
  "worker_weight w = length (wk_queue w) + (if wk_done w then 0 else 1)"

definition tee_weight :: "TeeWriter \<Rightarrow> nat" where
  "tee_weight s = pc_weight (length (tw_workers s)) (tw_pc s) + sum_list (map worker_weight (tw_workers s))"

lemma weight_upd:
  "i < length ws \<Longrightarrow> sum_list (map worker_weight (ws[i := w])) + worker_weight (ws ! i) =
     sum_list (map worker_weight ws) + worker_weight w"
proof (induction ws arbitrary: i)
  case (Cons a ws)
  then show ?case by (cases i) auto
qed simp

lemma tee_step_weight:
  assumes "tee_inv sw sc s" "tee_step sw sc depth s s'"
  shows "tee_weight s' < tee_weight s"
proof -
  from assms(2) consider c where "main_step depth c s = Some s'" | i where "worker_step sw sc i s = Some s'"
    by (rule tee_stepE)
  then show ?thesis
proof cases
  case 1
  have pc: "pc_ok s" using assms(1) by (simp add: tee_inv_def)
  show ?thesis
  proof (cases "tw_pc s")
    case (Checking p i live)
    then show ?thesis using 1 pc weight_upd [of i "tw_workers s" "(tw_workers s ! i)\<lparr>wk_linked := False\<rparr>"]
      by (auto simp: main_step_def tee_weight_def pc_weight_def worker_weight_def Let_def split: if_splits)
  next
    case (Sending p i live)
    then have i: "i < length (tw_workers s)" using pc by (simp add: pc_ok_def)
    show ?thesis using 1 Sending i weight_upd [of i "tw_workers s" "(tw_workers s ! i)\<lparr>wk_linked := False\<rparr>"]
        weight_upd [of i "tw_workers s" "(tw_workers s ! i)\<lparr>wk_queue := wk_queue (tw_workers s ! i) @ [p]\<rparr>"]
      by (auto simp: main_step_def tee_weight_def pc_weight_def worker_weight_def Let_def split: if_splits)
  next
    case (Closing i)
    then show ?thesis using 1 pc weight_upd [of i "tw_workers s" "(tw_workers s ! i)\<lparr>wk_closed := wk_present (tw_workers s ! i)\<rparr>"]
      by (auto simp: main_step_def tee_weight_def pc_weight_def worker_weight_def Let_def split: if_splits)
  qed (use 1 in \<open>auto simp: main_step_def tee_weight_def pc_weight_def split: if_splits\<close>)
next
  case 2
  then obtain w' where i: "i < length (tw_workers s)" "s' = set_worker i w' s" "worker_weight w' < worker_weight (tw_workers s ! i)"
    by (auto simp: worker_step_def Let_def worker_weight_def split: if_splits list.splits option.splits)
  then show ?thesis using weight_upd [OF i(1), of w'] by (simp add: tee_weight_def)
qed
qed

lemma tee_progress:
  assumes inv: "tee_inv sw sc s" and "0 < depth" and pc: "tw_pc s \<noteq> Idle" "tw_pc s \<noteq> Closed"
  shows "\<exists>s'. tee_step sw sc depth s s'"
proof -
  have busy: "\<exists>s'. worker_step sw sc i s = Some s'"
    if "i < length (tw_workers s)" "wk_present (tw_workers s ! i)" "\<not> wk_done (tw_workers s ! i)"
      "wk_queue (tw_workers s ! i) \<noteq> [] \<or> wk_closed (tw_workers s ! i)" for i
    using that by (auto simp: worker_step_def Let_def split: list.splits option.splits)
  show ?thesis
  proof (cases "\<exists>s'. main_step depth False s = Some s'")
    case True
    then show ?thesis by (auto intro: tee_step.main)
  next
    case False
    from pc False consider p i live where "tw_pc s = Sending p i live" | "tw_pc s = Waiting"
      by (cases "tw_pc s") (auto simp: main_step_def Let_def split: if_splits)
    then have "\<exists>i s'. worker_step sw sc i s = Some s'"
    proof cases
      case 1
      then have i: "i < length (tw_workers s)" "wk_linked (tw_workers s ! i)" "\<not> wk_closed (tw_workers s ! i)"
        "worker_ok sw sc i (sent s i) (tw_hist s) (tw_workers s ! i)"
        using inv by (auto simp: tee_inv_def pc_ok_def closed_ok_def)
      have "wk_queue (tw_workers s ! i) \<noteq> []" using False 1 assms(2) by (auto simp: main_step_def Let_def split: if_splits)
      with i show ?thesis using busy [of i] by (auto simp: worker_ok_def split: if_splits)
    next
      case 2
      then obtain i where i: "i < length (tw_workers s)" "wk_present (tw_workers s ! i)" "\<not> wk_done (tw_workers s ! i)"
        using False by (auto simp: main_step_def list_all_iff in_set_conv_nth split: if_splits)
      moreover have "wk_closed (tw_workers s ! i)" using inv 2 i by (auto simp: tee_inv_def closed_ok_def)
      ultimately show ?thesis using busy [of i] by blast
    qed
    then show ?thesis by (blast intro: tee_step.work)
  qed
qed

lemma tee_steps_weight:
  assumes "tee_inv sw sc s" "(tee_step sw sc depth ^^ n) s s'"
  shows "tee_inv sw sc s' \<and> n + tee_weight s' \<le> tee_weight s"
  using assms(2)
proof (induction n arbitrary: s')
  case (Suc n)
  then obtain t where t: "(tee_step sw sc depth ^^ n) s t" "tee_step sw sc depth t s'" by auto
  note ih = Suc.IH [OF t(1)]
  have "tee_inv sw sc s'" using ih t(2) by (auto elim!: tee_stepE intro: main_step_inv worker_step_inv)
  then show ?case using ih tee_step_weight [of sw sc t depth s'] t(2) by simp
qed (use assms(1) in simp)


section \<open>Properties\<close>

text \<open>C5: However the goroutines are scheduled, once \<open>Close\<close> has returned every sink has seen what it would
  have seen alone: the payloads of all \<open>Write\<close> calls in order up to its first failing write, then
  \<open>Close\<close>; \<open>Results\<close> holds its first error, and \<open>Close\<close> returns nil exactly when some sink has none.\<close>

theorem TeeWriter_refines_sinks:
  assumes "tee_reach sw sc depth sinks s" "tw_pc s = Closed"
  shows "(\<forall>i < length sinks. sinks ! i \<longrightarrow>
           (wk_got (tw_workers s ! i), Results s ! i) = sink_run sw sc i [] (tw_hist s)) \<and>
         (tw_res s = Inr () \<longleftrightarrow> LiveIndices s \<noteq> [])"
proof -
  note inv = tee_reach_inv [OF assms(1)] and len = tee_workers_length [OF assms(1)]
  have "(wk_got (tw_workers s ! i), Results s ! i) = sink_run sw sc i [] (tw_hist s)" if "i < length sinks" "sinks ! i" for i
    using tee_closed_result [OF inv assms(2), of i] tee_present [OF assms(1) that(1)] that len by (simp add: Results_def)
  moreover have "list_ex (\<lambda>w. wk_err w = None) (tw_workers s) \<longleftrightarrow> LiveIndices s \<noteq> []"
    by (auto simp: list_ex_length LiveIndices_def Results_def filter_empty_conv)
  ultimately show ?thesis using tee_closed_res [OF assms] by (auto simp: all_failed_def)
qed

text \<open>C28: Invariant 10, failures stay where they happen: a sink that never fails has received every payload
  and has no error once \<open>Close\<close> has returned, whatever the other sinks did, and \<open>Close\<close> returns nil.\<close>

theorem TeeWriter_isolates:
  assumes "tee_reach sw sc depth sinks s" "tw_pc s = Closed" "i < length sinks" "sinks ! i"
    "\<And>got c. sw i got c = None" "\<And>got. sc i got = None"
  shows "wk_got (tw_workers s ! i) = tw_hist s \<and> Results s ! i = None \<and> tw_res s = Inr ()"
proof -
  note inv = tee_reach_inv [OF assms(1)] and len = tee_workers_length [OF assms(1)]
  have "writes_ok sw i g cs" for g cs using assms(5) by (induction cs arbitrary: g) auto
  then have "sink_run sw sc i [] (tw_hist s) = (tw_hist s, None)" using sink_run_ok [of sw i "[]" "tw_hist s" sc] assms(6) by simp
  then have r: "wk_got (tw_workers s ! i) = tw_hist s" "wk_err (tw_workers s ! i) = None"
    using tee_closed_result [OF inv assms(2), of i] tee_present [OF assms(1,3)] assms(3,4) len by simp_all
  then have "list_ex (\<lambda>w. wk_err w = None) (tw_workers s)" using assms(3) len by (auto simp: list_ex_length)
  then show ?thesis using r tee_closed_res [OF assms(1,2)] assms(3) len by (simp add: Results_def)
qed



section \<open>A run\<close>

text \<open>Two sinks, the first of which refuses its first payload; one payload is written.\<close>

datatype act = AMain bool | AWork nat | AWrite bytes | AClose

definition act_step :: "sink_write \<Rightarrow> sink_close \<Rightarrow> nat \<Rightarrow> act \<Rightarrow> TeeWriter \<Rightarrow> TeeWriter option" where
  "act_step sw sc depth a s =
     (case a of
        AMain c \<Rightarrow> main_step depth c s
      | AWork i \<Rightarrow> worker_step sw sc i s
      | AWrite p \<Rightarrow> if tw_pc s = Idle then Some (call_Write p s) else None
      | AClose \<Rightarrow> if tw_pc s = Idle then Some (call_Close s) else None)"

fun act_run :: "sink_write \<Rightarrow> sink_close \<Rightarrow> nat \<Rightarrow> act list \<Rightarrow> TeeWriter \<Rightarrow> TeeWriter option" where
  "act_run sw sc depth [] s = Some s"
| "act_run sw sc depth (a # as) s =
     (case act_step sw sc depth a s of Some s' \<Rightarrow> act_run sw sc depth as s' | None \<Rightarrow> None)"

lemma act_run_reach:
  "tee_reach sw sc depth sinks s \<Longrightarrow> act_run sw sc depth as s = Some s' \<Longrightarrow> tee_reach sw sc depth sinks s'"
proof (induction as arbitrary: s)
  case (Cons a as)
  then obtain t where t: "act_step sw sc depth a s = Some t" "act_run sw sc depth as t = Some s'"
    by (auto split: option.splits)
  have "tee_reach sw sc depth sinks t"
    using t(1) Cons.prems(1) unfolding act_step_def
    by (cases a) (auto split: if_splits intro: tee_reach.call_write tee_reach.call_close
        tee_reach.step [OF _ tee_step.main] tee_reach.step [OF _ tee_step.work])
  with Cons.IH t(2) show ?case by blast
qed simp

definition example_sw :: sink_write where
  "example_sw i got c = (if i = 0 then Some (errors_New ''disk full'') else None)"

definition example_sc :: sink_close where
  "example_sc i got = None"

definition example_schedule :: "act list" where
  "example_schedule = [AWrite ''ab'', AMain False, AMain False, AWork 0, AMain False, AMain False, AMain False,
     AClose, AMain False, AMain False, AMain False, AWork 1, AWork 0, AWork 1, AMain False]"

definition example_end :: TeeWriter where
  "example_end = the (act_run example_sw example_sc 1 example_schedule (NewWithDepth [True, True]))"

lemma example_run:
  "tee_reach example_sw example_sc 1 [True, True] example_end" "tw_pc example_end = Closed"
  "tw_hist example_end = [''ab'']" "wk_got (tw_workers example_end ! 1) = [''ab'']"
  "Results example_end = [Some (errors_New ''disk full''), None]"
proof -
  have "\<exists>s. act_run example_sw example_sc 1 example_schedule (NewWithDepth [True, True]) = Some s"
    by (simp add: example_schedule_def act_step_def NewWithDepth_def new_worker_def call_Write_def call_Close_def
        main_step_def worker_step_def Let_def example_sw_def example_sc_def)
  then have "act_run example_sw example_sc 1 example_schedule (NewWithDepth [True, True]) = Some example_end"
    by (auto simp: example_end_def)
  from act_run_reach [OF tee_reach.start this] show "tee_reach example_sw example_sc 1 [True, True] example_end" .
  show "tw_pc example_end = Closed" "tw_hist example_end = [''ab'']" "wk_got (tw_workers example_end ! 1) = [''ab'']"
    "Results example_end = [Some (errors_New ''disk full''), None]"
    by code_simp+
qed

theorem TeeWriter_refines_sinks_witness:
  "tw_hist example_end = [''ab''] \<and>
   (wk_got (tw_workers example_end ! 0), Results example_end ! 0) = sink_run example_sw example_sc 0 [] (tw_hist example_end) \<and>
   (wk_got (tw_workers example_end ! 1), Results example_end ! 1) = sink_run example_sw example_sc 1 [] (tw_hist example_end) \<and>
   (tw_res example_end = Inr () \<longleftrightarrow> LiveIndices example_end \<noteq> [])"
proof -
  note t = TeeWriter_refines_sinks [OF example_run(1,2)]
  from conjunct1 [OF t, rule_format, of 0] conjunct1 [OF t, rule_format, of 1] conjunct2 [OF t] show ?thesis
    by (simp add: example_run(3))
qed

theorem TeeWriter_isolates_witness:
  "wk_got (tw_workers example_end ! 1) = tw_hist example_end \<and> Results example_end ! 1 = None \<and> tw_res example_end = Inr ()"
  by (rule TeeWriter_isolates [OF example_run(1,2)]) (simp_all add: example_sw_def example_sc_def)


end
