(* ===== verification/Multi_State.thy ===== *)
theory Multi_State
  imports Tee_Writer Posix_Example
begin

text \<open>
  \<open>multiState\<close> of \<open>internal/backup/backup.go\<close>: one backup written to several backends, with a flag per
  backend that has failed. Every backend has a state of its own. A file goes through a \<open>TeeWriter\<close>;
  by \<open>TeeWriter_refines_sinks\<close> its sinks do not see each other, so what one of them does is written
  down for one backend (\<open>sink_backend\<close>) and the lists are traversed in order.
\<close>

record ('s, 'w) multiState =
  ms_backends :: "('s, 'w) Backend list"
  ms_dead :: "bool list"

definition newMultiState :: "('s, 'w) Backend list \<Rightarrow> ('s, 'w) multiState" where
  "newMultiState bs = \<lparr>ms_backends = bs, ms_dead = replicate (length bs) False\<rparr>"

text \<open>The loop of \<open>putMulti\<close>: the sinks with their indices, the flags and the states afterwards.\<close>

fun put_each :: "string \<Rightarrow> nat \<Rightarrow> ('s, 'w) Backend list \<Rightarrow> bool list \<Rightarrow> 's list \<Rightarrow> (nat \<times> 'w) list \<times> bool list \<times> 's list" where
  "put_each relPath i (b # bs) (d # ds) (s # ss) =
     (if d then (case put_each relPath (Suc i) bs ds ss of (sinks, ds', ss') \<Rightarrow> (sinks, d # ds', s # ss'))
      else case b_Put b relPath s of
             (Inl e, s') \<Rightarrow> (case put_each relPath (Suc i) bs ds ss of (sinks, ds', ss') \<Rightarrow> (sinks, True # ds', s' # ss'))
           | (Inr wc, s') \<Rightarrow> (case put_each relPath (Suc i) bs ds ss of (sinks, ds', ss') \<Rightarrow> ((i, wc) # sinks, False # ds', s' # ss')))"
| "put_each relPath i _ ds ss = ([], ds, ss)"

definition putMulti ::
  "string \<Rightarrow> ('s, 'w) multiState \<Rightarrow> 's list \<Rightarrow> (nat \<times> 'w) list res \<times> ('s, 'w) multiState \<times> 's list" where
  "putMulti relPath ms ss =
     (case put_each relPath 0 (ms_backends ms) (ms_dead ms) ss of
        (sinks, ds, ss') \<Rightarrow>
          (if sinks = [] then Inl (errors_New ''backup: all backends dead'') else Inr sinks, ms\<lparr>ms_dead := ds\<rparr>, ss'))"

text \<open>One sink of the \<open>TeeWriter\<close>: write the payloads until one fails, close.\<close>

fun sink_backend :: "('s, 'w) Backend \<Rightarrow> 'w \<Rightarrow> bytes list \<Rightarrow> 's \<Rightarrow> goerr option \<times> 's" where
  "sink_backend b wc [] s = (case b_Close b wc s of (Inl e, s') \<Rightarrow> (Some e, s') | (Inr _, s') \<Rightarrow> (None, s'))"
| "sink_backend b wc (c # cs) s =
     (case b_Write b wc c s of
        (Inl e, s') \<Rightarrow> (Some e, snd (b_Close b wc s'))
      | (Inr _, s') \<Rightarrow> sink_backend b wc cs s')"

fun tee_backends :: "('s, 'w) Backend list \<Rightarrow> (nat \<times> 'w) list \<Rightarrow> bytes list \<Rightarrow> 's list \<Rightarrow> goerr option list \<times> 's list" where
  "tee_backends bs [] cs ss = ([], ss)"
| "tee_backends bs ((i, wc) # sinks) cs ss =
     (case sink_backend (bs ! i) wc cs (ss ! i) of
        (e, s') \<Rightarrow> (case tee_backends bs sinks cs (ss[i := s']) of (es, ss') \<Rightarrow> (e # es, ss')))"

fun merge :: "goerr option list \<Rightarrow> nat list \<Rightarrow> bool list \<Rightarrow> bool list" where
  "merge (e # es) (i # is) ds = merge es is (if e \<noteq> None then ds[i := True] else ds)"
| "merge _ _ ds = ds"

text \<open>
  \<open>writeMultiFileAtomic\<close>. The one \<open>Write\<close> finds every channel empty and no sink failed yet, so it
  succeeds; \<open>Close\<close> fails when every sink has an error, and the flags are then left as they are.
\<close>

definition writeMultiFileAtomic ::
  "string \<Rightarrow> bytes \<Rightarrow> ('s, 'w) multiState \<Rightarrow> 's list \<Rightarrow> unit res \<times> ('s, 'w) multiState \<times> 's list" where
  "writeMultiFileAtomic relPath d ms ss =
     (case putMulti relPath ms ss of
        (Inl e, ms1, ss1) \<Rightarrow> (Inl e, ms1, ss1)
      | (Inr sinks, ms1, ss1) \<Rightarrow>
          (case tee_backends (ms_backends ms1) sinks [d] ss1 of
             (errs, ss2) \<Rightarrow>
               if \<not> list_ex (\<lambda>e. e = None) errs then (all_failed, ms1, ss2)
               else (Inr (), ms1\<lparr>ms_dead := merge errs (map fst sinks) (ms_dead ms1)\<rparr>, ss2)))"

fun commit_each :: "string \<Rightarrow> string \<Rightarrow> ('s, 'w) Backend list \<Rightarrow> bool list \<Rightarrow> 's list \<Rightarrow> nat \<times> goerr option \<times> bool list \<times> 's list" where
  "commit_each tmp final (b # bs) (d # ds) (s # ss) =
     (if d then (case commit_each tmp final bs ds ss of (n, le, ds', ss') \<Rightarrow> (n, le, d # ds', s # ss'))
      else case b_Commit b tmp final s of
             (Inl e, s') \<Rightarrow>
               (case commit_each tmp final bs ds ss of
                  (n, le, ds', ss') \<Rightarrow> (n, (case le of Some x \<Rightarrow> Some x | None \<Rightarrow> Some e), True # ds', s' # ss'))
           | (Inr _, s') \<Rightarrow> (case commit_each tmp final bs ds ss of (n, le, ds', ss') \<Rightarrow> (Suc n, le, False # ds', s' # ss')))"
| "commit_each tmp final _ ds ss = (0, None, ds, ss)"

definition commitMulti ::
  "string \<Rightarrow> string \<Rightarrow> ('s, 'w) multiState \<Rightarrow> 's list \<Rightarrow> (nat \<times> goerr option) \<times> ('s, 'w) multiState \<times> 's list" where
  "commitMulti tmp final ms ss =
     (case commit_each tmp final (ms_backends ms) (ms_dead ms) ss of
        (n, le, ds, ss') \<Rightarrow> ((n, le), ms\<lparr>ms_dead := ds\<rparr>, ss'))"

definition failedCount :: "('s, 'w) multiState \<Rightarrow> nat" where
  "failedCount ms = length (filter (\<lambda>d. d) (ms_dead ms))"


section \<open>The sinks of the \<open>TeeWriter\<close>\<close>

text \<open>The backend's answers as the answers of a sink, and that \<open>sink_backend\<close> is that sink alone.\<close>

fun after_writes :: "('s, 'w) Backend \<Rightarrow> 'w \<Rightarrow> 's \<Rightarrow> bytes list \<Rightarrow> 's" where
  "after_writes b wc s [] = s"
| "after_writes b wc s (c # cs) = after_writes b wc (snd (b_Write b wc c s)) cs"

definition backend_sw :: "('s, 'w) Backend \<Rightarrow> 'w \<Rightarrow> 's \<Rightarrow> sink_write" where
  "backend_sw b wc s i got c = (case fst (b_Write b wc c (after_writes b wc s got)) of Inl e \<Rightarrow> Some e | Inr _ \<Rightarrow> None)"

definition backend_sc :: "('s, 'w) Backend \<Rightarrow> 'w \<Rightarrow> 's \<Rightarrow> sink_close" where
  "backend_sc b wc s i got = (case fst (b_Close b wc (after_writes b wc s got)) of Inl e \<Rightarrow> Some e | Inr _ \<Rightarrow> None)"

lemma after_writes_snoc: "after_writes b wc s (cs @ [c]) = snd (b_Write b wc c (after_writes b wc s cs))"
  by (induction cs arbitrary: s) auto

lemma sink_backend_run:
  "fst (sink_backend b wc cs (after_writes b wc s got)) = snd (sink_run (backend_sw b wc s) (backend_sc b wc s) i got cs)"
proof (induction cs arbitrary: got)
  case Nil
  then show ?case by (auto simp: backend_sc_def split: prod.splits sum.splits)
next
  case (Cons c cs)
  show ?case using Cons.IH [of "got @ [c]"]
    by (auto simp: backend_sw_def after_writes_snoc split: prod.splits sum.splits)
qed


section \<open>Each backend on its own\<close>

text \<open>How the whole write and the whole commit act on one backend alone.\<close>

definition write_one :: "('s, 'w) Backend \<Rightarrow> string \<Rightarrow> bytes \<Rightarrow> 's \<Rightarrow> goerr option \<times> 's" where
  "write_one b p d s = (case b_Put b p s of (Inl e, s') \<Rightarrow> (Some e, s') | (Inr wc, s') \<Rightarrow> sink_backend b wc [d] s')"

definition commit_one :: "('s, 'w) Backend \<Rightarrow> string \<Rightarrow> string \<Rightarrow> 's \<Rightarrow> goerr option \<times> 's" where
  "commit_one b t f s = (case b_Commit b t f s of (Inl e, s') \<Rightarrow> (Some e, s') | (Inr _, s') \<Rightarrow> (None, s'))"

lemma put_each_facts:
  assumes "length ds = length bs" "length ss = length bs" "put_each p i bs ds ss = (sinks, ds', ss')"
  shows "length ds' = length bs \<and> length ss' = length bs \<and> distinct (map fst sinks) \<and>
     (\<forall>j < length bs. ss' ! j = (if ds ! j then ss ! j else snd (b_Put (bs ! j) p (ss ! j))) \<and>
        ds' ! j = (ds ! j \<or> isl (fst (b_Put (bs ! j) p (ss ! j))))) \<and>
     (\<forall>k w. (k, w) \<in> set sinks \<longleftrightarrow> (\<exists>j < length bs. k = i + j \<and> \<not> ds ! j \<and> fst (b_Put (bs ! j) p (ss ! j)) = Inr w))"
  using assms
proof (induction bs arbitrary: i ds ss sinks ds' ss')
  case (Cons b bs)
  obtain d ds0 s ss0 where eq: "ds = d # ds0" "ss = s # ss0" using Cons.prems by (cases ds; cases ss) auto
  obtain sk dr sr where r: "put_each p (Suc i) bs ds0 ss0 = (sk, dr, sr)" by (cases "put_each p (Suc i) bs ds0 ss0")
  have ih: "length dr = length bs" "length sr = length bs" "distinct (map fst sk)"
     "\<forall>j < length bs. sr ! j = (if ds0 ! j then ss0 ! j else snd (b_Put (bs ! j) p (ss0 ! j))) \<and>
        dr ! j = (ds0 ! j \<or> isl (fst (b_Put (bs ! j) p (ss0 ! j))))"
     "(k, w) \<in> set sk \<longleftrightarrow> (\<exists>j < length bs. k = Suc i + j \<and> \<not> ds0 ! j \<and> fst (b_Put (bs ! j) p (ss0 ! j)) = Inr w)" for k w
    using Cons.IH [OF _ _ r] Cons.prems(1,2) eq by auto
  have fresh: "i \<notin> fst ` set sk" using ih(5) by fastforce
  obtain a s1 where put: "b_Put b p s = (a, s1)" by (cases "b_Put b p s")
  have "(\<exists>j < Suc (length bs). k = i + j \<and> \<not> ds ! j \<and> fst (b_Put ((b # bs) ! j) p (ss ! j)) = Inr w) \<longleftrightarrow>
      (k = i \<and> \<not> d \<and> a = Inr w) \<or> (k, w) \<in> set sk" for k w
    unfolding ih(5) using put by (auto simp: eq less_Suc_eq_0_disj)
  then show ?case
    using Cons.prems(3) r ih(1-4) fresh put
    by (auto simp: eq less_Suc_eq_0_disj split: if_splits sum.splits)
qed simp

lemma tee_backends_facts:
  assumes "distinct (map fst sinks)" "\<forall>k \<in> fst ` set sinks. k < length ss" "tee_backends bs sinks cs ss = (es, ss')"
  shows "length ss' = length ss \<and> es = map (\<lambda>(k, w). fst (sink_backend (bs ! k) w cs (ss ! k))) sinks \<and>
     (\<forall>k w. (k, w) \<in> set sinks \<longrightarrow> ss' ! k = snd (sink_backend (bs ! k) w cs (ss ! k))) \<and>
     (\<forall>j. j \<notin> fst ` set sinks \<longrightarrow> ss' ! j = ss ! j)"
  using assms
proof (induction sinks arbitrary: ss es ss')
  case (Cons kw sinks)
  obtain k w where kw: "kw = (k, w)" by (cases kw)
  obtain e s1 where sb: "sink_backend (bs ! k) w cs (ss ! k) = (e, s1)" by (cases "sink_backend (bs ! k) w cs (ss ! k)")
  obtain er sr where r: "tee_backends bs sinks cs (ss[k := s1]) = (er, sr)" by (cases "tee_backends bs sinks cs (ss[k := s1])")
  have other: "ss[k := s1] ! j = ss ! j" if "j \<in> fst ` set sinks" for j
    using that Cons.prems(1) kw by (metis distinct.simps(2) fst_conv list.set_map list.simps(9) nth_list_update_neq)
  have ih: "length sr = length ss" "er = map (\<lambda>(k', w). fst (sink_backend (bs ! k') w cs (ss[k := s1] ! k'))) sinks"
     "\<And>k' w. (k', w) \<in> set sinks \<Longrightarrow> sr ! k' = snd (sink_backend (bs ! k') w cs (ss[k := s1] ! k'))"
     "\<And>j. j \<notin> fst ` set sinks \<Longrightarrow> sr ! j = ss[k := s1] ! j"
    using Cons.IH [OF _ _ r] Cons.prems(1,2) by auto
  have "er = map (\<lambda>(k, w). fst (sink_backend (bs ! k) w cs (ss ! k))) sinks"
    unfolding ih(2) by (rule map_cong [OF refl]) (use other in force)
  moreover have "k \<notin> fst ` set sinks" "k < length ss" using Cons.prems(1,2) kw by auto
  ultimately show ?case using Cons.prems(3) ih(1,3,4) other sb r by (auto simp: kw image_iff)
qed simp

lemma merge_facts:
  "(\<forall>k \<in> fst ` set sinks. k < length ds) \<Longrightarrow>
   length (merge (map f sinks) (map fst sinks) ds) = length ds \<and>
   (\<forall>j. merge (map f sinks) (map fst sinks) ds ! j \<longleftrightarrow> ds ! j \<or> (\<exists>w. (j, w) \<in> set sinks \<and> f (j, w) \<noteq> None))"
proof (induction sinks arbitrary: ds)
  case (Cons kw sinks)
  then show ?case by (cases kw) (auto simp: nth_list_update)
qed simp

lemma writeMultiFileAtomic_each:
  assumes "length (ms_dead ms) = length (ms_backends ms)" "length ss = length (ms_backends ms)"
    "writeMultiFileAtomic p d ms ss = (r, ms', ss')"
  shows "length ss' = length ss \<and>
    (\<forall>i < length ss. ss' ! i = (if ms_dead ms ! i then ss ! i else snd (write_one (ms_backends ms ! i) p d (ss ! i)))) \<and>
    (r = Inr () \<longrightarrow>
       (\<forall>i < length ss. ms_dead ms' ! i \<longleftrightarrow> ms_dead ms ! i \<or> fst (write_one (ms_backends ms ! i) p d (ss ! i)) \<noteq> None) \<and>
       (\<exists>i < length ss. \<not> ms_dead ms' ! i))"
proof -
  let ?bs = "ms_backends ms"
  obtain sinks ds1 ss1 where pe: "put_each p 0 ?bs (ms_dead ms) ss = (sinks, ds1, ss1)"
    by (cases "put_each p 0 ?bs (ms_dead ms) ss")
  note pf = put_each_facts [OF assms(1,2) pe, simplified]
  have idx: "\<forall>k \<in> fst ` set sinks. k < length ss1" using pf by auto
  have put: "b_Put (?bs ! i) p (ss ! i) = (Inr w, ss1 ! i)" "i < length ss" "\<not> ms_dead ms ! i" if "(i, w) \<in> set sinks" for i w
    using that pf assms(2) by (auto simp: prod_eq_iff)
  have mem: "(k, w) \<in> set sinks \<longleftrightarrow> k < length ?bs \<and> \<not> ms_dead ms ! k \<and> fst (b_Put (?bs ! k) p (ss ! k)) = Inr w" for k w
    using pf by blast
  have noput: "ms_dead ms ! i \<or> (\<exists>e. b_Put (?bs ! i) p (ss ! i) = (Inl e, ss1 ! i))" if "i < length ss" "i \<notin> fst ` set sinks" for i
  proof (cases "fst (b_Put (?bs ! i) p (ss ! i))")
    case (Inl e)
    then show ?thesis using pf that assms(2) by (cases "b_Put (?bs ! i) p (ss ! i)") auto
  next
    case (Inr w)
    then have "ms_dead ms ! i" using mem [of i w] that assms(2) by (metis fst_conv image_eqI)
    then show ?thesis ..
  qed
  have dead1: "ss1 ! i = ss ! i" if "i < length ss" "ms_dead ms ! i" for i using pf that assms(2) by simp
  have flag1: "ds1 ! i \<longleftrightarrow> ms_dead ms ! i \<or> isl (fst (b_Put (?bs ! i) p (ss ! i)))" if "i < length ss" for i
    using pf that assms(2) by simp
  have len1: "length ss1 = length ss" "length ds1 = length ss" using pf assms(2) by simp_all
  show ?thesis
  proof (cases "sinks = []")
    case True
    then have "r = Inl (errors_New ''backup: all backends dead'')" "ss' = ss1"
      using assms(3) pe by (auto simp: writeMultiFileAtomic_def putMulti_def)
    moreover have "ss1 ! i = (if ms_dead ms ! i then ss ! i else snd (write_one (?bs ! i) p d (ss ! i)))" if "i < length ss" for i
      using noput [OF that] dead1 [OF that] True by (auto simp: write_one_def)
    ultimately show ?thesis using len1 by simp
  next
    case False
    obtain es ss2 where te: "tee_backends ?bs sinks [d] ss1 = (es, ss2)" by (cases "tee_backends ?bs sinks [d] ss1")
    have tf: "length ss2 = length ss1" "es = map (\<lambda>(k, w). fst (sink_backend (?bs ! k) w [d] (ss1 ! k))) sinks"
       "\<And>k w. (k, w) \<in> set sinks \<Longrightarrow> ss2 ! k = snd (sink_backend (?bs ! k) w [d] (ss1 ! k))"
       "\<And>j. j \<notin> fst ` set sinks \<Longrightarrow> ss2 ! j = ss1 ! j"
      using tee_backends_facts [OF _ idx te] pf by blast+
    have one: "write_one (?bs ! k) p d (ss ! k) = sink_backend (?bs ! k) w [d] (ss1 ! k)" if "(k, w) \<in> set sinks" for k w
      using put(1) [OF that] by (simp add: write_one_def)
    have ss': "ss' = ss2" and r: "r = Inr () \<longleftrightarrow> (\<exists>e \<in> set es. e = None)"
      and dead': "r = Inr () \<Longrightarrow> ms_dead ms' = merge es (map fst sinks) ds1"
      using assms(3) pe te False
      by (auto simp: writeMultiFileAtomic_def putMulti_def list_ex_iff all_failed_def split: if_splits)
    have st: "ss2 ! i = (if ms_dead ms ! i then ss ! i else snd (write_one (?bs ! i) p d (ss ! i)))" if i: "i < length ss" for i
    proof (cases "i \<in> fst ` set sinks")
      case True
      then obtain w where "(i, w) \<in> set sinks" by force
      then show ?thesis using tf(3) one put(3) by metis
    next
      case False
      then show ?thesis using noput [OF i False] dead1 [OF i] tf(4) [OF False] by (auto simp: write_one_def)
    qed
    have mf: "merge es (map fst sinks) ds1 ! j \<longleftrightarrow> ds1 ! j \<or> (\<exists>w. (j, w) \<in> set sinks \<and> fst (sink_backend (?bs ! j) w [d] (ss1 ! j)) \<noteq> None)" for j
      using merge_facts [of sinks ds1 "\<lambda>(k, w). fst (sink_backend (?bs ! k) w [d] (ss1 ! k))"] idx len1 tf(2) by auto
    have fl: "ms_dead ms' ! i \<longleftrightarrow> ms_dead ms ! i \<or> fst (write_one (?bs ! i) p d (ss ! i)) \<noteq> None"
      if i: "i < length ss" and ok: "r = Inr ()" for i
    proof (cases "i \<in> fst ` set sinks")
      case True
      then obtain w where w: "(i, w) \<in> set sinks" by force
      have nl: "\<not> isl (fst (b_Put (?bs ! i) p (ss ! i)))" using put(1) [OF w] by simp
      have "(\<exists>w. (i, w) \<in> set sinks \<and> fst (sink_backend (?bs ! i) w [d] (ss1 ! i)) \<noteq> None) \<longleftrightarrow>
          fst (write_one (?bs ! i) p d (ss ! i)) \<noteq> None" using one w by metis
      then show ?thesis using mf [of i] flag1 [OF i] nl unfolding dead' [OF ok] by blast
    next
      case False
      then have "(i, w) \<notin> set sinks" for w by force
      then show ?thesis using dead' [OF ok] mf [of i] flag1 [OF i] noput [OF i False] by (auto simp: write_one_def)
    qed
    have "\<exists>i < length ss. \<not> ms_dead ms' ! i" if ok: "r = Inr ()"
    proof -
      from ok r tf(2) obtain k w where kw: "(k, w) \<in> set sinks" "fst (sink_backend (?bs ! k) w [d] (ss1 ! k)) = None" by auto
      then show ?thesis using fl [OF put(2) [OF kw(1)] ok] one [OF kw(1)] put(2,3) [OF kw(1)] by metis
    qed
    then show ?thesis unfolding ss' using st fl tf(1) len1 by (intro conjI allI impI) simp_all
  qed
qed


lemma commit_each_facts:
  assumes "length ds = length bs" "length ss = length bs" "commit_each t f bs ds ss = (n, le, ds', ss')"
  shows "length ds' = length bs \<and> length ss' = length bs \<and>
     (\<forall>j < length bs. ss' ! j = (if ds ! j then ss ! j else snd (commit_one (bs ! j) t f (ss ! j))) \<and>
        ds' ! j = (ds ! j \<or> fst (commit_one (bs ! j) t f (ss ! j)) \<noteq> None)) \<and>
     n = length (filter Not ds')"
  using assms
proof (induction bs arbitrary: ds ss n le ds' ss')
  case (Cons b bs)
  obtain d ds0 s ss0 where eq: "ds = d # ds0" "ss = s # ss0" using Cons.prems by (cases ds; cases ss) auto
  obtain m lr dr sr where r: "commit_each t f bs ds0 ss0 = (m, lr, dr, sr)" by (cases "commit_each t f bs ds0 ss0")
  note ih = Cons.IH [OF _ _ r]
  obtain a s1 where "b_Commit b t f s = (a, s1)" by (cases "b_Commit b t f s")
  then show ?case using Cons.prems r ih
    by (auto simp: eq less_Suc_eq_0_disj commit_one_def split: if_splits sum.splits)
qed auto

text \<open>The commit of a multi-storage backup treats each backend on its own as well, gives up exactly those
  that fail, and counts those that are left: each of them has committed.\<close>

theorem commitMulti_isolates:
  assumes "length (ms_dead ms) = length (ms_backends ms)" "length ss = length (ms_backends ms)"
    "commitMulti t f ms ss = ((n, le), ms', ss')"
  shows "(\<forall>i < length ss. ss' ! i = (if ms_dead ms ! i then ss ! i else snd (commit_one (ms_backends ms ! i) t f (ss ! i))) \<and>
       (ms_dead ms' ! i \<longleftrightarrow> ms_dead ms ! i \<or> fst (commit_one (ms_backends ms ! i) t f (ss ! i)) \<noteq> None)) \<and>
    n + failedCount ms' = length ss"
proof -
  obtain m lr dr sr where c: "commit_each t f (ms_backends ms) (ms_dead ms) ss = (m, lr, dr, sr)"
    by (cases "commit_each t f (ms_backends ms) (ms_dead ms) ss")
  have "m + length (filter (\<lambda>d. d) dr) = length dr" if "m = length (filter Not dr)"
    using sum_length_filter_compl [of "\<lambda>d. d" dr] that by simp
  then show ?thesis
    using commit_each_facts [OF assms(1,2) c] assms c by (auto simp: commitMulti_def failedCount_def)
qed

text \<open>C30: On POSIX storages, after a successful \<open>writeMultiFileAtomic\<close> every backend that has not been given
  up holds the file with exactly these bytes and no other change, and there is one.\<close>

theorem writeMultiFileAtomic_stores:
  assumes "length (ms_dead ms) = length rs" "length ss = length rs" "ms_backends ms = map posix_backend rs"
    "\<forall>i < length rs. posix_inv (rs ! i) (ss ! i)" "posix_key p"
    "writeMultiFileAtomic p d ms ss = (Inr (), ms', ss')"
  shows "(\<forall>i < length rs. \<not> ms_dead ms' ! i \<longrightarrow>
      posix_inv (rs ! i) (ss' ! i) \<and> posix_view (rs ! i) (ss' ! i) = (posix_view (rs ! i) (ss ! i))(p \<mapsto> d)) \<and>
    (\<exists>i < length rs. \<not> ms_dead ms' ! i)"
proof -
  have wo: "posix_inv r s' \<and> posix_view r s' = (posix_view r s)(p \<mapsto> d)"
    if "posix_inv r s" "write_one (posix_backend r) p d s = (None, s')" for r s s'
  proof -
    have "writeStorageFileAtomic (posix_backend r) p d s = (Inr (), s')"
      using that(2) by (auto simp: write_one_def writeStorageFileAtomic_def split: prod.splits sum.splits)
    from pstore.writeStorageFileAtomic_ok [OF that(1) assms(5) this] show ?thesis .
  qed
  have iso: "\<forall>i < length rs. ss' ! i = (if ms_dead ms ! i then ss ! i else snd (write_one (posix_backend (rs ! i)) p d (ss ! i))) \<and>
      (ms_dead ms' ! i \<longleftrightarrow> ms_dead ms ! i \<or> fst (write_one (posix_backend (rs ! i)) p d (ss ! i)) \<noteq> None)"
    "\<exists>i < length rs. \<not> ms_dead ms' ! i"
    using writeMultiFileAtomic_each [of ms ss p d "Inr ()" ms' ss'] assms by auto
  have "posix_inv (rs ! i) (ss' ! i) \<and> posix_view (rs ! i) (ss' ! i) = (posix_view (rs ! i) (ss ! i))(p \<mapsto> d)"
    if "i < length rs" "\<not> ms_dead ms' ! i" for i
    using wo [of "rs ! i" "ss ! i" "ss' ! i"] iso(1) assms(4) that by (metis prod.collapse)
  with iso(2) show ?thesis by blast
qed

definition example_multi :: "(pfs, pwriter) multiState" where
  "example_multi = newMultiState (map posix_backend [example_root])"

lemma example_multi_run: "fst (writeMultiFileAtomic ''b'' ''x'' example_multi [example_fs]) = Inr ()"
  by code_simp

lemma example_key_b: "posix_key ''b''"
  by (auto simp: posix_key_def clean_rel_def plain_comp_def path_Base_no_slash dest: sublist_length_le)

theorem writeMultiFileAtomic_stores_witness:
  "\<exists>ms' ss'. writeMultiFileAtomic ''b'' ''x'' example_multi [example_fs] = (Inr (), ms', ss') \<and>
    (\<exists>i < 1. \<not> ms_dead ms' ! i \<and> posix_view example_root (ss' ! i) = (posix_view example_root example_fs)(''b'' \<mapsto> ''x''))"
proof -
  obtain ms' ss' where w: "writeMultiFileAtomic ''b'' ''x'' example_multi [example_fs] = (Inr (), ms', ss')"
    using example_multi_run by (metis prod.collapse)
  from writeMultiFileAtomic_stores [of example_multi "[example_root]" "[example_fs]" "''b''" "''x''" ms' ss'] w example_key_b example_inv
  show ?thesis by (auto simp: example_multi_def newMultiState_def)
qed


theorem commitMulti_isolates_witness:
  "\<exists>n le ms' ss'. commitMulti ''b'' ''c'' example_multi [example_fs] = ((n, le), ms', ss') \<and> n + failedCount ms' = 1"
proof -
  obtain n le ms' ss' where w: "commitMulti ''b'' ''c'' example_multi [example_fs] = ((n, le), ms', ss')"
    by (metis prod.collapse)
  from commitMulti_isolates [OF _ _ w] w show ?thesis
    by (auto simp: example_multi_def newMultiState_def)
qed

end
