(* ===== verification/Go_Calendar.thy ===== *)
theory Go_Calendar
  imports Go_Json Go_Time "HOL-Library.Monad_Syntax"
begin

text \<open>
  The other direction of package \<open>time\<close>: the day number of a date, and \<open>time.Parse\<close> for the two
  layouts pgSafe reads (the manifest's \<open>2006-01-02 15:04:05 GMT\<close> and RFC 3339 in UTC).
\<close>

definition isLeap :: "int \<Rightarrow> bool" where
  "isLeap y \<longleftrightarrow> y mod 4 = 0 \<and> (y mod 100 \<noteq> 0 \<or> y mod 400 = 0)"

definition daysIn :: "int \<Rightarrow> int \<Rightarrow> int" where
  "daysIn m y = (if m = 2 then (if isLeap y then 29 else 28) else if m \<in> {4, 6, 9, 11} then 30 else 31)"

definition date_days :: "int \<Rightarrow> int \<Rightarrow> int \<Rightarrow> int" where
  "date_days y m d =
     (let y' = (if m \<le> 2 then y - 1 else y); mp = (if m \<le> 2 then m + 9 else m - 3)
      in 365 * y' + y' div 4 - y' div 100 + y' div 400 + (153 * mp + 2) div 5 + d - 1 - 306)"

text \<open>\<open>time.Date\<close> in UTC, for a month and a time of day in range.\<close>

definition time_Date :: "int \<Rightarrow> int \<Rightarrow> int \<Rightarrow> int \<Rightarrow> int \<Rightarrow> int \<Rightarrow> int \<Rightarrow> gotime" where
  "time_Date y mo d h mi s ns = (date_days y mo d * 86400 + h * 3600 + mi * 60 + s) * time_Second + ns"

definition dnum :: "string \<Rightarrow> int" where
  "dnum s = (case parse_dec s of Some n \<Rightarrow> int n | None \<Rightarrow> 0)"

text \<open>\<open>getnum\<close>: two digits, or one when \<open>fixed\<close> is not set.\<close>

definition getnum :: "bool \<Rightarrow> string \<Rightarrow> (int \<times> string) option" where
  "getnum fixed v =
     (case v of
        [] \<Rightarrow> None
      | a # r \<Rightarrow>
          if \<not> is_digit a then None
          else (case r of
                  b # r' \<Rightarrow> if is_digit b then Some (dnum [a, b], r') else if fixed then None else Some (dnum [a], r)
                | [] \<Rightarrow> if fixed then None else Some (dnum [a], [])))"

definition cutspace :: "string \<Rightarrow> string" where
  "cutspace s = dropWhile (\<lambda>c. c = CHR '' '') s"

text \<open>\<open>skip\<close>: the literal part of a layout; a blank in it stands for any number of blanks.\<close>

fun time_skip :: "string \<Rightarrow> string \<Rightarrow> string option" where
  "time_skip [] v = Some v"
| "time_skip (p # ps) v =
     (if p = CHR '' '' then
        (if v \<noteq> [] \<and> hd v \<noteq> CHR '' '' then None else time_skip ps (cutspace v))
      else (case v of c # v' \<Rightarrow> if c = p then time_skip ps v' else None | [] \<Rightarrow> None))"

text \<open>A fraction that the layout does not ask for: nine digits of it count.\<close>

definition parse_fraction :: "string \<Rightarrow> int \<times> string" where
  "parse_fraction v =
     (case v of
        p # d # r \<Rightarrow>
          if (p = CHR ''.'' \<or> p = CHR '','') \<and> is_digit d
          then let ds = takeWhile is_digit (d # r); k = take 9 ds
               in (dnum k * 10 ^ (9 - length k), dropWhile is_digit (d # r))
          else (0, v)
      | _ \<Rightarrow> (0, v))"

definition getyear :: "string \<Rightarrow> (int \<times> string) option" where
  "getyear v = (if length v < 4 \<or> \<not> list_all is_digit (take 4 v) then None else Some (dnum (take 4 v), drop 4 v))"

text \<open>\<open>2006-01-02\<close>, a separator, \<open>15:04:05\<close> and the end of the layout.\<close>

definition time_Parse :: "string \<Rightarrow> string \<Rightarrow> string \<Rightarrow> gotime option" where
  "time_Parse sep zone v0 =
     do {
       (y, v) \<leftarrow> getyear v0;
       v \<leftarrow> time_skip ''-'' v;
       (mo, v) \<leftarrow> getnum True v;
       if mo \<le> 0 \<or> 12 < mo then None else do {
       v \<leftarrow> time_skip ''-'' v;
       (d, v) \<leftarrow> getnum True v;
       v \<leftarrow> time_skip sep v;
       (h, v) \<leftarrow> getnum False v;
       if 24 \<le> h then None else do {
       v \<leftarrow> time_skip '':'' v;
       (mi, v) \<leftarrow> getnum True v;
       if 60 \<le> mi then None else do {
       v \<leftarrow> time_skip '':'' v;
       (s, v) \<leftarrow> getnum True v;
       if 60 \<le> s then None else
         case parse_fraction v of
           (ns, v) \<Rightarrow>
             (case time_skip zone v of
                Some [] \<Rightarrow> if d < 1 \<or> daysIn mo y < d then None else Some (time_Date y mo d h mi s ns)
              | _ \<Rightarrow> None)
       }}}
     }"

definition parse_gmt :: "string \<Rightarrow> gotime option" where
  "parse_gmt v = time_Parse '' '' '' GMT'' v"


section \<open>The calendar inverted\<close>

lemma era_parts_sum:
  "era_parts doe = (c, q, a, doy) \<Longrightarrow> 36524 * c + 1461 * q + 365 * a + doy = doe"
  by (auto simp: era_parts_def Let_def)

lemma date_days_civil:
  assumes "civil_date n = (y, m, d)"
  shows "date_days y m d = n"
proof -
  obtain c q a doy where e: "era_parts ((n + 306) mod 146097) = (c, q, a, doy)" by (cases "era_parts ((n + 306) mod 146097)")
  define era where "era = (n + 306) div 146097"
  define y' where "y' = 400 * era + 100 * c + 4 * q + a"
  define mp where "mp = (5 * doy + 2) div 153"
  have n: "n + 306 = 146097 * era + (36524 * c + 1461 * q + 365 * a + doy)"
    using era_parts_sum [OF e] by (simp add: era_def)
  have r: "0 \<le> c" "c \<le> 3" "0 \<le> q" "q \<le> 24" "0 \<le> a" "a \<le> 3" "0 \<le> doy" "doy \<le> 365"
    using era_parts_range [OF _ _ e] by simp_all
  have "y' div 4 = 100 * era + 25 * c + q" "y' div 100 = 4 * era + c" "y' div 400 = era"
    using r by (simp_all add: y'_def)
  then have days: "365 * y' + y' div 4 - y' div 100 + y' div 400 + doy - 306 = n" using n by (simp add: y'_def)
  have mp: "0 \<le> mp" "mp \<le> 11" using r by (simp_all add: mp_def)
  have "march_date n = (y', mp, doy - (153 * mp + 2) div 5 + 1)"
    using e by (simp add: march_date_def Let_def era_def y'_def mp_def)
  then show ?thesis using assms days mp by (auto simp: civil_date_def date_days_def Let_def split: if_splits)
qed

text \<open>A day of the month never passes the month's end.\<close>

lemma era_doy_leap:
  assumes "0 \<le> doe" "doe < 146097" "era_parts doe = (c, q, a, 365)"
  shows "a = 3 \<and> (q \<noteq> 24 \<or> c = 3)"
proof -
  define r1 where "r1 = doe - 36524 * min 3 (doe div 36524)"
  define r2 where "r2 = r1 - 1461 * (r1 div 1461)"
  have parts: "c = min 3 (doe div 36524)" "q = r1 div 1461" "a = min 3 (r2 div 365)" "365 = r2 - 365 * a"
    using assms(3) by (auto simp: era_parts_def Let_def r1_def r2_def)
  have r2: "0 \<le> r2" "r2 < 1461" unfolding r2_def by (simp_all add: minus_mult_div_eq_mod)
  have a: "a = 3" "r2 = 1460" using parts(3,4) r2 by (auto simp: min_def split: if_splits)
  have "c = 3" if "q = 24"
  proof (rule ccontr)
    assume "c \<noteq> 3"
    then have "c = doe div 36524" "r1 = doe mod 36524"
      using parts(1) by (auto simp: r1_def min_def minus_mult_div_eq_mod split: if_splits)
    then have "r1 < 36524" by simp
    moreover have "r1 = 1461 * 24 + 1460" using that parts(2) a(2) by (simp add: r2_def)
    ultimately show False by simp
  qed
  with a show ?thesis by blast
qed

lemma civil_date_daysIn:
  assumes "civil_date n = (y, m, d)"
  shows "d \<le> daysIn m y"
proof -
  obtain c q a doy where e: "era_parts ((n + 306) mod 146097) = (c, q, a, doy)" by (cases "era_parts ((n + 306) mod 146097)")
  define era where "era = (n + 306) div 146097"
  define y' where "y' = 400 * era + 100 * c + 4 * q + a"
  define mp where "mp = (5 * doy + 2) div 153"
  have r: "0 \<le> c" "c \<le> 3" "0 \<le> q" "q \<le> 24" "0 \<le> a" "a \<le> 3" "0 \<le> doy" "doy \<le> 365"
    using era_parts_range [OF _ _ e] by simp_all
  have mp: "0 \<le> mp" "mp \<le> 11" using r by (simp_all add: mp_def)
  have md: "march_date n = (y', mp, doy - (153 * mp + 2) div 5 + 1)"
    using e by (simp add: march_date_def Let_def era_def y'_def mp_def)
  have leap: "isLeap (y' + 1)" if "doy = 365"
  proof -
    have "a = 3" "q \<noteq> 24 \<or> c = 3" using era_doy_leap [OF _ _ e [unfolded that]] by simp_all
    then have y: "y' + 1 = 400 * era + 100 * c + 4 * (q + 1)" by (simp add: y'_def)
    have "(y' + 1) mod 4 = 0" unfolding y by presburger
    moreover have "(y' + 1) mod 400 = (100 * c + 4 * (q + 1)) mod 400" unfolding y by (simp add: mod_simps add.assoc)
    moreover have "(y' + 1) mod 100 = (4 * (q + 1)) mod 100"
    proof -
      have "y' + 1 = 4 * (q + 1) + 100 * (4 * era + c)" using y by simp
      then show ?thesis by (metis mod_mult_self2)
    qed
    moreover have "4 * (q + 1) mod 100 \<noteq> 0" if "q \<noteq> 24"
      using r(3,4) that by (simp add: mod_pos_pos_trivial)
    moreover have "(100 * c + 4 * (q + 1)) mod 400 = 0" if "q = 24" "c = 3" using that by simp
    ultimately show ?thesis using \<open>q \<noteq> 24 \<or> c = 3\<close> unfolding isLeap_def by metis
  qed
  have b: "153 * mp \<le> 5 * doy + 2" "5 * doy + 2 < 153 * mp + 153" 
    using div_mult_mod_eq [of "5 * doy + 2" 153] pos_mod_bound [of 153 "5 * doy + 2"] pos_mod_sign [of 153 "5 * doy + 2"]
    unfolding mp_def by linarith+
  have d: "d = doy - (153 * mp + 2) div 5 + 1" "mp < 10 \<Longrightarrow> y = y' \<and> m = mp + 3" "\<not> mp < 10 \<Longrightarrow> y = y' + 1 \<and> m = mp - 9"
    using assms md by (auto simp: civil_date_def split: if_splits)
  show ?thesis
  proof (cases "mp = 11")
    case True
    then have "d = doy - 336" "y = y' + 1" "m = 2" using d by simp_all
    then show ?thesis using leap r(8) by (cases "doy = 365") (auto simp: daysIn_def)
  next
    case False
    have month: "d \<le> daysIn m y" if "mp = k" "k \<in> {0, 1, 2, 3, 4, 5, 6, 7, 8, 9, 10}" for k
      using that b d by (elim insertE emptyE) (simp_all add: daysIn_def)
    have "0 \<le> mp" "mp \<le> 10" using mp False by simp_all
    then have "mp = 0 \<or> mp = 1 \<or> mp = 2 \<or> mp = 3 \<or> mp = 4 \<or> mp = 5 \<or> mp = 6 \<or> mp = 7 \<or> mp = 8 \<or> mp = 9 \<or> mp = 10"
      by arith
    then show ?thesis by (intro month [OF refl]) simp
  qed
qed


section \<open>Parsing what was printed\<close>

lemma fixed_text:
  assumes "0 < w" "fits w x"
  shows "list_all is_digit (appendInt w x)" "dnum (appendInt w x) = x" "length (appendInt w x) = w"
proof -
  have n: "nat x < 10 ^ w" "0 \<le> x" using assms by (auto simp: fits_def nat_less_iff)
  have t: "appendInt w x = map hexU (fixed_digits 10 w (nat x))" using n assms(1) by (simp add: appendInt_def pad_d_fixed)
  have dg: "is_digit (hexU d)" "of_char (hexU d) - 48 = d" if "d < 10" for d :: nat
  proof -
    have "d \<in> {0,1,2,3,4,5,6,7,8,9}" using that by auto
    then show "is_digit (hexU d)" "of_char (hexU d) - 48 = d" by (auto simp: hexU_def is_digit_def)
  qed
  have b: "d < 10" if "d \<in> set (fixed_digits 10 w (nat x))" for d using fixed_digits_bound [OF _ that] by simp
  show dig: "list_all is_digit (appendInt w x)" unfolding t list_all_iff using dg(1) b by auto
  show len: "length (appendInt w x) = w" using length_appendInt assms by simp
  have "map (\<lambda>c. of_char c - 48) (appendInt w x) = fixed_digits 10 w (nat x)"
    unfolding t map_map by (rule map_idI) (use dg(2) b in auto)
  then show "dnum (appendInt w x) = x"
    using dig len assms(1) n num_of_fixed_digits [of 10 "nat x" w] by (auto simp: dnum_def parse_dec_def)
qed

lemma getnum_appendInt: "fits 2 x \<Longrightarrow> getnum f (appendInt 2 x @ r) = Some (x, r)"
proof -
  assume x: "fits 2 x"
  note t = fixed_text [OF _ x, simplified]
  obtain a b where ab: "appendInt 2 x = [a, b]" using t(3) by (auto simp: length_Suc_conv numeral_2_eq_2)
  then show ?thesis using t(1,2) by (simp add: getnum_def)
qed

lemma getyear_appendInt: "fits 4 x \<Longrightarrow> getyear (appendInt 4 x @ r) = Some (x, r)"
  using fixed_text [of 4 x] by (simp add: getyear_def)

lemma clock_fields_range:
  assumes "clock_fields t = (h, m, s)"
  shows "0 \<le> h" "h < 24" "0 \<le> m" "m < 60" "0 \<le> s" "s < 60" "h * 3600 + m * 60 + s = second_of_day t"
proof -
  define x where "x = second_of_day t"
  have x: "0 \<le> x" "x < 86400" by (simp_all add: x_def second_of_day_def)
  have f: "h = x div 3600" "m = (x mod 3600) div 60" "s = x mod 60"
    using assms by (auto simp: clock_fields_def Let_def x_def)
  have "x mod 3600 mod 60 = x mod 60" by (simp add: mod_mod_cancel)
  then have "h * 3600 + m * 60 + s = x"
    using div_mult_mod_eq [of x 3600] div_mult_mod_eq [of "x mod 3600" 60] unfolding f by linarith
  moreover have "0 \<le> h" "h < 24" unfolding f using x by simp_all
  moreover have "0 \<le> x mod 3600" "x mod 3600 < 3600" by simp_all
  then have "0 \<le> m" "m < 60" unfolding f by linarith+
  moreover have "0 \<le> s" "s < 60" unfolding f by simp_all
  ultimately show "0 \<le> h" "h < 24" "0 \<le> m" "m < 60" "0 \<le> s" "s < 60" "h * 3600 + m * 60 + s = second_of_day t"
    by (simp_all add: x_def)
qed

lemma time_Parse_print:
  assumes c: "civil_date (day_number t) = (y, mo, d)" "clock_fields t = (h, mi, s)" and y: "fits 4 y"
    and sep: "\<And>r. is_digit (hd r) \<Longrightarrow> r \<noteq> [] \<Longrightarrow> time_skip sep (sep @ r) = Some r"
    and zone: "parse_fraction zone = (0, zone)" "time_skip zone zone = Some []"
  shows "time_Parse sep zone (appendInt 4 y @ ''-'' @ appendInt 2 mo @ ''-'' @ appendInt 2 d @ sep @
     appendInt 2 h @ '':'' @ appendInt 2 mi @ '':'' @ appendInt 2 s @ zone) = Some (t div time_Second * time_Second)"
proof -
  have f: "fits 2 mo" "fits 2 d" "fits 2 h" "fits 2 mi" "fits 2 s"
    using civil_fields_fits [OF c(1)] clock_fields_fits [OF c(2)] by auto
  note cr = civil_date_range [OF c(1)] and k = clock_fields_range [OF c(2)]
  have dash: "time_skip ''-'' (''-'' @ r) = Some r" and colon: "time_skip '':'' ('':'' @ r) = Some r" for r by simp_all
  have h: "time_skip sep (sep @ appendInt 2 h @ r) = Some (appendInt 2 h @ r)" for r
    using fixed_text [OF _ f(3)] by (intro sep) (cases "appendInt 2 h"; auto)+
  have "day_number t * 86400 + second_of_day t = t div time_Second"
    using zdiv_zmult2_eq [of 86400 t time_Second] by (simp add: day_number_def second_of_day_def mult.commute time_Second_def)
  then have "time_Date y mo d h mi s 0 = t div time_Second * time_Second"
    using date_days_civil [OF c(1)] k(7) by (simp add: time_Date_def add.assoc)
  then show ?thesis
    using cr k civil_date_daysIn [OF c(1)]
    by (simp only: time_Parse_def append.assoc getyear_appendInt [OF y] bind.bind_lunit prod.case dash colon h
        getnum_appendInt [OF f(1)] getnum_appendInt [OF f(2)] getnum_appendInt [OF f(3)] getnum_appendInt [OF f(4)]
        getnum_appendInt [OF f(5)] zone) simp
qed

lemma parse_gmt_format:
  assumes "fits 4 (Year t)"
  shows "parse_gmt (format_gmt t) = Some (t div time_Second * time_Second)"
proof -
  obtain y mo d where c: "civil_date (day_number t) = (y, mo, d)" by (cases "civil_date (day_number t)")
  obtain h mi s where k: "clock_fields t = (h, mi, s)" by (cases "clock_fields t")
  have y: "fits 4 y" using assms c by (simp add: Year_def)
  have sp: "time_skip '' '' ('' '' @ r) = Some r" if "is_digit (hd r)" "r \<noteq> []" for r
    using that by (cases r) (auto simp: cutspace_def is_digit_def)
  show ?thesis
    using time_Parse_print [OF c k y sp, of "'' GMT''"] c k
    by (simp add: parse_gmt_def format_gmt_def parse_fraction_def cutspace_def)
qed

end
