(* ===== verification/Store_Example.thy ===== *)
theory Store_Example
  imports Posix_Example
begin

text \<open>
  Storages with given contents on the POSIX file system, for the examples: directories \<open>ds\<close> and files
  \<open>kvs\<close> below the root, all names clean, no faults.
\<close>

definition store_names :: "string list \<Rightarrow> string list \<Rightarrow> (string \<times> node) list" where
  "store_names ds ks =
     (''/r'', NDir) # map (\<lambda>d. (''/r/'' @ d, NDir)) ds @ zip (map (\<lambda>k. ''/r/'' @ k) ks) (map NFile [0..<length ks])"

definition store_fs :: "string list \<Rightarrow> (string \<times> bytes) list \<Rightarrow> pfs" where
  "store_fs ds kvs =
     example_fs\<lparr>fs_now := store_names ds (map fst kvs), fs_data := (\<lambda>i. if i < length kvs then snd (kvs ! i) else []),
       fs_next := length kvs, fs_dur := store_names ds (map fst kvs), fs_pend := [], fs_clean := (\<lambda>_. True)\<rparr>"

definition store_ok :: "string list \<Rightarrow> string list \<Rightarrow> bool" where
  "store_ok ds ks \<longleftrightarrow>
     distinct (ds @ ks) \<and> list_all clean_rel (ds @ ks) \<and>
     list_all (\<lambda>p. list_all (\<lambda>a. a = ''/r'' \<or> a \<in> set (map (\<lambda>d. ''/r/'' @ d) ds)) (ancestors (''/r/'' @ p))) (ds @ ks)"

lemma store_names_of:
  assumes "store_ok ds ks"
  shows "distinct (map fst (store_names ds ks))"
    "map_of (store_names ds ks) p = Some (NFile i) \<longleftrightarrow> i < length ks \<and> p = ''/r/'' @ ks ! i"
    "map_of (store_names ds ks) p = Some NDir \<longleftrightarrow> p = ''/r'' \<or> p \<in> (\<lambda>d. ''/r/'' @ d) ` set ds"
proof -
  have "distinct (map fst (zip (map (\<lambda>k. ''/r/'' @ k) ks) (map NFile [0..<length ks])))"
    using assms by (simp add: distinct_map inj_on_def store_ok_def)
  then show d: "distinct (map fst (store_names ds ks))"
    using assms by (auto simp: store_names_def store_ok_def distinct_map inj_on_def comp_def dest: set_zip_leftD)
  show "map_of (store_names ds ks) p = Some (NFile i) \<longleftrightarrow> i < length ks \<and> p = ''/r/'' @ ks ! i"
  proof -
    have "(p, NFile i) \<in> set (zip (map (\<lambda>k. ''/r/'' @ k) ks) (map NFile [0..<length ks])) \<longleftrightarrow> i < length ks \<and> p = ''/r/'' @ ks ! i"
      unfolding set_zip by (auto intro!: exI [of _ i])
    then show ?thesis unfolding map_of_eq_Some_iff [OF d] by (auto simp: store_names_def)
  qed
  show "map_of (store_names ds ks) p = Some NDir \<longleftrightarrow> p = ''/r'' \<or> p \<in> (\<lambda>d. ''/r/'' @ d) ` set ds"
    unfolding map_of_eq_Some_iff [OF d] by (auto simp: store_names_def set_zip)
qed

lemma store_fs_inv:
  assumes "store_ok ds (map fst kvs)"
  shows "posix_inv example_root (store_fs ds kvs)"
proof -
  note n = store_names_of [OF assms]
  have cl: "clean_abs (''/r/'' @ p)" if "p \<in> set ds \<union> set (map fst kvs)" for p
    using that assms clean_abs_append [of "''/r''" p] example_paths(1) by (auto simp: store_ok_def list_all_iff)
  have an: "map_of (store_names ds (map fst kvs)) a = Some NDir"
    if "p \<in> set ds \<union> set (map fst kvs)" "a \<in> set (ancestors (''/r/'' @ p))" for p a
    using that assms unfolding n(3) by (auto simp: store_ok_def list_all_iff)
  have nodes: "p = ''/r'' \<or> (\<exists>q \<in> set ds \<union> set (map fst kvs). p = ''/r/'' @ q)"
    if "map_of (store_names ds (map fst kvs)) p = Some nd" for p nd
  proof (cases nd)
    case (NFile i)
    then have "i < length kvs" "p = ''/r/'' @ fst (kvs ! i)" using that n(2) [of p i] by auto
    then show ?thesis by auto
  next
    case NDir
    then show ?thesis using that n(3) [of p] by auto
  qed
  have "tree_ok (store_names ds (map fst kvs))"
    unfolding tree_ok_map [OF n(1)]
  proof (intro allI impI ballI)
    fix p nd a assume "map_of (store_names ds (map fst kvs)) p = Some nd" and a: "a \<in> set (ancestors p)"
    then show "map_of (store_names ds (map fst kvs)) a = Some NDir"
      using nodes [of p nd] an example_paths(5) by auto
  qed
  moreover have "clean_abs p" if "map_of (store_names ds (map fst kvs)) p = Some nd" for p nd
    using nodes [OF that] cl example_paths(1) by blast
  moreover have "ks ! i = ks ! i" for ks :: "string list" and i by simp
  ultimately have "fs_ok (store_fs ds kvs)"
    using n(1) unfolding fs_ok_def by (auto simp: store_fs_def example_fs_def n(2))
  moreover have "map_of (store_names ds (map fst kvs)) ''/r'' = Some NDir" unfolding n(3) by simp
  ultimately show ?thesis
    using example_paths(1) by (simp add: posix_inv_def faults_ok_def file_at_def example_root_def store_fs_def)
qed

lemma store_fs_view:
  assumes "store_ok ds (map fst kvs)"
  shows "posix_view example_root (store_fs ds kvs) k = (if posix_key k then map_of kvs k else None)"
proof -
  note n = store_names_of [OF assms]
  have d: "distinct (map fst kvs)" using assms by (simp add: store_ok_def)
  have "file_at (store_fs ds kvs) (''/r/'' @ k) = map_of kvs k"
  proof (cases "map_of kvs k")
    case (Some v)
    then obtain i where i: "i < length kvs" "kvs ! i = (k, v)" unfolding map_of_eq_Some_iff [OF d] in_set_conv_nth by blast
    then have "map_of (store_names ds (map fst kvs)) (''/r/'' @ k) = Some (NFile i)" unfolding n(2) by simp
    then show ?thesis using i Some by (simp add: file_at_def store_fs_def)
  next
    case None
    then have "k \<notin> set (map fst kvs)" by (simp add: map_of_eq_None_iff)
    then have "map_of (store_names ds (map fst kvs)) (''/r/'' @ k) \<noteq> Some (NFile i)" for i unfolding n(2) by (metis length_map nth_mem same_append_eq)
    then show ?thesis using None by (auto simp: file_at_def store_fs_def split: option.splits node.splits)
  qed
  then show ?thesis by (simp add: posix_view_def example_root_def under_root_def)
qed

lemma store_get:
  assumes "store_ok ds (map fst kvs)" "clean_rel k" "map_of kvs k = Some d"
  shows "posix_Get example_root k (store_fs ds kvs) = (Inr (d, None), tick (tick (store_fs ds kvs)))"
proof -
  note n = store_names_of [OF assms(1)]
  have ds: "distinct (map fst kvs)" using assms by (simp add: store_ok_def)
  obtain i where i: "i < length kvs" "kvs ! i = (k, d)"
    using assms(3) unfolding map_of_eq_Some_iff [OF ds] in_set_conv_nth by blast
  then have "map_of (store_names ds (map fst kvs)) (under_root example_root k) = Some (NFile i)"
    unfolding n(2) by (simp add: example_root_def under_root_def)
  then show ?thesis
    using abs_path_key [OF store_fs_inv [OF assms(1)] assms(2)] i
    by (simp add: posix_Get_def os_Open_def lookup_def fault_now_def store_fs_def example_fs_def)
qed

section \<open>A file system without faults\<close>

definition healthy :: "pfs \<Rightarrow> bool" where
  "healthy s \<longleftrightarrow> fs_fault s = (\<lambda>_. None)"

lemma healthy_tick [simp]: "healthy (tick s) = healthy s"
  by (simp add: healthy_def tick_def)

lemma healthy_store [simp]: "healthy (store_fs ds kvs)"
  by (simp add: healthy_def store_fs_def example_fs_def)

lemma posix_tick [simp]: "posix_inv r (tick s) = posix_inv r s" "posix_view r (tick s) = posix_view r s"
  by (simp_all add: posix_inv_def posix_view_def fun_eq_iff)

lemma healthy_get:
  assumes "posix_inv r s" "healthy s" "posix_view r s k = Some d"
  shows "posix_Get r k s = (Inr (d, None), tick (tick s))"
proof -
  have "clean_rel k" "file_at s (under_root r k) = Some d" using assms(3) by (auto simp: posix_view_def posix_key_def split: if_splits)
  then show ?thesis using abs_path_key [OF assms(1)] assms(2)
    by (auto simp: posix_Get_def os_Open_def lookup_def fault_now_def healthy_def file_at_def split: option.splits node.splits)
qed

lemma healthy_list:
  assumes "healthy s"
  shows "\<exists>xs. posix_List r [] s = (Inr xs, tick (tick s)) \<or> posix_List r [] s = (Inr xs, tick s) \<or>
    (\<exists>e. posix_List r [] s = (Inl e, tick s) \<and> \<not> errors_Is e ErrNotExist)"
  using assms by (auto simp: posix_List_def os_Stat_def fault_now_def healthy_def tick_def split: sum.splits)

end
