(* ===== verification/Info.thy ===== *)
theory Info
  imports Sidecar Go_Calendar Store_Example
begin

text \<open>
  \<open>internal/info/info.go\<close>: the listing of the backups in a storage. A backup is a top-level directory
  whose name ends in \<open>F\<close> or \<open>I\<close>; its record combines the sidecar with what the manifest says.
\<close>

record BackupRecord =
  br_BackupID :: string
  br_Type :: string
  br_ParentBackupID :: string
  br_Server :: string
  br_Compression :: string
  br_Recipients :: "string slice"
  br_Annotation :: string
  br_StartLSN :: string
  br_StopLSN :: string
  br_Timeline :: nat
  br_StartTime :: gotime
  br_StopTime :: gotime
  br_Files :: nat
  br_Bytes :: int

record Warning =
  wn_BackupID :: string
  wn_Err :: goerr

definition Warning_String :: "Warning \<Rightarrow> string" where
  "Warning_String w = ''warning: backup '' @ wn_BackupID w @ '': '' @ err_text (wn_Err w)"

definition Age :: "gotime \<Rightarrow> BackupRecord \<Rightarrow> duration" where
  "Age now r = (if IsZero (br_StopTime r) then 0 else now - br_StopTime r)"


section \<open>Reading one backup\<close>

record rawFile =
  rf_Path :: string
  rf_Size :: int
  rf_LastModified :: string

record rawWALRange =
  rw_Timeline :: nat
  rw_StartLSN :: string
  rw_EndLSN :: string

record rawManifest =
  rm_Files :: "rawFile slice"
  rm_WALRanges :: "rawWALRange slice"

record manifestHeader =
  mh_Timeline :: nat
  mh_StartLSN :: string
  mh_StopLSN :: string
  mh_StartTime :: gotime
  mh_StopTime :: gotime
  mh_FileCount :: nat
  mh_Bytes :: int

definition zero_rawFile :: rawFile where
  "zero_rawFile = \<lparr>rf_Path = [], rf_Size = 0, rf_LastModified = []\<rparr>"

definition zero_rawWALRange :: rawWALRange where
  "zero_rawWALRange = \<lparr>rw_Timeline = 0, rw_StartLSN = [], rw_EndLSN = []\<rparr>"

definition zero_manifestHeader :: manifestHeader where
  "zero_manifestHeader = \<lparr>mh_Timeline = 0, mh_StartLSN = [], mh_StopLSN = [], mh_StartTime = 0, mh_StopTime = 0,
     mh_FileCount = 0, mh_Bytes = 0\<rparr>"

definition fields_rawFile :: "(string \<times> rawFile dec) list" where
  "fields_rawFile =
     [(''Path'', dec_field rf_Path (\<lambda>a. rf_Path_update (\<lambda>_. a)) dec_string),
      (''Size'', dec_field rf_Size (\<lambda>a. rf_Size_update (\<lambda>_. a)) dec_int64),
      (''Last-Modified'', dec_field rf_LastModified (\<lambda>a. rf_LastModified_update (\<lambda>_. a)) dec_string)]"

definition fields_rawWALRange :: "(string \<times> rawWALRange dec) list" where
  "fields_rawWALRange =
     [(''Timeline'', dec_field rw_Timeline (\<lambda>a. rw_Timeline_update (\<lambda>_. a)) (dec_uint 32)),
      (''Start-LSN'', dec_field rw_StartLSN (\<lambda>a. rw_StartLSN_update (\<lambda>_. a)) dec_string),
      (''End-LSN'', dec_field rw_EndLSN (\<lambda>a. rw_EndLSN_update (\<lambda>_. a)) dec_string)]"

definition fields_rawManifest :: "(string \<times> rawManifest dec) list" where
  "fields_rawManifest =
     [(''Files'', dec_field rm_Files (\<lambda>a. rm_Files_update (\<lambda>_. a)) (dec_slice (dec_struct_lax fields_rawFile) zero_rawFile)),
      (''WAL-Ranges'', dec_field rm_WALRanges (\<lambda>a. rm_WALRanges_update (\<lambda>_. a))
         (dec_slice (dec_struct_lax fields_rawWALRange) zero_rawWALRange))]"

text \<open>\<open>int64\<close> addition wraps.\<close>

definition wrap_int64 :: "int \<Rightarrow> int" where
  "wrap_int64 x = (x + 2 ^ 63) mod 2 ^ 64 - 2 ^ 63"

definition header_file :: "rawFile \<Rightarrow> manifestHeader \<Rightarrow> manifestHeader" where
  "header_file f hdr0 =
     (let hdr = hdr0\<lparr>mh_Bytes := wrap_int64 (mh_Bytes hdr0 + rf_Size f)\<rparr> in
      case parse_gmt (rf_LastModified f) of
        None \<Rightarrow> hdr
      | Some t \<Rightarrow>
          (let hdr = (if IsZero (mh_StartTime hdr) \<or> t < mh_StartTime hdr then hdr\<lparr>mh_StartTime := t\<rparr> else hdr)
           in if mh_StopTime hdr < t then hdr\<lparr>mh_StopTime := t\<rparr> else hdr))"

definition slice_list :: "'a slice \<Rightarrow> 'a list" where
  "slice_list xs = (case xs of None \<Rightarrow> [] | Some ys \<Rightarrow> ys)"

definition header_of :: "rawManifest \<Rightarrow> manifestHeader" where
  "header_of raw =
     (let hdr = fold header_file (slice_list (rm_Files raw)) (zero_manifestHeader\<lparr>mh_FileCount := length (slice_list (rm_Files raw))\<rparr>)
      in case slice_list (rm_WALRanges raw) of
           [] \<Rightarrow> hdr
         | w # _ \<Rightarrow> hdr\<lparr>mh_Timeline := rw_Timeline w, mh_StartLSN := rw_StartLSN w, mh_StopLSN := rw_EndLSN w\<rparr>)"

definition get_body :: "('s, 'w) Backend \<Rightarrow> string \<Rightarrow> ('s, bytes) op" where
  "get_body b p s =
     (case b_Get b p s of
        (Inl e, s1) \<Rightarrow> (Inl e, s1)
      | (Inr rc, s1) \<Rightarrow> (io_ReadAll rc, s1))"

definition readManifestHeader :: "('s, 'w) Backend \<Rightarrow> string \<Rightarrow> ('s, manifestHeader) op" where
  "readManifestHeader b backupID s =
     (case get_body b (path_Join [backupID, ''backup_manifest'']) s of
        (Inl e, s1) \<Rightarrow> (Inl e, s1)
      | (Inr body, s1) \<Rightarrow>
          (case json_Unmarshal body of
             None \<Rightarrow> (Inl (errors_New ''invalid JSON''), s1)
           | Some v \<Rightarrow>
               (case dec_struct_lax fields_rawManifest \<lparr>rm_Files = None, rm_WALRanges = None\<rparr> v of
                  None \<Rightarrow> (Inl (errors_New ''json: cannot unmarshal''), s1)
                | Some raw \<Rightarrow> (Inr (header_of raw), s1))))"

definition readSidecar :: "('s, 'w) Backend \<Rightarrow> string \<Rightarrow> ('s, Sidecar) op" where
  "readSidecar b backupID s =
     (case get_body b (path_Join [backupID, ''Storage-Metadata.json'']) s of
        (Inl e, s1) \<Rightarrow> (Inl e, s1)
      | (Inr body, s1) \<Rightarrow> (UnmarshalSidecar body, s1))"

text \<open>Type and parent as the suffix of the ID gives them: \<open>PARENT_TSI\<close>, or \<open>TSF\<close>.\<close>

definition record_of_id :: "string \<Rightarrow> BackupRecord" where
  "record_of_id backupID =
     (let rec = \<lparr>br_BackupID = backupID, br_Type = [], br_ParentBackupID = [], br_Server = [], br_Compression = [],
          br_Recipients = None, br_Annotation = [], br_StartLSN = [], br_StopLSN = [], br_Timeline = 0,
          br_StartTime = 0, br_StopTime = 0, br_Files = 0, br_Bytes = 0\<rparr>
      in if strings_HasSuffix backupID ''I'' then
           (let rec = rec\<lparr>br_Type := BackupTypeIncremental\<rparr>
            in case last_index (CHR ''_'') (butlast backupID) of
                 Some i \<Rightarrow> if 0 < i then rec\<lparr>br_ParentBackupID := take i backupID\<rparr> else rec
               | None \<Rightarrow> rec)
         else if strings_HasSuffix backupID ''F'' then rec\<lparr>br_Type := BackupTypeFull\<rparr>
         else rec)"

definition apply_sidecar :: "Sidecar \<Rightarrow> BackupRecord \<Rightarrow> BackupRecord" where
  "apply_sidecar sc rec0 =
     (let rec = rec0\<lparr>br_Server := sc_Server sc, br_Compression := sc_Compression sc,
                     br_Recipients := sc_EncryptionRecipients sc, br_Annotation := sc_Annotation sc\<rparr>;
          rec = (if sc_Type sc \<noteq> [] then rec\<lparr>br_Type := sc_Type sc\<rparr> else rec)
      in if sc_ParentBackupID sc \<noteq> [] then rec\<lparr>br_ParentBackupID := sc_ParentBackupID sc\<rparr> else rec)"

definition apply_header :: "manifestHeader \<Rightarrow> BackupRecord \<Rightarrow> BackupRecord" where
  "apply_header hdr rec =
     rec\<lparr>br_Timeline := mh_Timeline hdr, br_StartLSN := mh_StartLSN hdr, br_StopLSN := mh_StopLSN hdr,
         br_StartTime := mh_StartTime hdr, br_StopTime := mh_StopTime hdr, br_Files := mh_FileCount hdr,
         br_Bytes := mh_Bytes hdr\<rparr>"

definition loadOne :: "('s, 'w) Backend \<Rightarrow> string \<Rightarrow> ('s, BackupRecord) op" where
  "loadOne b backupID s =
     (case readSidecar b backupID s of
        (Inl e, s1) \<Rightarrow> (Inl (wrapErr ''read sidecar'' e), s1)
      | (Inr sc, s1) \<Rightarrow>
          (let rec = apply_sidecar sc (record_of_id backupID) in
           case readManifestHeader b backupID s1 of
             (Inl _, s2) \<Rightarrow> (Inr rec, s2)
           | (Inr hdr, s2) \<Rightarrow> (Inr (apply_header hdr rec), s2)))"


section \<open>Listing\<close>

text \<open>The candidate directories; the keys of the map are sorted before they are used.\<close>

definition candidate :: "string \<Rightarrow> string option" where
  "candidate p =
     (let parts = strings_SplitN2 (CHR ''/'') p
      in if length parts < 2 then None
         else let first = parts ! 0
              in if \<not> strings_HasSuffix first ''F'' \<and> \<not> strings_HasSuffix first ''I'' then None else Some first)"

definition backup_dirs :: "FileInfo list \<Rightarrow> string list" where
  "backup_dirs all = sort (remdups (List.map_filter (\<lambda>fi. candidate (fi_Path fi)) all))"

fun load_all :: "('s, 'w) Backend \<Rightarrow> string list \<Rightarrow> 's \<Rightarrow> (BackupRecord list \<times> Warning list) \<times> 's" where
  "load_all b [] s = (([], []), s)"
| "load_all b (d # ds) s =
     (case loadOne b d s of
        (Inl e, s1) \<Rightarrow>
          (case load_all b ds s1 of ((rs, ws), s2) \<Rightarrow> ((rs, \<lparr>wn_BackupID = d, wn_Err = e\<rparr> # ws), s2))
      | (Inr rec, s1) \<Rightarrow> (case load_all b ds s1 of ((rs, ws), s2) \<Rightarrow> ((rec # rs, ws), s2)))"

definition List :: "('s, 'w) Backend \<Rightarrow> ('s, BackupRecord list \<times> Warning list) op" where
  "List b s =
     (case b_List b [] s of
        (Inl e, s1) \<Rightarrow> (Inl (wrapErr ''info: List'' e), s1)
      | (Inr all, s1) \<Rightarrow> (case load_all b (backup_dirs all) s1 of (r, s2) \<Rightarrow> (Inr r, s2)))"


section \<open>Reading a manifest back\<close>

context storage_backend
begin

lemma get_body_facts:
  assumes "inv s" "key p" "get_body B p s = (x, s')"
  shows "inv s' \<and> view s' = view s \<and> (\<forall>d. x = Inr d \<longrightarrow> view s p = Some d)"
proof -
  obtain rc s1 where g: "b_Get B p s = (rc, s1)" by fastforce
  have s1: "inv s1 \<and> view s1 = view s" by (rule get [OF assms(1,2) g])
  show ?thesis
  proof (cases rc)
    case (Inl e)
    then show ?thesis using assms(3) g s1 by (auto simp: get_body_def)
  next
    case (Inr rd)
    then have "s' = s1" "x = io_ReadAll rd" using assms(3) g by (auto simp: get_body_def)
    moreover have "view s p = Some d" if "io_ReadAll rd = Inr d" for d
      using that g Inr get_data [OF assms(1,2)] by (cases rd) (auto simp: io_ReadAll_def split: option.splits)
    ultimately show ?thesis using s1 by simp
  qed
qed

end

lemma find_field_None:
  assumes "list_all (\<lambda>n. foldName n \<noteq> foldName k) (map fst fs)"
  shows "find_field fs k = None"
proof -
  have "map_of fs k = None" using assms by (auto simp: map_of_eq_None_iff list_all_iff)
  moreover have "find (\<lambda>(n, _). foldName n = foldName k) fs = None" using assms by (auto simp: find_None_iff list_all_iff)
  ultimately show ?thesis by (simp add: find_field_def)
qed

lemma other_members:
  "list_all (\<lambda>k. list_all (\<lambda>n. foldName n \<noteq> foldName k) [''Path'', ''Size'', ''Last-Modified''])
     [''Checksum-Algorithm'', ''Checksum'', ''Incremental'']"
  "list_all (\<lambda>k. list_all (\<lambda>n. foldName n \<noteq> foldName k) [''Files'', ''WAL-Ranges''])
     [''PostgreSQL-Backup-Manifest-Version'', ''System-Identifier'', ''Manifest-Checksum'']"
  by code_simp+

definition raw_of :: "fileRec \<Rightarrow> rawFile" where
  "raw_of f = \<lparr>rf_Path = fr_path f, rf_Size = fr_size f, rf_LastModified = format_gmt (fr_modTime f)\<rparr>"

definition raw_manifest :: "BackupStopInfo \<Rightarrow> Builder \<Rightarrow> rawManifest" where
  "raw_manifest stop b =
     \<lparr>rm_Files = Some (map raw_of (bu_files b)),
      rm_WALRanges = Some [\<lparr>rw_Timeline = unat (si_Timeline (bu_start b)), rw_StartLSN = LSN_String (si_StartLSN (bu_start b)),
        rw_EndLSN = LSN_String (st_StopLSN stop)\<rparr>]\<rparr>"

lemma dec_rawFile:
  assumes "fits_int64 (fr_size f)"
  shows "dec_struct_lax fields_rawFile zero_rawFile (manifest_file_json f) = Some (raw_of f)"
proof -
  have none: "find_field fields_rawFile k = None" if "k \<in> {''Checksum-Algorithm'', ''Checksum'', ''Incremental''}" for k
    by (rule find_field_None) (use other_members(1) that in \<open>auto simp: fields_rawFile_def\<close>)
  have some: "find_field fields_rawFile ''Path'' = Some (dec_field rf_Path (\<lambda>a. rf_Path_update (\<lambda>_. a)) dec_string)"
    "find_field fields_rawFile ''Size'' = Some (dec_field rf_Size (\<lambda>a. rf_Size_update (\<lambda>_. a)) dec_int64)"
    "find_field fields_rawFile ''Last-Modified'' = Some (dec_field rf_LastModified (\<lambda>a. rf_LastModified_update (\<lambda>_. a)) dec_string)"
    by (simp_all add: find_field_def fields_rawFile_def)
  show ?thesis using assms
    by (simp add: dec_struct_lax_def manifest_file_json_def some none dec_field_def zero_rawFile_def raw_of_def dec_string_def)
qed

lemma dec_rawManifest:
  assumes "\<forall>f \<in> set (bu_files b). fits_int64 (fr_size f)"
  shows "dec_struct_lax fields_rawManifest \<lparr>rm_Files = None, rm_WALRanges = None\<rparr> (manifest_json stop b) = Some (raw_manifest stop b)"
proof -
  have none: "find_field fields_rawManifest k = None"
    if "k \<in> {''PostgreSQL-Backup-Manifest-Version'', ''System-Identifier'', ''Manifest-Checksum''}" for k
    by (rule find_field_None) (use other_members(2) that in \<open>auto simp: fields_rawManifest_def\<close>)
  have some: "find_field fields_rawManifest ''Files'' = Some (dec_field rm_Files (\<lambda>a. rm_Files_update (\<lambda>_. a))
        (dec_slice (dec_struct_lax fields_rawFile) zero_rawFile))"
    "find_field fields_rawManifest ''WAL-Ranges'' = Some (dec_field rm_WALRanges (\<lambda>a. rm_WALRanges_update (\<lambda>_. a))
        (dec_slice (dec_struct_lax fields_rawWALRange) zero_rawWALRange))"
    by (simp_all add: find_field_def fields_rawManifest_def)
  have files: "those (map (\<lambda>f. dec_struct_lax fields_rawFile zero_rawFile (manifest_file_json f)) (bu_files b)) =
      Some (map raw_of (bu_files b))"
    using assms by (intro those_map_Some) (simp add: dec_rawFile)
  have wal: "dec_struct_lax fields_rawWALRange zero_rawWALRange
      (JObj [(''Timeline'', JNum (fmt_d (unat (si_Timeline (bu_start b))))), (''Start-LSN'', JStr l), (''End-LSN'', JStr e)]) =
      Some \<lparr>rw_Timeline = unat (si_Timeline (bu_start b)), rw_StartLSN = l, rw_EndLSN = e\<rparr>" for l e
    using unat_lt2p_u32 [of "si_Timeline (bu_start b)"]
    by (simp add: dec_struct_lax_def find_field_def fields_rawWALRange_def dec_field_def zero_rawWALRange_def dec_string_def)
  show ?thesis unfolding manifest_json_def
    by (simp add: dec_struct_lax_def [of fields_rawManifest] some none dec_field_def dec_slice_def wal files comp_def raw_manifest_def)
qed

text \<open>The times of a header are the least and the greatest of the file times, to the second.\<close>

definition file_time :: "fileRec \<Rightarrow> gotime" where
  "file_time f = fr_modTime f div time_Second * time_Second"

definition timed :: "fileRec \<Rightarrow> bool" where
  "timed f \<longleftrightarrow> fits 4 (Year (fr_modTime f)) \<and> time_Second \<le> fr_modTime f"

lemma timed_facts:
  assumes "timed f"
  shows "parse_gmt (rf_LastModified (raw_of f)) = Some (file_time f)" "0 < file_time f"
proof -
  show "parse_gmt (rf_LastModified (raw_of f)) = Some (file_time f)"
    using parse_gmt_format assms by (simp add: raw_of_def file_time_def timed_def)
  have "1 \<le> fr_modTime f div time_Second" using assms by (simp add: timed_def time_Second_def zdiv_mono1 [of 1000000000 _ 1000000000, simplified])
  then show "0 < file_time f" by (simp add: file_time_def time_Second_def)
qed

lemma header_file_raw:
  assumes "timed f"
  shows "mh_StopTime (header_file (raw_of f) hdr) = max (file_time f) (mh_StopTime hdr)"
    "mh_StartTime (header_file (raw_of f) hdr) = (if mh_StartTime hdr = 0 then file_time f else min (file_time f) (mh_StartTime hdr))"
    "mh_FileCount (header_file (raw_of f) hdr) = mh_FileCount hdr"
    "mh_Bytes (header_file (raw_of f) hdr) = wrap_int64 (mh_Bytes hdr + fr_size f)"
  using timed_facts [OF assms] by (auto simp: header_file_def IsZero_def raw_of_def Let_def)

lemma wrap_int64_add: "wrap_int64 (wrap_int64 a + c) = wrap_int64 (a + c)"
  unfolding wrap_int64_def by (simp add: mod_simps) (simp add: ac_simps)

lemma header_fold:
  assumes "\<forall>f \<in> set fs. timed f"
  shows "mh_StopTime (fold header_file (map raw_of fs) hdr) = fold max (map file_time fs) (mh_StopTime hdr)"
    "mh_FileCount (fold header_file (map raw_of fs) hdr) = mh_FileCount hdr"
    "fs \<noteq> [] \<Longrightarrow> mh_Bytes (fold header_file (map raw_of fs) hdr) = wrap_int64 (mh_Bytes hdr + sum_list (map fr_size fs))"
    "0 < mh_StartTime hdr \<Longrightarrow> mh_StartTime (fold header_file (map raw_of fs) hdr) = fold min (map file_time fs) (mh_StartTime hdr)"
  using assms
proof (induction fs arbitrary: hdr)
  case (Cons f fs)
  { case 1 then show ?case using Cons.IH(1) by (simp add: header_file_raw)
  next case 2 then show ?case using Cons.IH(2) by (simp add: header_file_raw)
  next case 3
    then show ?case using Cons.IH(3) [of "header_file (raw_of f) hdr"]
      by (cases "fs = []") (simp_all add: header_file_raw wrap_int64_add add.assoc)
  next case 4
    then show ?case using Cons.IH(4) [of "header_file (raw_of f) hdr"] timed_facts(2) by (simp add: header_file_raw) }
qed simp_all

definition expected_header :: "BackupStopInfo \<Rightarrow> Builder \<Rightarrow> manifestHeader" where
  "expected_header stop b =
     \<lparr>mh_Timeline = unat (si_Timeline (bu_start b)), mh_StartLSN = LSN_String (si_StartLSN (bu_start b)),
      mh_StopLSN = LSN_String (st_StopLSN stop), mh_StartTime = Min (file_time ` set (bu_files b)),
      mh_StopTime = Max (file_time ` set (bu_files b)), mh_FileCount = length (bu_files b),
      mh_Bytes = wrap_int64 (sum_list (map fr_size (bu_files b)))\<rparr>"

lemma header_of_raw:
  assumes "\<forall>f \<in> set (bu_files b). timed f" "bu_files b \<noteq> []"
  shows "header_of (raw_manifest stop b) = expected_header stop b"
proof -
  obtain f fs where fs: "bu_files b = f # fs" using assms(2) by (cases "bu_files b") auto
  define h where "h = fold header_file (map raw_of (bu_files b)) (zero_manifestHeader\<lparr>mh_FileCount := length (bu_files b)\<rparr>)"
  have t: "timed f" "\<forall>g \<in> set fs. timed g" using assms fs by auto
  have "mh_StopTime h = fold max (map file_time fs) (file_time f)"
    unfolding h_def header_fold(1) [OF assms(1)] using timed_facts(2) [OF t(1)] by (simp add: fs zero_manifestHeader_def max_def)
  then have stop: "mh_StopTime h = Max (file_time ` set (bu_files b))"
    using Max.set_eq_fold [of "file_time f" "map file_time fs"] by (simp add: fs)
  have "mh_StartTime h = fold min (map file_time fs) (file_time f)"
    unfolding h_def fs list.map fold_simps
    by (subst header_fold(4) [OF t(2)]) (simp_all add: header_file_raw(2) [OF t(1)] zero_manifestHeader_def timed_facts(2) [OF t(1)])
  then have start: "mh_StartTime h = Min (file_time ` set (bu_files b))"
    using Min.set_eq_fold [of "file_time f" "map file_time fs"] by (simp add: fs)
  have "header_of (raw_manifest stop b) = h\<lparr>mh_Timeline := unat (si_Timeline (bu_start b)),
      mh_StartLSN := LSN_String (si_StartLSN (bu_start b)), mh_StopLSN := LSN_String (st_StopLSN stop)\<rparr>"
    by (simp add: header_of_def raw_manifest_def slice_list_def h_def)
  moreover have "mh_FileCount h = length (bu_files b)" "mh_Bytes h = wrap_int64 (sum_list (map fr_size (bu_files b)))"
    using header_fold(2,3) [OF assms(1)] assms(2) by (simp_all add: h_def zero_manifestHeader_def)
  ultimately show ?thesis using start stop by (simp add: expected_header_def)
qed

lemma path_key_body:
  assumes "readManifestHeader B d s = (Inr hdr, s')"
  obtains body s1 v raw where "get_body B (path_Join [d, ''backup_manifest'']) s = (Inr body, s1)" "json_Unmarshal body = Some v"
    "dec_struct_lax fields_rawManifest \<lparr>rm_Files = None, rm_WALRanges = None\<rparr> v = Some raw" "hdr = header_of raw" "s' = s1"
  using assms by (auto simp: readManifestHeader_def split: prod.splits sum.splits option.splits)

text \<open>C37: what \<open>info\<close> shows of a backup is what the manifest builder put in: from a stored manifest
  \<open>readManifestHeader\<close> gets back the timeline and both LSNs, the number of files and their total size,
  and the first and the last modification time.\<close>

theorem readManifestHeader_Finalize:
  assumes "posix_inv r s" "posix_key (path_Join [d, ''backup_manifest''])"
    "posix_view r s (path_Join [d, ''backup_manifest'']) = Some (Finalize stop b)"
    "\<forall>f \<in> set (bu_files b). valid_utf8 (fr_path f) \<and> fits_int64 (fr_size f) \<and> timed f" "bu_files b \<noteq> []"
    "readManifestHeader (posix_backend r) d s = (Inr hdr, s')"
  shows "hdr = expected_header stop b"
proof -
  from assms(6) obtain body s1 v raw where g: "get_body (posix_backend r) (path_Join [d, ''backup_manifest'']) s = (Inr body, s1)"
    "json_Unmarshal body = Some v" "dec_struct_lax fields_rawManifest \<lparr>rm_Files = None, rm_WALRanges = None\<rparr> v = Some raw"
    "hdr = header_of raw" by (rule path_key_body)
  have "body = Finalize stop b" using pstore.get_body_facts [OF assms(1,2) g(1)] assms(3) by simp
  then have "v = manifest_json stop b" using g(2) Finalize_Unmarshal assms(4) by simp
  then have "raw = raw_manifest stop b" using g(3) dec_rawManifest assms(4) by simp
  then show ?thesis using g(4) header_of_raw assms(4,5) by simp
qed

lemma store_get_body:
  assumes "store_ok ds (map fst kvs)" "clean_rel k" "map_of kvs k = Some d"
  shows "get_body (posix_backend example_root) k (store_fs ds kvs) = (Inr d, tick (tick (store_fs ds kvs)))"
  using store_get [OF assms] by (simp add: get_body_def posix_backend_def io_ReadAll_def)

definition example_files :: Builder where
  "example_files =
     AddFile ''base/1/1259'' 8192 zero32 63850000000000000000
       (AddFile ''PG_VERSION'' 3 zero32 63840000000000000000
         (NewBuilder \<lparr>si_SystemIdentifier = 42, si_Timeline = 1, si_StartLSN = 0x2000028, si_StartTime = 0\<rparr>))"

lemma example_files_ok: "\<forall>f \<in> set (bu_files example_files). valid_utf8 (fr_path f) \<and> fits_int64 (fr_size f) \<and> timed f"
proof -
  have "ascii_string ''base/1/1259''" "ascii_string ''PG_VERSION''" by (simp_all add: ascii_string_def)
  moreover have "fits 4 (Year 63850000000000000000)" "fits 4 (Year 63840000000000000000)" by code_simp+
  ultimately show ?thesis
    by (auto simp: example_files_def AddFile_def NewBuilder_def timed_def time_Second_def fits_int64_def intro: valid_utf8_ascii)
qed

definition example_stop :: BackupStopInfo where
  "example_stop = \<lparr>st_StopLSN = 0x2000100, st_StopTime = 0\<rparr>"

definition example_store :: pfs where
  "example_store = store_fs [''aF''] [(''aF/backup_manifest'', Finalize example_stop example_files)]"

lemma example_store_facts:
  "path_Join [''aF'', ''backup_manifest''] = ''aF/backup_manifest''" "posix_key ''aF/backup_manifest''"
  "store_ok [''aF''] [''aF/backup_manifest'']"
  by code_simp+

theorem readManifestHeader_Finalize_witness:
  "fst (readManifestHeader (posix_backend example_root) ''aF'' example_store) = Inr (expected_header example_stop example_files)"
proof -
  let ?out = "readManifestHeader (posix_backend example_root) ''aF'' example_store"
  have ok: "store_ok [''aF''] (map fst [(''aF/backup_manifest'', Finalize example_stop example_files)])"
    using example_store_facts(3) by simp
  have k: "clean_rel ''aF/backup_manifest''" using example_store_facts(2) by (simp add: posix_key_def)
  have "\<exists>hdr. ?out = (Inr hdr, snd ?out)"
    unfolding readManifestHeader_def example_store_facts(1) example_store_def
    using store_get_body [OF ok k] Finalize_Unmarshal [of example_files example_stop] dec_rawManifest [of example_files example_stop] example_files_ok
    by simp
  then obtain hdr where h: "?out = (Inr hdr, snd ?out)" ..
  have "hdr = expected_header example_stop example_files"
  proof (rule readManifestHeader_Finalize [OF _ _ _ example_files_ok _ h])
    show "posix_inv example_root example_store" using store_fs_inv [OF ok] by (simp add: example_store_def)
    show "posix_key (path_Join [''aF'', ''backup_manifest''])" using example_store_facts by simp
    show "posix_view example_root example_store (path_Join [''aF'', ''backup_manifest'']) = Some (Finalize example_stop example_files)"
      unfolding example_store_def store_fs_view [OF ok] using example_store_facts by simp
    show "bu_files example_files \<noteq> []" by (simp add: example_files_def AddFile_def)
  qed
  then show ?thesis using h by (metis fst_conv)
qed


section \<open>The listing is complete\<close>

lemma loadOne_ID: "loadOne b d s = (Inr rec, s') \<Longrightarrow> br_BackupID rec = d"
  by (auto simp: loadOne_def record_of_id_def apply_sidecar_def apply_header_def Let_def split: prod.splits sum.splits option.splits if_splits)

lemma load_all_IDs:
  "sorted_wrt (<) ds \<Longrightarrow> load_all b ds s = ((rs, ws), s') \<Longrightarrow>
     set (map br_BackupID rs) \<union> set (map wn_BackupID ws) = set ds \<and>
     set (map br_BackupID rs) \<inter> set (map wn_BackupID ws) = {} \<and> sorted_wrt (<) (map br_BackupID rs)"
proof (induction ds arbitrary: s rs ws s')
  case (Cons d ds)
  obtain x s1 where x: "loadOne b d s = (x, s1)" by fastforce
  obtain rs1 ws1 s2 where l: "load_all b ds s1 = ((rs1, ws1), s2)" by (metis prod.exhaust)
  have IH: "set (map br_BackupID rs1) \<union> set (map wn_BackupID ws1) = set ds"
    "set (map br_BackupID rs1) \<inter> set (map wn_BackupID ws1) = {}" "sorted_wrt (<) (map br_BackupID rs1)"
    using Cons.IH [OF _ l] Cons.prems(1) by auto
  have d: "\<forall>y \<in> set ds. d < y" using Cons.prems(1) by simp
  show ?case
  proof (cases x)
    case (Inl e)
    then have "rs = rs1" "ws = \<lparr>wn_BackupID = d, wn_Err = e\<rparr> # ws1" using Cons.prems(2) x l by auto
    then show ?thesis using IH d by auto
  next
    case (Inr rec)
    then have "rs = rec # rs1" "ws = ws1" "br_BackupID rec = d" using Cons.prems(2) x l loadOne_ID [of b d s rec s1] by auto
    then show ?thesis using IH d by auto
  qed
qed simp

lemma SplitN2_parts:
  "length (strings_SplitN2 c s) < 2 \<longleftrightarrow> c \<notin> set s"
  "c \<notin> set a \<Longrightarrow> strings_SplitN2 c (a @ c # b) = [a, b]"
proof -
  have "snd (snd (strings_Cut c s)) \<longleftrightarrow> c \<in> set s" by (induction s) (auto split: prod.splits)
  then show "length (strings_SplitN2 c s) < 2 \<longleftrightarrow> c \<notin> set s" by (auto simp: strings_SplitN2_def split: prod.splits)
  show "strings_SplitN2 c (a @ c # b) = [a, b]" if "c \<notin> set a" using strings_Cut_append [OF that, of b] by (simp add: strings_SplitN2_def)
qed

lemma candidate_iff:
  "candidate p = Some d \<longleftrightarrow>
     CHR ''/'' \<notin> set d \<and> (strings_HasSuffix d ''F'' \<or> strings_HasSuffix d ''I'') \<and> (\<exists>x. p = d @ CHR ''/'' # x)"
proof (cases "CHR ''/'' \<in> set p")
  case True
  then obtain a b where p: "p = a @ CHR ''/'' # b" "CHR ''/'' \<notin> set a" by (meson split_list_first)
  have "d = a" if "p = d @ CHR ''/'' # x" "CHR ''/'' \<notin> set d" for x
    using that p by (metis strings_Cut_append prod.inject)
  then show ?thesis using p SplitN2_parts(2) [OF p(2), of b] by (auto simp: candidate_def Let_def)
next
  case False
  then show ?thesis using SplitN2_parts(1) [of "CHR ''/''" p] by (auto simp: candidate_def)
qed

lemma backup_dirs_keys:
  assumes "posix_inv r s" "b_List (posix_backend r) [] s = (Inr all, s1)"
  shows "set (backup_dirs all) = {d. CHR ''/'' \<notin> set d \<and> (strings_HasSuffix d ''F'' \<or> strings_HasSuffix d ''I'') \<and>
          (\<exists>x. posix_view r s (d @ CHR ''/'' # x) \<noteq> None)}"
proof -
  have keys: "set (map fi_Path all) = {k. posix_view r s k \<noteq> None \<and> listed [] k}"
    using pstore.list_keys [OF assms(1) _ assms(2)] by simp
  have "set (backup_dirs all) = {d. \<exists>k \<in> set (map fi_Path all). candidate k = Some d}"
    by (force simp: backup_dirs_def List.map_filter_def)
  also have "\<dots> = {d. CHR ''/'' \<notin> set d \<and> (strings_HasSuffix d ''F'' \<or> strings_HasSuffix d ''I'') \<and>
          (\<exists>x. posix_view r s (d @ CHR ''/'' # x) \<noteq> None)}"
  proof -
    have "listed [] (d @ CHR ''/'' # x)" if d: "CHR ''/'' \<notin> set d" "strings_HasSuffix d ''F'' \<or> strings_HasSuffix d ''I''" for d x
    proof -
      have "d \<noteq> ''wal''" using d(2) by (auto simp: suffix_def append_eq_Cons_conv)
      moreover have "d = ''wal''" if "''wal/'' @ y = d @ CHR ''/'' # x" for y
      proof -
        have "strings_Cut (CHR ''/'') (''wal/'' @ y) = (''wal'', y, True)" by simp
        then show ?thesis using strings_Cut_append [OF d(1), of x] unfolding that by simp
      qed
      moreover have "d @ CHR ''/'' # x \<noteq> ''wal''"
      proof
        assume "d @ CHR ''/'' # x = ''wal''"
        then have "CHR ''/'' \<in> set ''wal''" by (metis in_set_conv_decomp)
        then show False by simp
      qed
      ultimately show ?thesis by (auto simp: listed_def prefix_def)
    qed
    then show ?thesis unfolding keys candidate_iff by blast
  qed
  finally show ?thesis .
qed

lemma List_IDs:
  assumes "posix_inv r s" "List (posix_backend r) s = (Inr (rs, ws), s')"
  shows "set (map br_BackupID rs) \<union> set (map wn_BackupID ws) =
      {d. CHR ''/'' \<notin> set d \<and> (strings_HasSuffix d ''F'' \<or> strings_HasSuffix d ''I'') \<and>
          (\<exists>x. posix_view r s (d @ CHR ''/'' # x) \<noteq> None)} \<and>
    set (map br_BackupID rs) \<inter> set (map wn_BackupID ws) = {} \<and> sorted_wrt (<) (map br_BackupID rs)"
proof -
  from assms(2) obtain all s1 where l: "b_List (posix_backend r) [] s = (Inr all, s1)"
    "load_all (posix_backend r) (backup_dirs all) s1 = ((rs, ws), s')"
    by (auto simp: List_def split: prod.splits sum.splits)
  have srt: "sorted_wrt (<) (backup_dirs all)" by (simp add: backup_dirs_def strict_sorted_iff)
  show ?thesis using load_all_IDs [OF srt l(2)] unfolding backup_dirs_keys [OF assms(1) l(1)] by simp
qed



end
