(* ===== verification/Retention.thy ===== *)
theory Retention
  imports Info
begin

text \<open>
  \<open>internal/retention/retention.go\<close>: which backups a retention policy lets go.

  A \<open>time.Time\<close> is an instant and a location. A location is what the time zone database says of it:
  the offset from UTC in force at an instant (in seconds) and the interval in which it stays in force.
  The times of backup records are parsed from text without a zone and are in UTC; \<open>now\<close> is local.

  Go iterates over a map in any order. Every \<open>range\<close> over the chains takes its order from the argument
  \<open>rng\<close>, numbered in the order of the source; \<open>rng_ok\<close> says that each of them is an order of the keys.
\<close>

type_synonym location = "int \<Rightarrow> int \<times> int \<times> int"
type_synonym gotimeL = "gotime \<times> location"

definition time_UTC :: location where
  "time_UTC u = (0, 0, 0)"

definition local_time :: "location \<Rightarrow> gotime \<Rightarrow> gotime" where
  "local_time loc t = t + fst (loc (t div time_Second)) * time_Second"

text \<open>\<open>time.Date\<close>: the offset is looked up as if the fields were UTC, and again when that offset is
  not in force at the instant it leads to.\<close>

definition time_DateIn :: "int \<Rightarrow> int \<Rightarrow> int \<Rightarrow> int \<times> int \<times> int \<Rightarrow> location \<Rightarrow> gotime" where
  "time_DateIn y mo d hms loc =
     (let u = time_Date y mo d (fst hms) (fst (snd hms)) (snd (snd hms)) 0 div time_Second;
          (off, st, en) = loc u
      in (if off = 0 then u
          else if u - off < st \<or> en \<le> u - off then u - fst (loc (u - off))
          else u - off) * time_Second)"

text \<open>
  \<open>int(d.Hours() / h)\<close>: the quotient is rounded towards zero. The durations here are differences of
  whole seconds, below \<open>2 ^ 63\<close> nanoseconds, where the floating-point quotient cannot reach the next integer.
\<close>

definition hours_div :: "duration \<Rightarrow> int \<Rightarrow> int" where
  "hours_div d h = sgn d * (\<bar>d\<bar> div (h * time_Hour))"


section \<open>Policy and plan\<close>

record Policy =
  pol_KeepFulls :: int
  pol_KeepFullAge :: duration
  pol_KeepDaily :: int
  pol_KeepWeekly :: int
  pol_KeepMonthly :: int
  pol_Now :: gotimeL

record Plan =
  pl_ExpirableBackupIDs :: "string list"
  pl_OldestNeededLSN :: LSN
  pl_KeptBackupIDs :: "string list"

definition Policy_Validate :: "Policy \<Rightarrow> goerr option" where
  "Policy_Validate p =
     (if pol_KeepFulls p = 0 \<and> pol_KeepFullAge p = 0 \<and> pol_KeepDaily p = 0 \<and> pol_KeepWeekly p = 0 \<and> pol_KeepMonthly p = 0
      then Some (GoErr ErrEmptyPolicy ''retention: empty policy (specify at least one keep_* rule)'')
      else None)"


section \<open>Chains\<close>

record chain =
  ch_full :: BackupRecord
  ch_incrementals :: "BackupRecord list"

definition zero_record :: BackupRecord where
  "zero_record = \<lparr>br_BackupID = [], br_Type = [], br_ParentBackupID = [], br_Server = [], br_Compression = [],
     br_Recipients = None, br_Annotation = [], br_StartLSN = [], br_StopLSN = [], br_Timeline = 0,
     br_StartTime = 0, br_StopTime = 0, br_Files = 0, br_Bytes = 0\<rparr>"

definition chain_all :: "chain \<Rightarrow> BackupRecord list" where
  "chain_all c = ch_full c # ch_incrementals c"

type_synonym chain_map = "string \<rightharpoonup> chain"

text \<open>\<open>chains[k]\<close>: the zero chain for a key that is not there.\<close>

definition chain_at :: "chain_map \<Rightarrow> string \<Rightarrow> chain" where
  "chain_at chs k = (case chs k of Some c \<Rightarrow> c | None \<Rightarrow> \<lparr>ch_full = zero_record, ch_incrementals = []\<rparr>)"

definition byID :: "BackupRecord list \<Rightarrow> string \<rightharpoonup> BackupRecord" where
  "byID all = fold (\<lambda>rr m. m(br_BackupID rr \<mapsto> rr)) all Map.empty"

fun root_walk :: "BackupRecord list \<Rightarrow> nat \<Rightarrow> BackupRecord \<Rightarrow> string" where
  "root_walk all 0 cur = []"
| "root_walk all (Suc i) cur =
     (if br_Type cur = BackupTypeFull then br_BackupID cur
      else (case byID all (br_ParentBackupID cur) of
              None \<Rightarrow> []
            | Some parent \<Rightarrow> root_walk all i parent))"

definition rootOf :: "BackupRecord \<Rightarrow> BackupRecord list \<Rightarrow> string" where
  "rootOf r all = root_walk all (length all + 1) r"

definition group_fulls :: "BackupRecord list \<Rightarrow> string \<rightharpoonup> BackupRecord" where
  "group_fulls records =
     fold (\<lambda>r fulls. if br_Type r = BackupTypeFull then fulls(br_BackupID r \<mapsto> r) else fulls) records Map.empty"

definition group_add :: "BackupRecord list \<Rightarrow> BackupRecord \<Rightarrow> chain_map \<Rightarrow> chain_map" where
  "group_add records r chs =
     (if br_Type r \<noteq> BackupTypeIncremental then chs
      else let root = rootOf r records
           in if root = [] then chs
              else let c = chain_at chs root
                   in chs(root \<mapsto> c\<lparr>ch_incrementals := ch_incrementals c @ [r]\<rparr>))"

definition groupChains :: "BackupRecord list \<Rightarrow> chain_map" where
  "groupChains records =
     fold (group_add records) records
       (\<lambda>k. map_option (\<lambda>f. \<lparr>ch_full = f, ch_incrementals = []\<rparr>) (group_fulls records k))"

definition byNewestFullStopTime :: "chain_map \<Rightarrow> string \<Rightarrow> string \<Rightarrow> bool" where
  "byNewestFullStopTime chs a b =
     (let ta = br_StopTime (ch_full (chain_at chs a)); tb = br_StopTime (ch_full (chain_at chs b))
      in if ta \<noteq> tb then tb < ta
         else br_BackupID (ch_full (chain_at chs a)) < br_BackupID (ch_full (chain_at chs b)))"

text \<open>\<open>sort.Slice\<close>; \<open>byNewestFullStopTime\<close> orders distinct keys in one way only, so the algorithm
  does not show.\<close>

fun insert_by :: "('a \<Rightarrow> 'a \<Rightarrow> bool) \<Rightarrow> 'a \<Rightarrow> 'a list \<Rightarrow> 'a list" where
  "insert_by lt x [] = [x]"
| "insert_by lt x (y # ys) = (if lt y x then y # insert_by lt x ys else x # y # ys)"

definition sort_Slice :: "('a \<Rightarrow> 'a \<Rightarrow> bool) \<Rightarrow> 'a list \<Rightarrow> 'a list" where
  "sort_Slice lt xs = foldr (insert_by lt) xs []"

definition orderedChainKeys :: "string list \<Rightarrow> (string \<Rightarrow> string \<Rightarrow> bool) \<Rightarrow> string list" where
  "orderedChainKeys keys lt = sort_Slice lt keys"


section \<open>Buckets\<close>

definition truncateToDay :: "gotimeL \<Rightarrow> gotimeL" where
  "truncateToDay t =
     (let l = local_time (snd t) (fst t) in (time_DateIn (Year l) (Month l) (Day l) (0, 0, 0) (snd t), snd t))"

definition truncateToWeek :: "gotimeL \<Rightarrow> gotimeL" where
  "truncateToWeek t =
     (let d = truncateToDay t; l = local_time (snd d) (fst d); wd = Weekday_of_day (day_number l)
      in (time_DateIn (Year l) (Month l) (Day l - wd) (clock_fields l) (snd d), snd d))"

definition monthsBetween :: "gotimeL \<Rightarrow> gotimeL \<Rightarrow> int" where
  "monthsBetween t now =
     (let a = local_time (snd t) (fst t); b = local_time (snd now) (fst now)
      in (Year b - Year a) * 12 + (Month b - Month a))"

definition dayBucket :: "gotimeL \<Rightarrow> gotimeL \<Rightarrow> int" where
  "dayBucket now t = hours_div (time_Sub (fst (truncateToDay now)) (fst (truncateToDay t))) 24"

definition weekBucket :: "gotimeL \<Rightarrow> gotimeL \<Rightarrow> int" where
  "weekBucket now t = hours_div (time_Sub (fst (truncateToWeek now)) (fst (truncateToWeek t))) (24 * 7)"

definition monthBucket :: "gotimeL \<Rightarrow> gotimeL \<Rightarrow> int" where
  "monthBucket now t = monthsBetween t now"

fun pick_newest :: "string \<times> gotime \<Rightarrow> (string \<times> gotime) list \<Rightarrow> string \<times> gotime" where
  "pick_newest best [] = best"
| "pick_newest best (e # es) = pick_newest (if snd best < snd e then e else best) es"

text \<open>The entries with their bucket; then, per bucket, the newest.\<close>

definition bucket_entries :: "string list \<Rightarrow> chain_map \<Rightarrow> int \<Rightarrow> (gotimeL \<Rightarrow> int) \<Rightarrow> (int \<times> string \<times> gotime) list" where
  "bucket_entries order chs n bucket =
     List.map_filter
       (\<lambda>k. let t = br_StopTime (ch_full (chain_at chs k))
            in if IsZero t then None
               else let idx = bucket (t, time_UTC)
                    in if idx < 0 \<or> n \<le> idx then None else Some (idx, k, t)) order"

definition bucket_best :: "(int \<times> string \<times> gotime) list \<Rightarrow> int \<Rightarrow> string" where
  "bucket_best es idx =
     (case map snd (filter (\<lambda>e. fst e = idx) es) of [] \<Rightarrow> [] | e # es' \<Rightarrow> fst (pick_newest e es'))"

definition applyBucketRule ::
  "string list \<Rightarrow> chain_map \<Rightarrow> (string \<Rightarrow> bool) \<Rightarrow> int \<Rightarrow> (gotimeL \<Rightarrow> int) \<Rightarrow> string \<Rightarrow> bool" where
  "applyBucketRule order chs keep n bucket =
     (if n \<le> 0 then keep
      else let es = bucket_entries order chs n bucket
           in fold (\<lambda>idx keep. keep(bucket_best es idx := True)) (remdups (map fst es)) keep)"


section \<open>Evaluate\<close>

definition keep_fulls :: "string list \<Rightarrow> chain_map \<Rightarrow> int \<Rightarrow> (string \<Rightarrow> bool) \<Rightarrow> string \<Rightarrow> bool" where
  "keep_fulls order chs n keep =
     (if 0 < n
      then fold (\<lambda>k keep. keep(k := True)) (take (nat n) (orderedChainKeys order (byNewestFullStopTime chs))) keep
      else keep)"

definition keep_full_age :: "string list \<Rightarrow> chain_map \<Rightarrow> duration \<Rightarrow> gotime \<Rightarrow> (string \<Rightarrow> bool) \<Rightarrow> string \<Rightarrow> bool" where
  "keep_full_age order chs age now keep =
     (if 0 < age
      then fold (\<lambda>k keep. let t = br_StopTime (ch_full (chain_at chs k))
                          in if \<not> IsZero t \<and> now - age < t then keep(k := True) else keep) order keep
      else keep)"

definition keep_bucket ::
  "string list \<Rightarrow> chain_map \<Rightarrow> int \<Rightarrow> (gotimeL \<Rightarrow> int) \<Rightarrow> (string \<Rightarrow> bool) \<Rightarrow> string \<Rightarrow> bool" where
  "keep_bucket order chs n bucket keep = (if 0 < n then applyBucketRule order chs keep n bucket else keep)"

definition keep_set :: "(nat \<Rightarrow> string list) \<Rightarrow> chain_map \<Rightarrow> Policy \<Rightarrow> gotimeL \<Rightarrow> string \<Rightarrow> bool" where
  "keep_set rng chs policy now =
     keep_bucket (rng 4) chs (pol_KeepMonthly policy) (monthBucket now)
       (keep_bucket (rng 3) chs (pol_KeepWeekly policy) (weekBucket now)
         (keep_bucket (rng 2) chs (pol_KeepDaily policy) (dayBucket now)
           (keep_full_age (rng 1) chs (pol_KeepFullAge policy) (fst now)
             (keep_fulls (rng 0) chs (pol_KeepFulls policy) (\<lambda>_. False)))))"

record tally =
  ta_expirable :: "string list"
  ta_kept :: "string list"
  ta_minLSN :: LSN
  ta_anyKept :: bool

definition lsn_or_zero :: "string \<Rightarrow> LSN" where
  "lsn_or_zero s = (case ParseLSN s of Inr l \<Rightarrow> l | Inl _ \<Rightarrow> 0)"

definition tally_chain :: "chain_map \<Rightarrow> (string \<Rightarrow> bool) \<Rightarrow> string \<Rightarrow> tally \<Rightarrow> tally" where
  "tally_chain chs keep k ta =
     (let ch = chain_at chs k in
      if keep k
      then let ta = ta\<lparr>ta_kept := ta_kept ta @ map br_BackupID (chain_all ch)\<rparr>;
               lsn = lsn_or_zero (br_StartLSN (ch_full ch))
           in if \<not> ta_anyKept ta \<or> lsn < ta_minLSN ta then ta\<lparr>ta_minLSN := lsn, ta_anyKept := True\<rparr> else ta
      else ta\<lparr>ta_expirable := ta_expirable ta @ map br_BackupID (chain_all ch)\<rparr>)"

definition Evaluate :: "(nat \<Rightarrow> string list) \<Rightarrow> gotimeL \<Rightarrow> BackupRecord list \<Rightarrow> Policy \<Rightarrow> Plan res" where
  "Evaluate rng clock records policy =
     (case Policy_Validate policy of
        Some e \<Rightarrow> Inl e
      | None \<Rightarrow>
          (let now = (if IsZero (fst (pol_Now policy)) then clock else pol_Now policy);
               chs = groupChains records;
               keep = keep_set rng chs policy now;
               ta = fold (tally_chain chs keep) (rng 5)
                      \<lparr>ta_expirable = [], ta_kept = [], ta_minLSN = 0, ta_anyKept = False\<rparr>
           in Inr \<lparr>pl_ExpirableBackupIDs = sort (ta_expirable ta), pl_OldestNeededLSN = ta_minLSN ta,
                   pl_KeptBackupIDs = sort (ta_kept ta)\<rparr>))"

definition rng_ok :: "BackupRecord list \<Rightarrow> (nat \<Rightarrow> string list) \<Rightarrow> bool" where
  "rng_ok records rng \<longleftrightarrow>
     (\<forall>i. distinct (rng i) \<and> set (rng i) = dom (groupChains records))"

text \<open>What \<open>info.List\<close> gives: distinct, non-empty IDs.\<close>

definition records_ok :: "BackupRecord list \<Rightarrow> bool" where
  "records_ok records \<longleftrightarrow> distinct (map br_BackupID records) \<and> [] \<notin> set (map br_BackupID records)"


section \<open>Maps built from the records\<close>

lemma fold_map_upd:
  "fold (\<lambda>r m. if P r then m(f r \<mapsto> r) else m) rs m0 =
     (\<lambda>k. case find (\<lambda>r. P r \<and> f r = k) (rev rs) of Some r \<Rightarrow> Some r | None \<Rightarrow> m0 k)"
proof (induction rs arbitrary: m0)
  case (Cons r rs)
  have app: "find Q (xs @ ys) = (case find Q xs of Some x \<Rightarrow> Some x | None \<Rightarrow> find Q ys)" for Q xs ys
    by (induction xs) auto
  show ?case using Cons by (auto simp: fun_eq_iff app split: option.splits)
qed simp

lemma find_distinct:
  assumes "distinct (map f rs)" "r \<in> set rs" "P r"
  shows "find (\<lambda>x. P x \<and> f x = f r) (rev rs) = Some r"
proof -
  have inj: "x = r" if "x \<in> set rs" "f x = f r" for x using that assms by (auto simp: distinct_map inj_on_def)
  have "find (\<lambda>x. P x \<and> f x = f r) (rev rs) \<noteq> None" using assms by (auto simp: find_None_iff)
  then obtain x where x: "find (\<lambda>x. P x \<and> f x = f r) (rev rs) = Some x" by auto
  then have "x \<in> set rs" "f x = f r" by (auto simp: find_Some_iff) (metis length_rev nth_mem set_rev)
  with inj x show ?thesis by simp
qed

lemma find_rev_SomeD: "find P (rev rs) = Some r \<Longrightarrow> r \<in> set rs \<and> P r"
  by (metis find_Some_iff length_rev nth_mem set_rev)

lemma byID_eq: "byID all k = find (\<lambda>r. br_BackupID r = k) (rev all)"
  using fold_map_upd [of "\<lambda>_. True" br_BackupID all Map.empty] by (simp add: byID_def split: option.splits)

lemma byID_record: "records_ok all \<Longrightarrow> r \<in> set all \<Longrightarrow> byID all (br_BackupID r) = Some r"
  using find_distinct [of br_BackupID all r "\<lambda>_. True"] by (simp add: byID_eq records_ok_def)

lemma byID_SomeD: "byID all k = Some r \<Longrightarrow> r \<in> set all \<and> br_BackupID r = k"
  unfolding byID_eq by (drule find_rev_SomeD) simp

lemma group_fulls_eq: "group_fulls rs k = find (\<lambda>r. br_Type r = BackupTypeFull \<and> br_BackupID r = k) (rev rs)"
  using fold_map_upd [of "\<lambda>r. br_Type r = BackupTypeFull" br_BackupID rs Map.empty]
  by (simp add: group_fulls_def split: option.splits)

lemma full_not_incremental [simp]: "BackupTypeFull \<noteq> BackupTypeIncremental" "BackupTypeIncremental \<noteq> BackupTypeFull"
  by (simp_all add: BackupTypeFull_def BackupTypeIncremental_def)


section \<open>The walk to the root\<close>

text \<open>\<open>lineage all r rs\<close>: the records from \<open>r\<close> up to its full, along the parent IDs.\<close>

inductive lineage :: "BackupRecord list \<Rightarrow> BackupRecord \<Rightarrow> BackupRecord list \<Rightarrow> bool" for all where
  lineage_full: "br_Type r = BackupTypeFull \<Longrightarrow> lineage all r [r]"
| lineage_parent: "br_Type r \<noteq> BackupTypeFull \<Longrightarrow> byID all (br_ParentBackupID r) = Some p \<Longrightarrow> lineage all p rs \<Longrightarrow>
    lineage all r (r # rs)"

inductive_cases lineageE: "lineage all r rs"

lemma lineage_unique: "lineage all r rs \<Longrightarrow> lineage all r rs' \<Longrightarrow> rs' = rs"
proof (induction arbitrary: rs' rule: lineage.induct)
  case (lineage_full r)
  then show ?case by (auto elim: lineageE)
next
  case (lineage_parent r p rs)
  from lineage_parent.prems lineage_parent.hyps obtain p' us where "rs' = r # us" "byID all (br_ParentBackupID r) = Some p'"
    "lineage all p' us"
    by (auto elim: lineageE)
  then show ?case using lineage_parent by simp
qed

lemma lineage_nonempty: "lineage all r rs \<Longrightarrow> rs \<noteq> [] \<and> hd rs = r \<and> br_Type (last rs) = BackupTypeFull"
  by (induction rule: lineage.induct) auto

lemma lineage_suffix: "lineage all r (us @ x # vs) \<Longrightarrow> lineage all x (x # vs)"
proof (induction us arbitrary: r)
  case Nil
  then show ?case using lineage_nonempty by fastforce
next
  case (Cons u us)
  from Cons.prems obtain p where "lineage all p (us @ x # vs)" by (auto elim: lineageE)
  then show ?case by (rule Cons.IH)
qed

lemma lineage_distinct: "lineage all r rs \<Longrightarrow> distinct rs"
proof (induction rule: lineage.induct)
  case (lineage_parent r p rs)
  have "r \<notin> set rs"
  proof
    assume "r \<in> set rs"
    then obtain us vs where "rs = us @ r # vs" by (meson split_list)
    moreover have "lineage all r (r # rs)" using lineage_parent by (auto intro: lineage.intros)
    ultimately have "lineage all r ((r # us) @ r # vs)" by simp
    then have "r # vs = (r # us) @ r # vs"
      using lineage_suffix [of all r "r # us" r vs] lineage_unique by blast
    then show False by simp
  qed
  then show ?case using lineage_parent by simp
qed simp

lemma lineage_records: "lineage all r rs \<Longrightarrow> r \<in> set all \<Longrightarrow> set rs \<subseteq> set all"
  by (induction rule: lineage.induct) (auto dest: byID_SomeD)

lemma root_walk_lineage:
  "lineage all r rs \<Longrightarrow> length rs \<le> n \<Longrightarrow> root_walk all n r = br_BackupID (last rs)"
proof (induction arbitrary: n rule: lineage.induct)
  case (lineage_full r)
  then show ?case by (cases n) auto
next
  case (lineage_parent r p rs)
  then show ?case using lineage_nonempty [of all p rs] by (cases n) auto
qed

lemma root_walk_found: "root_walk all n r \<noteq> [] \<Longrightarrow> \<exists>rs. lineage all r rs"
proof (induction n arbitrary: r)
  case (Suc n)
  then show ?case
    by (cases "br_Type r = BackupTypeFull")
      (fastforce intro: lineage.intros split: option.splits)+
qed simp

text \<open>The bound of the loop is large enough: a lineage repeats no record.\<close>

lemma rootOf_lineage:
  assumes "lineage all r rs" "r \<in> set all"
  shows "rootOf r all = br_BackupID (last rs)"
proof -
  have "length rs = card (set rs)" using lineage_distinct [OF assms(1)] by (simp add: distinct_card)
  also have "\<dots> \<le> card (set all)" by (rule card_mono) (simp_all add: lineage_records [OF assms])
  also have "\<dots> \<le> length all" by (rule card_length)
  finally show ?thesis unfolding rootOf_def by (intro root_walk_lineage [OF assms(1)]) simp
qed

lemma rootOf_full: "br_Type r = BackupTypeFull \<Longrightarrow> rootOf r all = br_BackupID r"
  by (simp add: rootOf_def)

lemma rootOf_SomeD:
  assumes "rootOf r all \<noteq> []" "r \<in> set all"
  shows "\<exists>f \<in> set all. br_Type f = BackupTypeFull \<and> br_BackupID f = rootOf r all"
proof -
  obtain rs where rs: "lineage all r rs" using root_walk_found assms(1) unfolding rootOf_def by blast
  then have "last rs \<in> set all" "br_Type (last rs) = BackupTypeFull"
    using lineage_records [OF rs assms(2)] lineage_nonempty [OF rs] by (auto simp: subset_iff)
  then show ?thesis using rootOf_lineage [OF rs assms(2)] by auto
qed

text \<open>A backup has the root of its parent.\<close>

lemma rootOf_child:
  assumes "records_ok all" "r \<in> set all" "p \<in> set all" "br_Type r = BackupTypeIncremental"
    "br_ParentBackupID r = br_BackupID p"
  shows "rootOf r all = rootOf p all"
proof -
  have p: "byID all (br_ParentBackupID r) = Some p" using byID_record [OF assms(1,3)] assms(5) by simp
  show ?thesis
  proof (cases "\<exists>rs. lineage all p rs")
    case True
    then obtain rs where rs: "lineage all p rs" ..
    with p assms(4) have "lineage all r (r # rs)" by (auto intro: lineage.intros)
    then show ?thesis using rootOf_lineage [OF rs assms(3)] rootOf_lineage [OF _ assms(2)] lineage_nonempty [OF rs] by fastforce
  next
    case False
    moreover from this have "\<nexists>rs. lineage all r rs" using p assms(4) by (auto elim: lineageE)
    ultimately show ?thesis using root_walk_found unfolding rootOf_def by metis
  qed
qed

lemma record_ID: "records_ok rs \<Longrightarrow> r \<in> set rs \<Longrightarrow> br_BackupID r \<noteq> []"
  by (metis image_eqI list.set_map records_ok_def)

lemma record_unique: "records_ok rs \<Longrightarrow> r \<in> set rs \<Longrightarrow> r' \<in> set rs \<Longrightarrow> br_BackupID r = br_BackupID r' \<Longrightarrow> r = r'"
  by (metis byID_record option.inject)

lemma rootOf_nonempty:
  assumes "records_ok all" "r \<in> set all"
  shows "rootOf r all \<noteq> [] \<longleftrightarrow> (\<exists>rs. lineage all r rs)"
proof
  assume "\<exists>rs. lineage all r rs"
  then obtain rs where rs: "lineage all r rs" ..
  have "last rs \<in> set all" using lineage_records [OF rs assms(2)] lineage_nonempty [OF rs] by auto
  then show "rootOf r all \<noteq> []" using rootOf_lineage [OF rs assms(2)] record_ID [OF assms(1)] by simp
qed (simp only: rootOf_def root_walk_found)


section \<open>The chains\<close>

lemma group_fold:
  assumes "\<forall>r \<in> set xs. rootOf r rs \<noteq> [] \<longrightarrow> F (rootOf r rs) \<noteq> None"
  shows "fold (group_add rs) xs (\<lambda>k. map_option (\<lambda>f. \<lparr>ch_full = f, ch_incrementals = g k\<rparr>) (F k)) =
    (\<lambda>k. map_option (\<lambda>f. \<lparr>ch_full = f, ch_incrementals =
        g k @ filter (\<lambda>r. br_Type r = BackupTypeIncremental \<and> rootOf r rs \<noteq> [] \<and> rootOf r rs = k) xs\<rparr>) (F k))"
  using assms
proof (induction xs arbitrary: g)
  case (Cons x xs)
  define g' where "g' = (\<lambda>k. if br_Type x = BackupTypeIncremental \<and> rootOf x rs \<noteq> [] \<and> rootOf x rs = k then g k @ [x] else g k)"
  have step: "group_add rs x (\<lambda>k. map_option (\<lambda>f. \<lparr>ch_full = f, ch_incrementals = g k\<rparr>) (F k)) =
      (\<lambda>k. map_option (\<lambda>f. \<lparr>ch_full = f, ch_incrementals = g' k\<rparr>) (F k))"
    using Cons.prems by (auto simp: group_add_def g'_def fun_eq_iff chain_at_def Let_def)
  have rest: "fold (group_add rs) xs (\<lambda>k. map_option (\<lambda>f. \<lparr>ch_full = f, ch_incrementals = g' k\<rparr>) (F k)) =
      (\<lambda>k. map_option (\<lambda>f. \<lparr>ch_full = f, ch_incrementals =
        g' k @ filter (\<lambda>r. br_Type r = BackupTypeIncremental \<and> rootOf r rs \<noteq> [] \<and> rootOf r rs = k) xs\<rparr>) (F k))"
    using Cons.prems by (intro Cons.IH) auto
  have "g' k @ filter (\<lambda>r. br_Type r = BackupTypeIncremental \<and> rootOf r rs \<noteq> [] \<and> rootOf r rs = k) xs =
      g k @ filter (\<lambda>r. br_Type r = BackupTypeIncremental \<and> rootOf r rs \<noteq> [] \<and> rootOf r rs = k) (x # xs)" for k
    by (simp add: g'_def)
  then show ?case by (simp only: fold_simps step rest)
qed simp

lemma group_fulls_record:
  "records_ok rs \<Longrightarrow> group_fulls rs k = Some f \<longleftrightarrow> f \<in> set rs \<and> br_Type f = BackupTypeFull \<and> br_BackupID f = k"
  using find_distinct [of br_BackupID rs f "\<lambda>r. br_Type r = BackupTypeFull"]
  by (auto simp: group_fulls_eq records_ok_def dest: find_rev_SomeD)

lemma groupChains_eq:
  assumes "records_ok rs"
  shows "groupChains rs k = map_option (\<lambda>f. \<lparr>ch_full = f, ch_incrementals =
           filter (\<lambda>r. br_Type r = BackupTypeIncremental \<and> rootOf r rs = k) rs\<rparr>) (group_fulls rs k)"
proof -
  have "\<forall>r \<in> set rs. rootOf r rs \<noteq> [] \<longrightarrow> group_fulls rs (rootOf r rs) \<noteq> None"
  proof (intro ballI impI)
    fix r assume r: "r \<in> set rs" "rootOf r rs \<noteq> []"
    then obtain f where "f \<in> set rs" "br_Type f = BackupTypeFull" "br_BackupID f = rootOf r rs" using rootOf_SomeD by blast
    then show "group_fulls rs (rootOf r rs) \<noteq> None" using group_fulls_record [OF assms, of "rootOf r rs" f] by simp
  qed
  note eq = group_fold [OF this, of "\<lambda>_. []"]
  have "k \<noteq> []" if "group_fulls rs k = Some f" for f
    using that group_fulls_record [OF assms] assms by (force simp: records_ok_def)
  then show ?thesis unfolding groupChains_def eq by (cases "group_fulls rs k") (auto intro: filter_cong)
qed

definition in_chain :: "BackupRecord list \<Rightarrow> string \<Rightarrow> BackupRecord \<Rightarrow> bool" where
  "in_chain rs k r \<longleftrightarrow> r \<in> set rs \<and> (br_Type r = BackupTypeFull \<or> br_Type r = BackupTypeIncremental) \<and> rootOf r rs = k"

lemma dom_groupChains:
  "records_ok rs \<Longrightarrow> dom (groupChains rs) = {br_BackupID f | f. f \<in> set rs \<and> br_Type f = BackupTypeFull}"
  by (auto simp: groupChains_eq dom_def group_fulls_record)

lemma chain_members:
  assumes "records_ok rs" "k \<in> dom (groupChains rs)"
  shows "set (chain_all (chain_at (groupChains rs) k)) = {r. in_chain rs k r}"
proof -
  obtain f where f: "group_fulls rs k = Some f" using assms by (auto simp: groupChains_eq)
  then have f': "f \<in> set rs" "br_Type f = BackupTypeFull" "br_BackupID f = k" using group_fulls_record [OF assms(1)] by auto
  have u: "r \<in> set rs \<and> br_Type r = BackupTypeFull \<and> rootOf r rs = k \<longleftrightarrow> r = f" for r
    using f' record_unique [OF assms(1) _ f'(1), of r] rootOf_full [of r rs] by metis
  have c: "chain_at (groupChains rs) k =
      \<lparr>ch_full = f, ch_incrementals = filter (\<lambda>r. br_Type r = BackupTypeIncremental \<and> rootOf r rs = k) rs\<rparr>"
    using f by (simp add: chain_at_def groupChains_eq [OF assms(1)])
  have "in_chain rs k r \<longleftrightarrow> r = f \<or> r \<in> set rs \<and> br_Type r = BackupTypeIncremental \<and> rootOf r rs = k" for r
    unfolding in_chain_def u [symmetric] by blast
  then show ?thesis unfolding c chain_all_def by auto
qed

lemma chain_full:
  "records_ok rs \<Longrightarrow> f \<in> set rs \<Longrightarrow> br_Type f = BackupTypeFull \<Longrightarrow> ch_full (chain_at (groupChains rs) (br_BackupID f)) = f"
  using group_fulls_record [of rs "br_BackupID f" f] by (simp add: chain_at_def groupChains_eq)

lemma in_chain_dom: "records_ok rs \<Longrightarrow> in_chain rs k r \<Longrightarrow> k \<noteq> [] \<Longrightarrow> k \<in> dom (groupChains rs)"
  using rootOf_SomeD [of r rs] by (auto simp: dom_groupChains in_chain_def)


section \<open>The plan\<close>

lemma tally_lists:
  "ta_kept (fold (tally_chain chs keep) ks ta) =
     ta_kept ta @ concat (map (\<lambda>k. map br_BackupID (chain_all (chain_at chs k))) (filter keep ks))"
  "ta_expirable (fold (tally_chain chs keep) ks ta) =
     ta_expirable ta @ concat (map (\<lambda>k. map br_BackupID (chain_all (chain_at chs k))) (filter (\<lambda>k. \<not> keep k) ks))"
  by (induction ks arbitrary: ta) (simp_all add: tally_chain_def Let_def)

definition start_of :: "chain_map \<Rightarrow> string \<Rightarrow> LSN" where
  "start_of chs k = lsn_or_zero (br_StartLSN (ch_full (chain_at chs k)))"

definition tally_least :: "LSN set \<Rightarrow> tally \<Rightarrow> bool" where
  "tally_least K ta \<longleftrightarrow>
     (if ta_anyKept ta then ta_minLSN ta \<in> K \<and> (\<forall>l \<in> K. ta_minLSN ta \<le> l) else K = {} \<and> ta_minLSN ta = 0)"

lemma tally_least_fold:
  "tally_least K ta \<Longrightarrow> tally_least (K \<union> start_of chs ` set (filter keep ks)) (fold (tally_chain chs keep) ks ta)"
proof (induction ks arbitrary: ta K)
  case (Cons k ks)
  define K' where "K' = (if keep k then insert (start_of chs k) K else K)"
  have "tally_least K' (tally_chain chs keep k ta)"
    using Cons.prems by (auto simp: K'_def tally_least_def tally_chain_def start_of_def Let_def split: if_splits)
  moreover have "K \<union> start_of chs ` set (filter keep (k # ks)) = K' \<union> start_of chs ` set (filter keep ks)"
    by (auto simp: K'_def)
  ultimately show ?case using Cons.IH [of K' "tally_chain chs keep k ta"] by (simp only: fold_simps)
qed simp

lemma Evaluate_Inr:
  assumes "Evaluate rng clock rs policy = Inr plan"
  obtains keep where
    "keep = keep_set rng (groupChains rs) policy (if IsZero (fst (pol_Now policy)) then clock else pol_Now policy)"
    "set (pl_KeptBackupIDs plan) = (\<Union>k \<in> set (filter keep (rng 5)). br_BackupID ` set (chain_all (chain_at (groupChains rs) k)))"
    "set (pl_ExpirableBackupIDs plan) =
       (\<Union>k \<in> set (filter (\<lambda>k. \<not> keep k) (rng 5)). br_BackupID ` set (chain_all (chain_at (groupChains rs) k)))"
    "pl_OldestNeededLSN plan = ta_minLSN (fold (tally_chain (groupChains rs) keep) (rng 5)
       \<lparr>ta_expirable = [], ta_kept = [], ta_minLSN = 0, ta_anyKept = False\<rparr>)"
  using assms
  by (auto simp: Evaluate_def Let_def tally_lists split: option.splits)

text \<open>The chains that are kept, and what the plan says of a record.\<close>

lemma Evaluate_sets:
  assumes "records_ok rs" "rng_ok rs rng" "Evaluate rng clock rs policy = Inr plan"
  defines "keep \<equiv> keep_set rng (groupChains rs) policy (if IsZero (fst (pol_Now policy)) then clock else pol_Now policy)"
  shows "set (pl_KeptBackupIDs plan) = {br_BackupID r | r k. in_chain rs k r \<and> k \<noteq> [] \<and> keep k}"
    "set (pl_ExpirableBackupIDs plan) = {br_BackupID r | r k. in_chain rs k r \<and> k \<noteq> [] \<and> \<not> keep k}"
proof -
  have rng: "set (rng 5) = dom (groupChains rs)" using assms(2) by (simp add: rng_ok_def)
  have ne: "k \<noteq> []" if "k \<in> dom (groupChains rs)" for k
    using that record_ID [OF assms(1)] assms(1) by (auto simp: dom_groupChains)
  have "(\<Union>k \<in> set (filter Q (rng 5)). br_BackupID ` set (chain_all (chain_at (groupChains rs) k))) =
      {br_BackupID r | r k. in_chain rs k r \<and> k \<noteq> [] \<and> Q k}" for Q
  proof -
    have "(\<Union>k \<in> set (filter Q (rng 5)). br_BackupID ` set (chain_all (chain_at (groupChains rs) k))) =
        (\<Union>k \<in> {k \<in> dom (groupChains rs). Q k}. br_BackupID ` {r. in_chain rs k r})"
      using chain_members [OF assms(1)] rng by (intro SUP_cong) auto
    also have "\<dots> = {br_BackupID r | r k. in_chain rs k r \<and> k \<noteq> [] \<and> Q k}"
    proof (intro equalityI subsetI)
      fix x assume "x \<in> (\<Union>k \<in> {k \<in> dom (groupChains rs). Q k}. br_BackupID ` {r. in_chain rs k r})"
      then obtain k r where "k \<in> dom (groupChains rs)" "Q k" "in_chain rs k r" "x = br_BackupID r" by blast
      then show "x \<in> {br_BackupID r | r k. in_chain rs k r \<and> k \<noteq> [] \<and> Q k}" using ne [of k] by blast
    next
      fix x assume "x \<in> {br_BackupID r | r k. in_chain rs k r \<and> k \<noteq> [] \<and> Q k}"
      then obtain k r where "k \<noteq> []" "Q k" "in_chain rs k r" "x = br_BackupID r" by blast
      then show "x \<in> (\<Union>k \<in> {k \<in> dom (groupChains rs). Q k}. br_BackupID ` {r. in_chain rs k r})"
        using in_chain_dom [OF assms(1), of k r] by blast
    qed
    finally show ?thesis .
  qed
  with Evaluate_Inr [OF assms(3)] show
    "set (pl_KeptBackupIDs plan) = {br_BackupID r | r k. in_chain rs k r \<and> k \<noteq> [] \<and> keep k}"
    "set (pl_ExpirableBackupIDs plan) = {br_BackupID r | r k. in_chain rs k r \<and> k \<noteq> [] \<and> \<not> keep k}"
    unfolding keep_def by metis+
qed

lemma Evaluate_record:
  assumes "records_ok rs" "rng_ok rs rng" "Evaluate rng clock rs policy = Inr plan" "in_chain rs k r" "k \<noteq> []"
  defines "keep \<equiv> keep_set rng (groupChains rs) policy (if IsZero (fst (pol_Now policy)) then clock else pol_Now policy)"
  shows "br_BackupID r \<in> set (pl_KeptBackupIDs plan) \<longleftrightarrow> keep k"
    "br_BackupID r \<in> set (pl_ExpirableBackupIDs plan) \<longleftrightarrow> \<not> keep k"
  using Evaluate_sets [OF assms(1-3)] record_unique [OF assms(1)] assms(4,5)
  unfolding keep_def [symmetric] by (auto simp: in_chain_def)

text \<open>No backup is listed twice.\<close>

lemma distinct_chains:
  assumes "records_ok rs" "distinct ks" "set ks \<subseteq> dom (groupChains rs)"
  shows "distinct (concat (map (\<lambda>k. map br_BackupID (chain_all (chain_at (groupChains rs) k))) ks))"
  using assms(2,3)
proof (induction ks)
  case (Cons k ks)
  have "distinct (chain_all (chain_at (groupChains rs) k))"
  proof -
    obtain f where f: "group_fulls rs k = Some f" using Cons.prems assms(1) by (auto simp: groupChains_eq)
    then have "br_Type f = BackupTypeFull" using group_fulls_record [OF assms(1)] by simp
    moreover have "distinct rs" using assms(1) by (simp add: records_ok_def distinct_map)
    ultimately show ?thesis using f by (simp add: chain_at_def groupChains_eq [OF assms(1)] chain_all_def)
  qed
  moreover have "inj_on br_BackupID (set (chain_all (chain_at (groupChains rs) k)))"
    using Cons.prems(2) chain_members [OF assms(1)] record_unique [OF assms(1)] by (auto simp: inj_on_def in_chain_def)
  moreover have False if h: "x \<in> br_BackupID ` set (chain_all (chain_at (groupChains rs) k))"
    "j \<in> set ks" "x \<in> br_BackupID ` set (chain_all (chain_at (groupChains rs) j))" for x j
  proof -
    have kj: "k \<in> dom (groupChains rs)" "j \<in> dom (groupChains rs)" "k \<noteq> j" using Cons.prems h(2) by auto
    obtain a b where "br_BackupID a = br_BackupID b" "in_chain rs k a" "in_chain rs j b"
      using h(1,3) unfolding chain_members [OF assms(1) kj(1)] chain_members [OF assms(1) kj(2)] by auto
    then show False using record_unique [OF assms(1)] kj(3) unfolding in_chain_def by metis
  qed
  ultimately show ?case using Cons.IH Cons.prems by (auto simp: distinct_map)
qed simp

lemma Evaluate_distinct:
  assumes "records_ok rs" "rng_ok rs rng" "Evaluate rng clock rs policy = Inr plan"
  shows "distinct (pl_ExpirableBackupIDs plan)"
proof -
  have rng: "distinct (rng 5)" "set (rng 5) = dom (groupChains rs)" using assms(2) by (simp_all add: rng_ok_def)
  obtain Q where "pl_ExpirableBackupIDs plan =
      sort (concat (map (\<lambda>k. map br_BackupID (chain_all (chain_at (groupChains rs) k))) (filter Q (rng 5))))"
    using assms(3) by (auto simp: Evaluate_def Let_def tally_lists split: option.splits)
  then show ?thesis using distinct_chains [OF assms(1), of "filter Q (rng 5)"] rng by auto
qed

section \<open>The rules\<close>

lemma fold_keep: "fold (\<lambda>k keep. keep(k := True)) ks keep = (\<lambda>k. keep k \<or> k \<in> set ks)"
  by (induction ks arbitrary: keep) (auto simp: fun_eq_iff)

lemma fold_keep_map: "fold (\<lambda>x keep. keep(f x := True)) xs keep = (\<lambda>k. keep k \<or> k \<in> f ` set xs)"
  by (induction xs arbitrary: keep) (auto simp: fun_eq_iff)

lemma keep_full_age_eq:
  "keep_full_age order chs age now keep =
     (\<lambda>k. keep k \<or> 0 < age \<and> k \<in> set order \<and> \<not> IsZero (br_StopTime (ch_full (chain_at chs k))) \<and>
           now - age < br_StopTime (ch_full (chain_at chs k)))"
proof -
  have "fold (\<lambda>k keep. if Q k then keep(k := True) else keep) order keep = (\<lambda>k. keep k \<or> k \<in> set order \<and> Q k)" for Q
    by (induction order arbitrary: keep) (auto simp: fun_eq_iff)
  then show ?thesis by (simp add: keep_full_age_def Let_def fun_eq_iff)
qed

lemma keep_bucket_mono: "keep k \<Longrightarrow> keep_bucket order chs n bucket keep k"
  by (simp add: keep_bucket_def applyBucketRule_def fold_keep_map Let_def)

lemma keep_set_fulls: "keep_fulls (rng 0) chs (pol_KeepFulls p) (\<lambda>_. False) k \<Longrightarrow> keep_set rng chs p now k"
  unfolding keep_set_def by (intro keep_bucket_mono) (simp add: keep_full_age_eq)

lemma keep_set_daily:
  assumes "0 < pol_KeepDaily p" "e \<in> set (bucket_entries (rng 2) chs (pol_KeepDaily p) (dayBucket now))"
  shows "keep_set rng chs p now (bucket_best (bucket_entries (rng 2) chs (pol_KeepDaily p) (dayBucket now)) (fst e))"
  unfolding keep_set_def
  by (rule keep_bucket_mono, rule keep_bucket_mono)
    (use assms in \<open>auto simp: keep_bucket_def applyBucketRule_def fold_keep_map Let_def\<close>)

lemma insert_by_props:
  "set (insert_by lt x ys) = insert x (set ys)" "distinct (x # ys) \<Longrightarrow> distinct (insert_by lt x ys)"
  by (induction ys) auto

lemma insert_by_sorted:
  assumes "sorted_wrt lt ys" "\<And>a b. a \<in> insert x (set ys) \<Longrightarrow> b \<in> insert x (set ys) \<Longrightarrow> a \<noteq> b \<Longrightarrow> \<not> lt a b \<Longrightarrow> lt b a"
    "\<And>a b c. lt a b \<Longrightarrow> lt b c \<Longrightarrow> lt a c" "x \<notin> set ys"
  shows "sorted_wrt lt (insert_by lt x ys)"
  using assms
proof (induction ys)
  case (Cons y ys)
  show ?case
  proof (cases "lt y x")
    case True
    have "sorted_wrt lt (insert_by lt x ys)" using Cons.prems by (intro Cons.IH) auto
    then show ?thesis using True Cons.prems(1) by (auto simp: insert_by_props)
  next
    case False
    then have "lt x y" using Cons.prems(2) [of y x] Cons.prems(4) by auto
    then show ?thesis using False Cons.prems(1,3) by (auto simp del: sorted_wrt.simps simp: sorted_wrt.simps(2))
  qed
qed simp

lemma sort_Slice_props:
  assumes "\<And>a b. a \<in> set xs \<Longrightarrow> b \<in> set xs \<Longrightarrow> a \<noteq> b \<Longrightarrow> \<not> lt a b \<Longrightarrow> lt b a"
    "\<And>a b c. lt a b \<Longrightarrow> lt b c \<Longrightarrow> lt a c" "distinct xs"
  shows "sorted_wrt lt (sort_Slice lt xs) \<and> set (sort_Slice lt xs) = set xs \<and> distinct (sort_Slice lt xs)"
  using assms(1,3)
proof (induction xs)
  case (Cons x xs)
  have IH: "sorted_wrt lt (sort_Slice lt xs)" "set (sort_Slice lt xs) = set xs" "distinct (sort_Slice lt xs)"
    using Cons.IH Cons.prems by auto
  have eq: "sort_Slice lt (x # xs) = insert_by lt x (sort_Slice lt xs)" by (simp add: sort_Slice_def)
  have "sorted_wrt lt (insert_by lt x (sort_Slice lt xs))"
  proof (rule insert_by_sorted [OF IH(1)])
    show "lt b a" if "a \<in> insert x (set (sort_Slice lt xs))" "b \<in> insert x (set (sort_Slice lt xs))" "a \<noteq> b" "\<not> lt a b" for a b
      using Cons.prems(1) [of a b] that IH(2) by simp
  qed (use assms(2) IH(2) Cons.prems(2) in simp_all)
  then show ?case using IH Cons.prems(2) insert_by_props(2) [of x "sort_Slice lt xs" lt] unfolding eq by (auto simp: insert_by_props(1))
qed (simp add: sort_Slice_def)

text \<open>The first \<open>n\<close> of a sorted list are the elements with fewer than \<open>n\<close> before them.\<close>

lemma take_sorted_rank:
  assumes "sorted_wrt lt xs" "distinct xs" "\<And>a b. lt a b \<Longrightarrow> \<not> lt b a" "x \<in> set xs"
  shows "x \<in> set (take n xs) \<longleftrightarrow> card {y \<in> set xs. lt y x} < n"
proof -
  obtain us vs where xs: "xs = us @ x # vs" using assms(4) by (meson split_list)
  have "{y \<in> set xs. lt y x} = set us"
    using assms(1,3) unfolding xs by (auto simp: sorted_wrt_append)
  then have "card {y \<in> set xs. lt y x} = length us" using assms(2) by (simp add: xs distinct_card)
  moreover have "x \<in> set (take n xs) \<longleftrightarrow> length us < n"
    using assms(2) unfolding xs by (auto simp: take_Cons' dest: in_set_takeD split: if_splits)
  ultimately show ?thesis by simp
qed

definition newer_full :: "BackupRecord \<Rightarrow> BackupRecord \<Rightarrow> bool" where
  "newer_full g f \<longleftrightarrow>
     br_StopTime f < br_StopTime g \<or> br_StopTime g = br_StopTime f \<and> br_BackupID g < br_BackupID f"

definition full_records :: "BackupRecord list \<Rightarrow> BackupRecord set" where
  "full_records rs = {f \<in> set rs. br_Type f = BackupTypeFull}"

lemma newest_less:
  assumes "records_ok rs" "f \<in> full_records rs" "g \<in> full_records rs"
  shows "byNewestFullStopTime (groupChains rs) (br_BackupID g) (br_BackupID f) \<longleftrightarrow> newer_full g f"
  using assms chain_full [OF assms(1), of f] chain_full [OF assms(1), of g]
  by (auto simp: byNewestFullStopTime_def newer_full_def full_records_def Let_def)

lemma keep_fulls_rank:
  assumes ok: "records_ok rs" and rng: "rng_ok rs rng" and f: "f \<in> full_records rs" and n: "0 < n"
  shows "keep_fulls (rng 0) (groupChains rs) n (\<lambda>_. False) (br_BackupID f) \<longleftrightarrow>
    card {g \<in> full_records rs. newer_full g f} < nat n"
proof -
  let ?lt = "byNewestFullStopTime (groupChains rs)" and ?xs = "sort_Slice (byNewestFullStopTime (groupChains rs)) (rng 0)"
  have d: "distinct (rng 0)" "set (rng 0) = br_BackupID ` full_records rs"
    using rng dom_groupChains [OF ok] by (auto simp: rng_ok_def full_records_def)
  have trans: "?lt a b \<Longrightarrow> ?lt b c \<Longrightarrow> ?lt a c" and asym: "?lt a b \<Longrightarrow> \<not> ?lt b a" for a b c
    by (auto simp: byNewestFullStopTime_def Let_def split: if_splits)
  have total: "?lt b a" if "a \<in> set (rng 0)" "b \<in> set (rng 0)" "a \<noteq> b" "\<not> ?lt a b" for a b
  proof -
    obtain f g where fg: "f \<in> full_records rs" "g \<in> full_records rs" "a = br_BackupID f" "b = br_BackupID g"
      using \<open>a \<in> set (rng 0)\<close> \<open>b \<in> set (rng 0)\<close> unfolding d(2) by blast
    have "newer_full g f" using that(3,4) unfolding fg(3,4) newest_less [OF ok fg(2,1)] newer_full_def by auto
    then show ?thesis unfolding fg(3,4) newest_less [OF ok fg(1,2)] .
  qed
  have s: "sorted_wrt ?lt ?xs" "set ?xs = br_BackupID ` full_records rs" "distinct ?xs"
    using sort_Slice_props [of "rng 0" ?lt] total trans d by blast+
  have "{y \<in> set ?xs. ?lt y (br_BackupID f)} = br_BackupID ` {g \<in> full_records rs. newer_full g f}"
    using newest_less [OF ok f] unfolding s(2) by blast
  moreover have "inj_on br_BackupID {g \<in> full_records rs. newer_full g f}"
    by (intro inj_onI record_unique [OF ok]) (simp_all add: full_records_def)
  ultimately have "card {y \<in> set ?xs. ?lt y (br_BackupID f)} = card {g \<in> full_records rs. newer_full g f}"
    by (simp add: card_image)
  moreover have "br_BackupID f \<in> set ?xs" using f by (simp add: s(2))
  ultimately show ?thesis using take_sorted_rank [OF s(1,3) asym] n
    by (simp add: keep_fulls_def orderedChainKeys_def fold_keep)
qed

lemma full_in_chain: "f \<in> full_records rs \<Longrightarrow> in_chain rs (br_BackupID f) f"
  by (simp add: full_records_def in_chain_def rootOf_full)

lemma pick_newest_max:
  "pick_newest b es \<in> set (b # es) \<and> (\<forall>e \<in> set (b # es). snd e \<le> snd (pick_newest b es))"
  by (induction b es rule: pick_newest.induct) (fastforce split: if_splits)+

text \<open>The entry a bucket keeps: one of the bucket, none in it newer.\<close>

lemma bucket_best_newest:
  assumes "(idx, k, t) \<in> set es"
  obtains k' t' where "(idx, k', t') \<in> set es" "bucket_best es idx = k'" "t \<le> t'"
proof -
  let ?l = "map snd (filter (\<lambda>e. fst e = idx) es)"
  have m: "(k, t) \<in> set ?l" using assms by force
  then obtain b bs where l: "?l = b # bs" by (cases ?l) auto
  have p: "pick_newest b bs \<in> set ?l" "t \<le> snd (pick_newest b bs)"
    using pick_newest_max [of b bs] m unfolding l by force+
  moreover have "bucket_best es idx = fst (pick_newest b bs)" using l by (simp add: bucket_best_def)
  moreover have "(idx, fst (pick_newest b bs), snd (pick_newest b bs)) \<in> set es" using p(1) by auto
  ultimately show ?thesis using that by metis
qed

lemma in_bucket_entries:
  "(idx, k, t) \<in> set (bucket_entries order chs n bucket) \<longleftrightarrow>
     k \<in> set order \<and> t = br_StopTime (ch_full (chain_at chs k)) \<and> \<not> IsZero t \<and> idx = bucket (t, time_UTC) \<and> 0 \<le> idx \<and> idx < n"
  unfolding bucket_entries_def List.map_filter_def Let_def
  by (auto simp: image_iff split: if_splits intro!: exI [of _ k])

lemma truncateToDay_UTC: "truncateToDay (t, time_UTC) = (day_number t * (86400 * time_Second), time_UTC)"
proof -
  have "date_days (Year t) (Month t) (Day t) = day_number t"
    by (rule date_days_civil) (simp add: Year_def Month_def Day_def split: prod.splits)
  then show ?thesis
    by (simp add: truncateToDay_def local_time_def time_UTC_def time_DateIn_def time_Date_def time_Second_def)
qed

lemma dayBucket_UTC:
  "dayBucket (now, time_UTC) (t, time_UTC) = max (- 106751) (min 106751 (day_number now - day_number t))"
proof -
  define x where "x = day_number now - day_number t"
  have e: "day_number now * (86400 * time_Second) - day_number t * (86400 * time_Second) = x * 86400000000000"
    by (simp add: x_def time_Second_def left_diff_distrib)
  have h: "hours_div d 24 = sgn d * (\<bar>d\<bar> div 86400000000000)" for d by (simp add: hours_div_def time_Hour_def time_Second_def)
  consider "x \<le> - 106752" | "106752 \<le> x" | "- 106751 \<le> x" "x \<le> 106751" by linarith
  then show ?thesis unfolding dayBucket_def truncateToDay_UTC fst_conv time_Sub_def e h x_def [symmetric]
    by cases (auto simp: max_def min_def abs_if sgn_if)
qed


section \<open>An example\<close>

definition example_full :: "string \<Rightarrow> gotime \<Rightarrow> string \<Rightarrow> BackupRecord" where
  "example_full i t l = zero_record\<lparr>br_BackupID := i, br_Type := BackupTypeFull, br_StopTime := t, br_StartLSN := l\<rparr>"

definition example_records :: "BackupRecord list" where
  "example_records =
     [example_full ''aF'' 86400000000000 ''0/2000028'',
      zero_record\<lparr>br_BackupID := ''aF_bI'', br_Type := BackupTypeIncremental, br_ParentBackupID := ''aF''\<rparr>,
      example_full ''cF'' 172800000000000 ''0/5000028'']"

definition example_policy :: Policy where
  "example_policy = \<lparr>pol_KeepFulls = 1, pol_KeepFullAge = 0, pol_KeepDaily = 2, pol_KeepWeekly = 0, pol_KeepMonthly = 0,
     pol_Now = (172800000000001, time_UTC)\<rparr>"

lemmas example_retention_defs = example_full_def example_records_def example_policy_def zero_record_def
  BackupTypeFull_def BackupTypeIncremental_def

lemma example_records_ok: "records_ok example_records"
  by (simp add: records_ok_def example_retention_defs)

lemma example_rng_ok: "rng_ok example_records (\<lambda>_. [''cF'', ''aF''])"
proof -
  have "dom (groupChains example_records) = set (map br_BackupID (filter (\<lambda>f. br_Type f = BackupTypeFull) example_records))"
    unfolding dom_groupChains [OF example_records_ok] by auto
  then show ?thesis unfolding rng_ok_def by (simp add: example_retention_defs insert_commute)
qed

lemma Evaluate_total: "Policy_Validate p = None \<Longrightarrow> \<exists>plan. Evaluate rng clock rs p = Inr plan"
  by (simp add: Evaluate_def Let_def)

lemma example_Evaluate: "\<exists>plan. Evaluate (\<lambda>_. [''cF'', ''aF'']) (0, time_UTC) example_records example_policy = Inr plan"
  by (rule Evaluate_total) (simp add: Policy_Validate_def example_policy_def)


section \<open>What the plan promises\<close>

text \<open>C7: the plan respects chains. The kept and the expirable backups are disjoint and together are
  the backups whose lineage reaches a full; and a backup is kept, or expirable, exactly when its
  parent is. So no kept incremental loses a backup it is restored from, and no expirable full leaves
  a descendant behind.\<close>

theorem Evaluate_keeps_chains:
  assumes "records_ok rs" "rng_ok rs rng" "Evaluate rng clock rs policy = Inr plan"
  shows "set (pl_KeptBackupIDs plan) \<inter> set (pl_ExpirableBackupIDs plan) = {} \<and>
    set (pl_KeptBackupIDs plan) \<union> set (pl_ExpirableBackupIDs plan) =
      {br_BackupID r | r ls. r \<in> set rs \<and> (br_Type r = BackupTypeFull \<or> br_Type r = BackupTypeIncremental) \<and> lineage rs r ls} \<and>
    (\<forall>r \<in> set rs. \<forall>p \<in> set rs. br_Type r = BackupTypeIncremental \<and> br_ParentBackupID r = br_BackupID p \<and>
        (br_Type p = BackupTypeFull \<or> br_Type p = BackupTypeIncremental) \<longrightarrow>
       (br_BackupID r \<in> set (pl_KeptBackupIDs plan) \<longleftrightarrow> br_BackupID p \<in> set (pl_KeptBackupIDs plan)) \<and>
       (br_BackupID r \<in> set (pl_ExpirableBackupIDs plan) \<longleftrightarrow> br_BackupID p \<in> set (pl_ExpirableBackupIDs plan)))"
proof (intro conjI ballI impI)
  note sets = Evaluate_sets [OF assms]
  show "set (pl_KeptBackupIDs plan) \<inter> set (pl_ExpirableBackupIDs plan) = {}"
  proof (intro equals0I)
    fix x assume "x \<in> set (pl_KeptBackupIDs plan) \<inter> set (pl_ExpirableBackupIDs plan)"
    then obtain r k where r: "x = br_BackupID r" "in_chain rs k r" "k \<noteq> []" unfolding sets by blast
    then show False using Evaluate_record [OF assms r(2,3)] \<open>x \<in> _\<close> by simp
  qed
  have "set (pl_KeptBackupIDs plan) \<union> set (pl_ExpirableBackupIDs plan) = {br_BackupID r | r k. in_chain rs k r \<and> k \<noteq> []}"
    unfolding sets by blast
  also have "\<dots> = {br_BackupID r | r ls. r \<in> set rs \<and> (br_Type r = BackupTypeFull \<or> br_Type r = BackupTypeIncremental) \<and> lineage rs r ls}"
    using rootOf_nonempty [OF assms(1)] unfolding in_chain_def by blast
  finally show "set (pl_KeptBackupIDs plan) \<union> set (pl_ExpirableBackupIDs plan) = \<dots>" .
  fix r p assume r: "r \<in> set rs" and p: "p \<in> set rs" and
    h: "br_Type r = BackupTypeIncremental \<and> br_ParentBackupID r = br_BackupID p \<and> (br_Type p = BackupTypeFull \<or> br_Type p = BackupTypeIncremental)"
  define k where "k = rootOf p rs"
  have k: "rootOf r rs = k" using rootOf_child [OF assms(1) r p] h by (simp add: k_def)
  have c: "in_chain rs k r" "in_chain rs k p" using r p h k by (simp_all add: in_chain_def k_def)
  have none: "x \<notin> set (pl_KeptBackupIDs plan) \<and> x \<notin> set (pl_ExpirableBackupIDs plan)"
    if "k = []" "x = br_BackupID r \<or> x = br_BackupID p" for x
  proof -
    have "rootOf q rs \<noteq> []" if "in_chain rs j q" "j \<noteq> []" for q j using that by (simp add: in_chain_def)
    then show ?thesis unfolding sets using that record_unique [OF assms(1)] c by (auto simp: in_chain_def)
  qed
  show "br_BackupID r \<in> set (pl_KeptBackupIDs plan) \<longleftrightarrow> br_BackupID p \<in> set (pl_KeptBackupIDs plan)"
    "br_BackupID r \<in> set (pl_ExpirableBackupIDs plan) \<longleftrightarrow> br_BackupID p \<in> set (pl_ExpirableBackupIDs plan)"
    using none Evaluate_record [OF assms c(1)] Evaluate_record [OF assms c(2)] by (cases "k = []"; simp)+
qed

theorem Evaluate_keeps_chains_witness:
  "\<exists>plan. Evaluate (\<lambda>_. [''cF'', ''aF'']) (0, time_UTC) example_records example_policy = Inr plan \<and>
     set (pl_KeptBackupIDs plan) \<inter> set (pl_ExpirableBackupIDs plan) = {} \<and>
     (''aF_bI'' \<in> set (pl_KeptBackupIDs plan) \<longleftrightarrow> ''aF'' \<in> set (pl_KeptBackupIDs plan))"
proof -
  obtain plan where p: "Evaluate (\<lambda>_. [''cF'', ''aF'']) (0, time_UTC) example_records example_policy = Inr plan"
    using example_Evaluate by blast
  note w = Evaluate_keeps_chains [OF example_records_ok example_rng_ok p]
  have "br_BackupID (example_records ! 1) \<in> set (pl_KeptBackupIDs plan) \<longleftrightarrow> br_BackupID (example_records ! 0) \<in> set (pl_KeptBackupIDs plan)"
    by (rule w [THEN conjunct2, THEN conjunct2, rule_format, THEN conjunct1]) (simp_all add: example_retention_defs)
  with p w [THEN conjunct1] show ?thesis by (auto simp: example_records_def example_full_def)
qed

text \<open>C31: no surviving full starts before \<open>OldestNeededLSN\<close>, and the bound is attained; with no
  survivors it is zero, which the WAL pruning takes for \<open>keep everything\<close>.\<close>

theorem Evaluate_oldest_needed:
  assumes "records_ok rs" "rng_ok rs rng" "Evaluate rng clock rs policy = Inr plan"
  defines "starts \<equiv> {lsn_or_zero (br_StartLSN f) | f. f \<in> full_records rs \<and> br_BackupID f \<in> set (pl_KeptBackupIDs plan)}"
  shows "if starts = {} then pl_OldestNeededLSN plan = 0
         else pl_OldestNeededLSN plan \<in> starts \<and> (\<forall>l \<in> starts. pl_OldestNeededLSN plan \<le> l)"
proof -
  define keep where "keep = keep_set rng (groupChains rs) policy (if IsZero (fst (pol_Now policy)) then clock else pol_Now policy)"
  have "starts = start_of (groupChains rs) ` set (filter keep (rng 5))"
  proof -
    have "br_BackupID f \<in> set (pl_KeptBackupIDs plan) \<longleftrightarrow> keep (br_BackupID f)" if "f \<in> full_records rs" for f
      using Evaluate_record(1) [OF assms(1-3) full_in_chain [OF that]] record_ID [OF assms(1)] that
      by (auto simp: keep_def full_records_def)
    moreover have "start_of (groupChains rs) (br_BackupID f) = lsn_or_zero (br_StartLSN f)" if "f \<in> full_records rs" for f
      using chain_full [OF assms(1), of f] that by (simp add: start_of_def full_records_def)
    moreover have "set (rng 5) = br_BackupID ` full_records rs"
      using assms(2) dom_groupChains [OF assms(1)] by (auto simp: rng_ok_def full_records_def)
    ultimately show ?thesis unfolding starts_def by (auto simp: image_iff) metis+
  qed
  moreover obtain keep' where "keep' = keep" "pl_OldestNeededLSN plan = ta_minLSN (fold (tally_chain (groupChains rs) keep') (rng 5)
       \<lparr>ta_expirable = [], ta_kept = [], ta_minLSN = 0, ta_anyKept = False\<rparr>)"
    using Evaluate_Inr [OF assms(3)] unfolding keep_def by metis
  ultimately show ?thesis
    using tally_least_fold [of "{}" "\<lparr>ta_expirable = [], ta_kept = [], ta_minLSN = 0, ta_anyKept = False\<rparr>" "groupChains rs" keep "rng 5"]
    by (auto simp: tally_least_def split: if_splits)
qed

theorem Evaluate_oldest_needed_witness:
  "\<exists>plan. Evaluate (\<lambda>_. [''cF'', ''aF'']) (0, time_UTC) example_records example_policy = Inr plan \<and>
     (if {lsn_or_zero (br_StartLSN f) | f. f \<in> full_records example_records \<and> br_BackupID f \<in> set (pl_KeptBackupIDs plan)} = {}
      then pl_OldestNeededLSN plan = 0
      else pl_OldestNeededLSN plan \<in>
        {lsn_or_zero (br_StartLSN f) | f. f \<in> full_records example_records \<and> br_BackupID f \<in> set (pl_KeptBackupIDs plan)})"
proof -
  obtain plan where p: "Evaluate (\<lambda>_. [''cF'', ''aF'']) (0, time_UTC) example_records example_policy = Inr plan"
    using example_Evaluate by blast
  show ?thesis using p Evaluate_oldest_needed [OF example_records_ok example_rng_ok p] by (auto split: if_splits)
qed

text \<open>C32: with \<open>KeepFulls = n\<close> every full with fewer than \<open>n\<close> newer fulls is kept, and when it is the only
  rule these are all that are kept.\<close>

theorem Evaluate_keep_fulls:
  assumes "records_ok rs" "rng_ok rs rng" "Evaluate rng clock rs policy = Inr plan" "f \<in> full_records rs" "0 < pol_KeepFulls policy"
  shows "(card {g \<in> full_records rs. newer_full g f} < nat (pol_KeepFulls policy) \<longrightarrow> br_BackupID f \<in> set (pl_KeptBackupIDs plan)) \<and>
    (pol_KeepFullAge policy \<le> 0 \<and> pol_KeepDaily policy \<le> 0 \<and> pol_KeepWeekly policy \<le> 0 \<and> pol_KeepMonthly policy \<le> 0 \<longrightarrow>
      (br_BackupID f \<in> set (pl_KeptBackupIDs plan) \<longleftrightarrow> card {g \<in> full_records rs. newer_full g f} < nat (pol_KeepFulls policy)))"
proof -
  define now where "now = (if IsZero (fst (pol_Now policy)) then clock else pol_Now policy)"
  have "br_BackupID f \<noteq> []" using record_ID [OF assms(1)] assms(4) by (simp add: full_records_def)
  then have k: "br_BackupID f \<in> set (pl_KeptBackupIDs plan) \<longleftrightarrow> keep_set rng (groupChains rs) policy now (br_BackupID f)"
    using Evaluate_record(1) [OF assms(1-3) full_in_chain [OF assms(4)]] by (simp add: now_def)
  have only: "keep_set rng (groupChains rs) policy now = keep_fulls (rng 0) (groupChains rs) (pol_KeepFulls policy) (\<lambda>_. False)"
    if "pol_KeepFullAge policy \<le> 0" "pol_KeepDaily policy \<le> 0" "pol_KeepWeekly policy \<le> 0" "pol_KeepMonthly policy \<le> 0"
    using that by (simp add: keep_set_def keep_bucket_def keep_full_age_def)
  show ?thesis
    using keep_fulls_rank [OF assms(1,2,4,5)] only keep_set_fulls [of rng "groupChains rs" policy "br_BackupID f" now] unfolding k by auto
qed

theorem Evaluate_keep_fulls_witness:
  "\<exists>plan. Evaluate (\<lambda>_. [''cF'', ''aF'']) (0, time_UTC) example_records example_policy = Inr plan \<and>
     ''cF'' \<in> set (pl_KeptBackupIDs plan)"
proof -
  obtain plan where p: "Evaluate (\<lambda>_. [''cF'', ''aF'']) (0, time_UTC) example_records example_policy = Inr plan"
    using example_Evaluate by blast
  let ?f = "example_full ''cF'' 172800000000000 ''0/5000028''"
  have f: "?f \<in> full_records example_records" by (simp add: full_records_def example_retention_defs)
  have "{g \<in> full_records example_records. newer_full g ?f} = {}"
    by (auto simp: full_records_def newer_full_def example_retention_defs)
  from arg_cong [OF this, of card]
  have "card {g \<in> full_records example_records. newer_full g ?f} < nat (pol_KeepFulls example_policy)"
    by (simp only: card.empty) (simp add: example_policy_def)
  then have "br_BackupID ?f \<in> set (pl_KeptBackupIDs plan)"
    by (intro Evaluate_keep_fulls [OF example_records_ok example_rng_ok p f, THEN conjunct1, rule_format]) (simp_all add: example_policy_def)
  with p show ?thesis by (auto simp: example_full_def)
qed

text \<open>C33: with \<open>KeepDaily = n\<close>, when \<open>now\<close> is in UTC, every one of the last \<open>n\<close> days that has a backup
  keeps one, at least as new as any other of that day.\<close>

theorem Evaluate_keep_daily:
  assumes "records_ok rs" "rng_ok rs rng" "Evaluate rng clock rs policy = Inr plan" "f \<in> full_records rs"
    "snd (if IsZero (fst (pol_Now policy)) then clock else pol_Now policy) = time_UTC"
    "br_StopTime f \<noteq> 0"
    "0 \<le> day_number (fst (if IsZero (fst (pol_Now policy)) then clock else pol_Now policy)) - day_number (br_StopTime f)"
    "day_number (fst (if IsZero (fst (pol_Now policy)) then clock else pol_Now policy)) - day_number (br_StopTime f)
       < min 106751 (pol_KeepDaily policy)"
  shows "\<exists>g \<in> full_records rs. br_BackupID g \<in> set (pl_KeptBackupIDs plan) \<and>
    day_number (br_StopTime g) = day_number (br_StopTime f) \<and> br_StopTime f \<le> br_StopTime g"
proof -
  define now where "now = (if IsZero (fst (pol_Now policy)) then clock else pol_Now policy)"
  define es where "es = bucket_entries (rng 2) (groupChains rs) (pol_KeepDaily policy) (dayBucket now)"
  define idx where "idx = day_number (fst now) - day_number (br_StopTime f)"
  have utc: "now = (fst now, time_UTC)" using assms(5) by (simp add: now_def [symmetric] prod_eq_iff)
  have bucket: "dayBucket now (t, time_UTC) = max (- 106751) (min 106751 (day_number (fst now) - day_number t))" for t
    by (subst utc) (rule dayBucket_UTC)
  have r: "0 \<le> idx" "idx < 106751" "idx < pol_KeepDaily policy" using assms(7,8) by (simp_all add: idx_def now_def)
  have full: "ch_full (chain_at (groupChains rs) (br_BackupID g)) = g" if "g \<in> full_records rs" for g
    using chain_full [OF assms(1)] that by (simp add: full_records_def)
  have rng2: "set (rng 2) = br_BackupID ` full_records rs"
    using assms(2) dom_groupChains [OF assms(1)] by (auto simp: rng_ok_def full_records_def)
  have "(idx, br_BackupID f, br_StopTime f) \<in> set es"
    using r assms(4,6) unfolding es_def in_bucket_entries rng2 full [OF assms(4)] bucket by (auto simp: IsZero_def idx_def)
  then obtain k t where k: "(idx, k, t) \<in> set es" "bucket_best es idx = k" "br_StopTime f \<le> t" by (rule bucket_best_newest)
  then obtain g where g: "g \<in> full_records rs" "k = br_BackupID g" unfolding es_def in_bucket_entries rng2 by blast
  with k(1) full [OF g(1)] r have t: "t = br_StopTime g" "day_number (br_StopTime g) = day_number (br_StopTime f)"
    unfolding es_def in_bucket_entries bucket by (auto simp: idx_def)
  have "0 < pol_KeepDaily policy" using r by simp
  then have "keep_set rng (groupChains rs) policy now k" using keep_set_daily [of policy "(idx, k, t)" rng "groupChains rs" now] k(1,2) by (simp add: es_def)
  then have "br_BackupID g \<in> set (pl_KeptBackupIDs plan)"
    using Evaluate_record(1) [OF assms(1-3) full_in_chain [OF g(1)]] record_ID [OF assms(1)] g by (simp add: now_def full_records_def)
  then show ?thesis using g(1) t k(3) by blast
qed

theorem Evaluate_keep_daily_witness:
  "\<exists>plan. Evaluate (\<lambda>_. [''cF'', ''aF'']) (0, time_UTC) example_records example_policy = Inr plan \<and>
     (\<exists>g \<in> full_records example_records. br_BackupID g \<in> set (pl_KeptBackupIDs plan) \<and> day_number (br_StopTime g) = 1)"
proof -
  obtain plan where p: "Evaluate (\<lambda>_. [''cF'', ''aF'']) (0, time_UTC) example_records example_policy = Inr plan"
    using example_Evaluate by blast
  let ?f = "example_full ''aF'' 86400000000000 ''0/2000028''"
  have f: "?f \<in> full_records example_records" by (simp add: full_records_def example_retention_defs)
  have "\<exists>g \<in> full_records example_records. br_BackupID g \<in> set (pl_KeptBackupIDs plan) \<and>
      day_number (br_StopTime g) = day_number (br_StopTime ?f) \<and> br_StopTime ?f \<le> br_StopTime g"
    by (rule Evaluate_keep_daily [OF example_records_ok example_rng_ok p f])
      (simp_all add: example_policy_def example_full_def IsZero_def day_number_def time_Second_def)
  moreover have "day_number (br_StopTime ?f) = 1" by (simp add: example_full_def day_number_def time_Second_def)
  ultimately show ?thesis using p by metis
qed



end
