(* ===== verification/Prune.thy ===== *)
theory Prune
  imports Retention Archive
begin

text \<open>
  \<open>internal/retention/prune.go\<close>: carrying a plan out on a storage. A function that returns a partial
  result together with an error returns both here.
\<close>

definition DefaultWALSegmentSize :: int where
  "DefaultWALSegmentSize = 16 * 1024 * 1024"

record PruneResult =
  pr_BackupsDeleted :: "string list"
  pr_FilesDeleted :: nat
  pr_WALSegmentsDeleted :: "string list"

definition walSegmentNameForTimeline :: "u32 \<Rightarrow> LSN \<Rightarrow> string" where
  "walSegmentNameForTimeline tli lsn =
     (let segNo = lsn div word_of_int DefaultWALSegmentSize;
          hi = ucast (drop_bit 32 segNo) :: u32;
          lo = ucast (take_bit 32 segNo) :: u32
      in fmt_08X tli @ fmt_08X hi @ fmt_08X lo)"

definition parseTimelineFromPath :: "string \<Rightarrow> u32 option" where
  "parseTimelineFromPath p =
     (let parts = strings_Split (CHR ''/'') p;
          fallback = (let b = path_Base p in if length b \<noteq> 24 then None else map_option of_nat (sscanf_x 32 (take 8 b)))
      in if 3 \<le> length parts \<and> parts ! 0 = ''wal''
         then (case sscanf_x 32 (parts ! (length parts - 2)) of Some tli \<Rightarrow> Some (of_nat tli) | None \<Rightarrow> fallback)
         else fallback)"

fun pruneWAL_loop :: "('s, 'w) Backend \<Rightarrow> LSN \<Rightarrow> bool \<Rightarrow> FileInfo list \<Rightarrow> (u32 \<rightharpoonup> string) \<Rightarrow> string list \<Rightarrow> 's \<Rightarrow>
    (string list \<times> goerr option) \<times> 's" where
  "pruneWAL_loop b oldest dryRun [] cutoffs deleted s = ((deleted, None), s)"
| "pruneWAL_loop b oldest dryRun (fi # fis) cutoffs deleted s =
     (let base = path_Base (fi_Path fi) in
      if length base \<noteq> 24 then pruneWAL_loop b oldest dryRun fis cutoffs deleted s
      else
        case parseTimelineFromPath (fi_Path fi) of
          None \<Rightarrow> pruneWAL_loop b oldest dryRun fis cutoffs deleted s
        | Some tli \<Rightarrow>
            (let (cut, cutoffs) =
               (case cutoffs tli of
                  Some c \<Rightarrow> (c, cutoffs)
                | None \<Rightarrow> (let c = walSegmentNameForTimeline tli oldest in (c, cutoffs(tli \<mapsto> c))))
             in if cut \<le> base then pruneWAL_loop b oldest dryRun fis cutoffs deleted s
                else if dryRun then pruneWAL_loop b oldest dryRun fis cutoffs (deleted @ [fi_Path fi]) s
                else case b_Delete b (fi_Path fi) s of
                       (Inl e, s1) \<Rightarrow> ((deleted, Some (wrapErr (''prune: delete wal '' @ fi_Path fi) e)), s1)
                     | (Inr _, s1) \<Rightarrow> pruneWAL_loop b oldest dryRun fis cutoffs (deleted @ [fi_Path fi]) s1))"

definition pruneWAL :: "('s, 'w) Backend \<Rightarrow> LSN \<Rightarrow> bool \<Rightarrow> 's \<Rightarrow> (string list \<times> goerr option) \<times> 's" where
  "pruneWAL b oldest dryRun s =
     (if oldest = 0 then (([], None), s)
      else case b_List b ''wal'' s of
             (Inl e, s1) \<Rightarrow> (([], Some (wrapErr ''prune: list wal'' e)), s1)
           | (Inr walEntries, s1) \<Rightarrow> pruneWAL_loop b oldest dryRun walEntries Map.empty [] s1)"

fun prune_files :: "('s, 'w) Backend \<Rightarrow> bool \<Rightarrow> FileInfo list \<Rightarrow> PruneResult \<Rightarrow> 's \<Rightarrow> (PruneResult \<times> goerr option) \<times> 's" where
  "prune_files b dryRun [] res s = ((res, None), s)"
| "prune_files b dryRun (fi # fis) res s =
     (if dryRun then prune_files b dryRun fis (res\<lparr>pr_FilesDeleted := pr_FilesDeleted res + 1\<rparr>) s
      else case b_Delete b (fi_Path fi) s of
             (Inl e, s1) \<Rightarrow> ((res, Some (wrapErr (''prune: delete '' @ fi_Path fi) e)), s1)
           | (Inr _, s1) \<Rightarrow> prune_files b dryRun fis (res\<lparr>pr_FilesDeleted := pr_FilesDeleted res + 1\<rparr>) s1)"

fun prune_ids :: "('s, 'w) Backend \<Rightarrow> bool \<Rightarrow> string list \<Rightarrow> PruneResult \<Rightarrow> 's \<Rightarrow> (PruneResult \<times> goerr option) \<times> 's" where
  "prune_ids b dryRun [] res s = ((res, None), s)"
| "prune_ids b dryRun (d # ds) res s =
     (case b_List b d s of
        (Inl e, s1) \<Rightarrow> ((res, Some (wrapErr (''prune: list '' @ d) e)), s1)
      | (Inr files, s1) \<Rightarrow>
          (case prune_files b dryRun files res s1 of
             ((res1, Some e), s2) \<Rightarrow> ((res1, Some e), s2)
           | ((res1, None), s2) \<Rightarrow>
               prune_ids b dryRun ds (res1\<lparr>pr_BackupsDeleted := pr_BackupsDeleted res1 @ [d]\<rparr>) s2))"

definition Prune :: "('s, 'w) Backend \<Rightarrow> Plan \<Rightarrow> bool \<Rightarrow> 's \<Rightarrow> (PruneResult \<times> goerr option) \<times> 's" where
  "Prune b plan dryRun s =
     (case prune_ids b dryRun (pl_ExpirableBackupIDs plan)
             \<lparr>pr_BackupsDeleted = [], pr_FilesDeleted = 0, pr_WALSegmentsDeleted = []\<rparr> s of
        ((res, Some e), s1) \<Rightarrow> ((res, Some e), s1)
      | ((res, None), s1) \<Rightarrow>
          (case pruneWAL b (pl_OldestNeededLSN plan) dryRun s1 of
             ((_, Some e), s2) \<Rightarrow> ((res, Some e), s2)
           | ((walDeleted, None), s2) \<Rightarrow> ((res\<lparr>pr_WALSegmentsDeleted := walDeleted\<rparr>, None), s2)))"


section \<open>What is deleted\<close>

text \<open>The keys of the WAL part that the cutoff of their timeline excludes.\<close>

definition wal_doomed :: "LSN \<Rightarrow> string \<Rightarrow> bool" where
  "wal_doomed oldest k \<longleftrightarrow>
     oldest \<noteq> 0 \<and> length (path_Base k) = 24 \<and>
     (case parseTimelineFromPath k of None \<Rightarrow> False | Some tli \<Rightarrow> path_Base k < walSegmentNameForTimeline tli oldest)"

text \<open>Distinct backup directories share no key.\<close>

definition apart :: "string list \<Rightarrow> bool" where
  "apart ds \<longleftrightarrow> distinct ds \<and> (\<forall>d \<in> set ds. \<forall>e \<in> set ds. \<forall>k. listed d k \<longrightarrow> listed e k \<longrightarrow> d = e)"

context storage_backend
begin

lemma prune_files_facts:
  assumes "inv s" "\<forall>fi \<in> set fis. key (fi_Path fi)" "prune_files B dry fis res s = ((res', err), s')"
  shows "inv s' \<and> (\<forall>k. k \<notin> fi_Path ` set fis \<longrightarrow> view s' k = view s k) \<and> (dry \<longrightarrow> view s' = view s) \<and>
    pr_BackupsDeleted res' = pr_BackupsDeleted res \<and> pr_WALSegmentsDeleted res' = pr_WALSegmentsDeleted res \<and>
    (err = None \<longrightarrow> pr_FilesDeleted res' = pr_FilesDeleted res + length fis \<and>
       (\<not> dry \<longrightarrow> (\<forall>k \<in> fi_Path ` set fis. view s' k = None)))"
  using assms
proof (induction fis arbitrary: res s)
  case (Cons fi fis)
  show ?case
  proof (cases dry)
    case True
    then show ?thesis using Cons.IH [of s "res\<lparr>pr_FilesDeleted := pr_FilesDeleted res + 1\<rparr>"] Cons.prems by auto
  next
    case False
    obtain x s1 where d: "b_Delete B (fi_Path fi) s = (x, s1)" by fastforce
    have k: "key (fi_Path fi)" using Cons.prems by simp
    show ?thesis
    proof (cases x)
      case (Inl e)
      then have "err \<noteq> None" "res' = res" "s' = s1" using Cons.prems(3) d False by auto
      then show ?thesis using delete_err [OF Cons.prems(1) k] d Inl False by auto
    next
      case (Inr u)
      have s1: "inv s1" "view s1 = (view s)(fi_Path fi := None)" using delete_ok [OF Cons.prems(1) k] d Inr by auto
      have "prune_files B dry fis (res\<lparr>pr_FilesDeleted := pr_FilesDeleted res + 1\<rparr>) s1 = ((res', err), s')"
        using Cons.prems(3) d Inr False by simp
      from Cons.IH [OF s1(1) _ this] Cons.prems(2) show ?thesis
        unfolding s1(2) using False by (auto simp: image_iff) metis
    qed
  qed
qed auto

lemma prune_ids_facts:
  assumes "inv s" "\<forall>d \<in> set ds. key d" "apart ds" "prune_ids B dry ds res s = ((res', err), s')"
  shows "inv s' \<and> (\<forall>k. \<not> (\<exists>d \<in> set ds. listed d k) \<longrightarrow> view s' k = view s k) \<and> (dry \<longrightarrow> view s' = view s) \<and>
    pr_WALSegmentsDeleted res' = pr_WALSegmentsDeleted res \<and>
    (err = None \<longrightarrow> pr_BackupsDeleted res' = pr_BackupsDeleted res @ ds \<and>
       pr_FilesDeleted res' = pr_FilesDeleted res + (\<Sum>d\<leftarrow>ds. card {k. view s k \<noteq> None \<and> listed d k}) \<and>
       (\<not> dry \<longrightarrow> (\<forall>k. (\<exists>d \<in> set ds. listed d k) \<longrightarrow> view s' k = None)))"
  using assms
proof (induction ds arbitrary: res s)
  case (Cons d ds)
  obtain x s1 where l: "b_List B d s = (x, s1)" by fastforce
  have k: "key d" "apart ds" using Cons.prems by (auto simp: apart_def)
  have s1: "inv s1" "view s1 = view s" using list [OF Cons.prems(1) _ l] k by auto
  show ?case
  proof (cases x)
    case (Inl e)
    then have "s' = s1" "res' = res" "err \<noteq> None" using Cons.prems(4) l by auto
    then show ?thesis using s1 by simp
  next
    case (Inr fis)
    have ks: "distinct (map fi_Path fis)" "fi_Path ` set fis = {k. view s k \<noteq> None \<and> listed d k}"
      using list_keys [OF Cons.prems(1)] l Inr k by auto
    then have n: "length fis = card {k. view s k \<noteq> None \<and> listed d k}"
      by (metis distinct_card length_map list.set_map)
    have kk: "\<forall>fi \<in> set fis. key (fi_Path fi)" using ks(2) view_key [OF Cons.prems(1)] by blast
    obtain res1 err1 s2 where f: "prune_files B dry fis res s1 = ((res1, err1), s2)" by (metis prod.exhaust)
    note ff = prune_files_facts [OF s1(1) kk f, unfolded ks(2) s1(2)]
    show ?thesis
    proof (cases err1)
      case (Some e)
      then have "s' = s2" "res' = res1" "err \<noteq> None" using Cons.prems(4) l Inr f by auto
      then show ?thesis using ff by auto
    next
      case None
      have rest: "prune_ids B dry ds (res1\<lparr>pr_BackupsDeleted := pr_BackupsDeleted res1 @ [d]\<rparr>) s2 = ((res', err), s')"
        using Cons.prems(4) l Inr f None by simp
      have s2: "inv s2" "dry \<longrightarrow> view s2 = view s" "\<And>k. \<not> listed d k \<Longrightarrow> view s2 k = view s k"
        "\<not> dry \<Longrightarrow> listed d k \<Longrightarrow> view s2 k = None" for k
        using ff None by auto
      have same: "view s2 k = view s k" if "e \<in> set ds" "listed e k" for e k
        using that Cons.prems(3) s2(3) [of k] by (auto simp: apart_def)
      have "(\<Sum>e\<leftarrow>ds. card {k. view s2 k \<noteq> None \<and> listed e k}) = (\<Sum>e\<leftarrow>ds. card {k. view s k \<noteq> None \<and> listed e k})"
        using same by (intro arg_cong [of _ _ sum_list] map_cong refl arg_cong [of _ _ card]) auto
      note IH = Cons.IH [OF s2(1) _ k(2) rest, unfolded this] Cons.prems(2)
      have gone: "view s' k = None" if "\<not> dry" "err = None" "listed d k" for k
      proof (cases "\<exists>e \<in> set ds. listed e k")
        case False
        then show ?thesis using IH s2(4) that by auto
      qed (use IH that in auto)
      show ?thesis using IH s2(2,3) ff None gone n by auto
    qed
  qed
qed auto

lemma pruneWAL_loop_facts:
  assumes "inv s" "\<forall>fi \<in> set fis. key (fi_Path fi)" "oldest \<noteq> 0"
    "\<forall>tli c. cutoffs tli = Some c \<longrightarrow> c = walSegmentNameForTimeline tli oldest"
    "pruneWAL_loop B oldest dry fis cutoffs del s = ((del', err), s')"
  shows "inv s' \<and> (\<forall>k. \<not> (k \<in> fi_Path ` set fis \<and> wal_doomed oldest k) \<longrightarrow> view s' k = view s k) \<and> (dry \<longrightarrow> view s' = view s) \<and>
    (err = None \<longrightarrow> del' = del @ filter (wal_doomed oldest) (map fi_Path fis) \<and>
       (\<not> dry \<longrightarrow> (\<forall>k \<in> fi_Path ` set fis. wal_doomed oldest k \<longrightarrow> view s' k = None)))"
  using assms
proof (induction fis arbitrary: cutoffs del s)
  case (Cons fi fis)
  let ?p = "fi_Path fi"
  have ks: "\<forall>fi \<in> set fis. key (fi_Path fi)" using Cons.prems(2) by simp
  show ?case
  proof (cases "wal_doomed oldest ?p")
    case False
    have "\<exists>cutoffs'. (\<forall>tli c. cutoffs' tli = Some c \<longrightarrow> c = walSegmentNameForTimeline tli oldest) \<and>
        pruneWAL_loop B oldest dry fis cutoffs' del s = ((del', err), s')"
    proof (cases "length (path_Base ?p) \<noteq> 24 \<or> parseTimelineFromPath ?p = None")
      case True
      then have "pruneWAL_loop B oldest dry fis cutoffs del s = ((del', err), s')"
        using Cons.prems(5) by (cases "length (path_Base ?p) = 24") simp_all
      then show ?thesis using Cons.prems(4) by blast
    next
      case f: False
      then obtain tli where t: "parseTimelineFromPath ?p = Some tli" by auto
      define cs where "cs = (case cutoffs tli of Some _ \<Rightarrow> cutoffs | None \<Rightarrow> cutoffs(tli \<mapsto> walSegmentNameForTimeline tli oldest))"
      have le: "walSegmentNameForTimeline tli oldest \<le> path_Base ?p" using False f t Cons.prems(3) by (simp add: wal_doomed_def)
      have c: "cutoffs tli = Some c \<Longrightarrow> c = walSegmentNameForTimeline tli oldest" for c using Cons.prems(4) by blast
      have "pruneWAL_loop B oldest dry (fi # fis) cutoffs del s = pruneWAL_loop B oldest dry fis cs del s"
        using f t le c by (cases "cutoffs tli") (simp_all add: cs_def Let_def)
      moreover have "\<forall>u c. cs u = Some c \<longrightarrow> c = walSegmentNameForTimeline u oldest"
        using Cons.prems(4) by (auto simp: cs_def split: option.splits)
      ultimately show ?thesis using Cons.prems(5) by metis
    qed
    then obtain cs where "\<forall>tli c. cs tli = Some c \<longrightarrow> c = walSegmentNameForTimeline tli oldest"
      "pruneWAL_loop B oldest dry fis cs del s = ((del', err), s')" by blast
    from Cons.IH [OF Cons.prems(1) ks Cons.prems(3) this] False show ?thesis by auto
  next
    case True
    then obtain tli where t: "parseTimelineFromPath ?p = Some tli" "length (path_Base ?p) = 24"
      "path_Base ?p < walSegmentNameForTimeline tli oldest" by (auto simp: wal_doomed_def split: option.splits)
    define cs where "cs = (case cutoffs tli of Some _ \<Rightarrow> cutoffs | None \<Rightarrow> cutoffs(tli \<mapsto> walSegmentNameForTimeline tli oldest))"
    have cs: "\<forall>u c. cs u = Some c \<longrightarrow> c = walSegmentNameForTimeline u oldest"
      using Cons.prems(4) by (auto simp: cs_def split: option.splits)
    have step: "pruneWAL_loop B oldest dry (fi # fis) cutoffs del s =
        (if dry then pruneWAL_loop B oldest dry fis cs (del @ [?p]) s
         else case b_Delete B ?p s of
                (Inl e, s1) \<Rightarrow> ((del, Some (wrapErr (''prune: delete wal '' @ ?p) e)), s1)
              | (Inr _, s1) \<Rightarrow> pruneWAL_loop B oldest dry fis cs (del @ [?p]) s1)"
    proof (cases "cutoffs tli")
      case None
      then have cs: "cs = cutoffs(tli \<mapsto> walSegmentNameForTimeline tli oldest)" by (simp add: cs_def)
      show ?thesis unfolding cs using t t(3) [folded not_le] None by (simp add: Let_def)
    next
      case (Some c)
      then have cs: "cs = cutoffs" and c: "c = walSegmentNameForTimeline tli oldest" using Cons.prems(4) by (simp_all add: cs_def)
      show ?thesis unfolding cs using t t(3) [folded not_le] Some c by (simp add: Let_def)
    qed
    show ?thesis
    proof (cases dry)
      case d: True
      then have "pruneWAL_loop B oldest dry fis cs (del @ [?p]) s = ((del', err), s')" using step Cons.prems(5) by simp
      from Cons.IH [OF Cons.prems(1) ks Cons.prems(3) cs this] d True show ?thesis by auto
    next
      case d: False
      obtain x s1 where x: "b_Delete B ?p s = (x, s1)" by fastforce
      have k: "key ?p" using Cons.prems(2) by simp
      show ?thesis
      proof (cases x)
        case (Inl e)
        then have "s' = s1" "err \<noteq> None" using step Cons.prems(5) x d by auto
        then show ?thesis using delete_err [OF Cons.prems(1) k] x Inl by auto
      next
        case (Inr u)
        have s1: "inv s1" "view s1 = (view s)(?p := None)" using delete_ok [OF Cons.prems(1) k] x Inr by auto
        have "pruneWAL_loop B oldest dry fis cs (del @ [?p]) s1 = ((del', err), s')" using step Cons.prems(5) x d Inr by simp
        from Cons.IH [OF s1(1) ks Cons.prems(3) cs this] True d show ?thesis
          unfolding s1(2) by (auto simp: image_iff) metis
      qed
    qed
  qed
qed auto

lemma pruneWAL_facts:
  assumes "inv s" "key ''wal''" "pruneWAL B oldest dry s = ((del, err), s')"
  shows "inv s' \<and> (\<forall>k. \<not> (listed ''wal'' k \<and> wal_doomed oldest k) \<longrightarrow> view s' k = view s k) \<and> (dry \<longrightarrow> view s' = view s) \<and>
    (err = None \<longrightarrow> set del = {k. view s k \<noteq> None \<and> listed ''wal'' k \<and> wal_doomed oldest k} \<and>
       (\<not> dry \<longrightarrow> (\<forall>k. listed ''wal'' k \<and> wal_doomed oldest k \<longrightarrow> view s' k = None)))"
proof (cases "oldest = 0")
  case True
  then show ?thesis using assms by (auto simp: pruneWAL_def wal_doomed_def)
next
  case False
  obtain x s1 where l: "b_List B ''wal'' s = (x, s1)" by fastforce
  have s1: "inv s1" "view s1 = view s" using list [OF assms(1) _ l] assms(2) by auto
  show ?thesis
  proof (cases x)
    case (Inl e)
    then show ?thesis using assms(3) l s1 False by (auto simp: pruneWAL_def)
  next
    case (Inr fis)
    have ks: "fi_Path ` set fis = {k. view s k \<noteq> None \<and> listed ''wal'' k}"
      using list_keys [OF assms(1)] l Inr assms(2) by auto
    have kk: "\<forall>fi \<in> set fis. key (fi_Path fi)" using ks view_key [OF assms(1)] by blast
    have "pruneWAL_loop B oldest dry fis Map.empty [] s1 = ((del, err), s')" using assms(3) l Inr False by (simp add: pruneWAL_def)
    note w = pruneWAL_loop_facts [OF s1(1) kk False _ this, unfolded ks s1(2)]
    have "set (filter (wal_doomed oldest) (map fi_Path fis)) = {k. view s k \<noteq> None \<and> listed ''wal'' k \<and> wal_doomed oldest k}"
      using ks by auto
    moreover have "view s' k = None" if "err = None" "\<not> dry" "listed ''wal'' k" "wal_doomed oldest k" for k
      using w that by (cases "view s k = None") auto
    ultimately show ?thesis using w by auto
  qed
qed

end


section \<open>Prune on the POSIX storage\<close>

definition expirable_ok :: "string list \<Rightarrow> bool" where
  "expirable_ok ds \<longleftrightarrow> distinct ds \<and> (\<forall>d \<in> set ds. posix_key d \<and> CHR ''/'' \<notin> set d \<and> d \<noteq> ''wal'')"

lemma listed_first:
  assumes "d \<noteq> []" "CHR ''/'' \<notin> set d" "listed d k"
  shows "takeWhile (\<lambda>c. c \<noteq> CHR ''/'') k = d"
proof -
  have "takeWhile (\<lambda>c. c \<noteq> CHR ''/'') (d @ CHR ''/'' # x) = d" for x
    using assms(2) by (subst takeWhile_append2) auto
  then show ?thesis using assms by (auto simp: listed_def prefix_def takeWhile_eq_all_conv)
qed

lemma posix_key_nonempty: "posix_key d \<Longrightarrow> d \<noteq> []"
  using clean_rel_nonempty by (auto simp: posix_key_def)

lemma expirable_apart: "expirable_ok ds \<Longrightarrow> apart ds"
  unfolding apart_def expirable_ok_def by (metis listed_first posix_key_nonempty)

lemma wal_not_listed: "expirable_ok ds \<Longrightarrow> d \<in> set ds \<Longrightarrow> listed ''wal'' k \<Longrightarrow> \<not> listed d k"
  unfolding expirable_ok_def using listed_first [of "''wal''" k] listed_first [of d k] posix_key_nonempty by force

lemma posix_key_wal: "posix_key ''wal''"
  by code_simp

lemma Prune_split:
  assumes "Prune b plan dry s = ((res, err), s')"
  obtains res1 err1 s1 where "prune_ids b dry (pl_ExpirableBackupIDs plan)
      \<lparr>pr_BackupsDeleted = [], pr_FilesDeleted = 0, pr_WALSegmentsDeleted = []\<rparr> s = ((res1, err1), s1)"
    "err1 \<noteq> None \<Longrightarrow> res = res1 \<and> err = err1 \<and> s' = s1"
    "err1 = None \<Longrightarrow> \<exists>del err2. pruneWAL b (pl_OldestNeededLSN plan) dry s1 = ((del, err2), s') \<and>
       (err2 = None \<longrightarrow> res = res1\<lparr>pr_WALSegmentsDeleted := del\<rparr> \<and> err = None) \<and> (err2 \<noteq> None \<longrightarrow> res = res1 \<and> err = err2)"
proof -
  obtain res1 err1 s1 where 1: "prune_ids b dry (pl_ExpirableBackupIDs plan)
      \<lparr>pr_BackupsDeleted = [], pr_FilesDeleted = 0, pr_WALSegmentsDeleted = []\<rparr> s = ((res1, err1), s1)" by (metis prod.exhaust)
  obtain del err2 s2 where 2: "pruneWAL b (pl_OldestNeededLSN plan) dry s1 = ((del, err2), s2)" by (metis prod.exhaust)
  show ?thesis
    by (rule that [OF 1]) (use assms 1 2 in \<open>auto simp: Prune_def split: option.splits\<close>)
qed

text \<open>What \<open>Prune\<close> may remove.\<close>

definition doomed :: "Plan \<Rightarrow> string \<Rightarrow> bool" where
  "doomed plan k \<longleftrightarrow> (\<exists>d \<in> set (pl_ExpirableBackupIDs plan). listed d k) \<or> listed ''wal'' k \<and> wal_doomed (pl_OldestNeededLSN plan) k"

lemma Prune_spares:
  assumes "posix_inv r s" "expirable_ok (pl_ExpirableBackupIDs plan)" "Prune (posix_backend r) plan dry s = ((res, err), s')"
  shows "posix_inv r s' \<and> (\<forall>k. dry \<or> \<not> doomed plan k \<longrightarrow> posix_view r s' k = posix_view r s k)"
proof -
  from assms(3) obtain res1 err1 s1 where 1: "prune_ids (posix_backend r) dry (pl_ExpirableBackupIDs plan)
      \<lparr>pr_BackupsDeleted = [], pr_FilesDeleted = 0, pr_WALSegmentsDeleted = []\<rparr> s = ((res1, err1), s1)"
    "err1 \<noteq> None \<Longrightarrow> res = res1 \<and> err = err1 \<and> s' = s1"
    "err1 = None \<Longrightarrow> \<exists>del err2. pruneWAL (posix_backend r) (pl_OldestNeededLSN plan) dry s1 = ((del, err2), s')"
    by (rule Prune_split) blast
  have keys: "\<forall>d \<in> set (pl_ExpirableBackupIDs plan). posix_key d" using assms(2) by (simp add: expirable_ok_def)
  note f1 = pstore.prune_ids_facts [OF assms(1) keys expirable_apart [OF assms(2)] 1(1)]
  show ?thesis
  proof (cases err1)
    case None
    then obtain del err2 where 2: "pruneWAL (posix_backend r) (pl_OldestNeededLSN plan) dry s1 = ((del, err2), s')" using 1(3) by blast
    have "posix_inv r s1" using f1 by blast
    from pstore.pruneWAL_facts [OF this posix_key_wal 2] f1 show ?thesis by (auto simp: doomed_def)
  next
    case (Some e)
    then show ?thesis using f1 1(2) by (auto simp: doomed_def)
  qed
qed

section \<open>An example\<close>

text \<open>A storage with a backup to let go, one to keep, and two segments, of which the first is below the cutoff.\<close>

definition example_prune_files :: "(string \<times> bytes) list" where
  "example_prune_files =
     [(''aF/PG_VERSION'', ''17''), (''cF/PG_VERSION'', ''17''), (''wal/00000001/000000010000000000000002'', ''w2''),
      (''wal/00000001/000000010000000000000005'', ''w5'')]"

definition example_prune_store :: pfs where
  "example_prune_store = store_fs [''aF'', ''cF'', ''wal'', ''wal/00000001''] example_prune_files"

definition example_plan :: Plan where
  "example_plan = \<lparr>pl_ExpirableBackupIDs = [''aF''], pl_OldestNeededLSN = 0x5000028, pl_KeptBackupIDs = [''cF'']\<rparr>"

lemma example_prune_ok: "posix_inv example_root example_prune_store"
proof -
  have "store_ok [''aF'', ''cF'', ''wal'', ''wal/00000001''] (map fst example_prune_files)" by code_simp
  then show ?thesis unfolding example_prune_store_def by (rule store_fs_inv)
qed

lemma example_expirable_ok: "expirable_ok (pl_ExpirableBackupIDs example_plan)"
proof -
  have "posix_key ''aF''" by code_simp
  then show ?thesis by (simp add: expirable_ok_def example_plan_def)
qed

lemma example_prune_run:
  "\<exists>res s'. Prune (posix_backend example_root) example_plan False example_prune_store = ((res, None), s')"
proof -
  have "snd (fst (Prune (posix_backend example_root) example_plan False example_prune_store)) = None" by code_simp
  then show ?thesis by (metis prod.collapse)
qed

text \<open>C34: \<open>Prune\<close> carries its plan out exactly. When it succeeds, the backups it reports are those of the
  plan, the file count and the WAL list are what the storage held of them, and afterwards the storage
  is as before less these files; a dry run reports the same and changes nothing.\<close>

theorem Prune_executes_plan:
  assumes "posix_inv r s" "expirable_ok (pl_ExpirableBackupIDs plan)" "Prune (posix_backend r) plan dry s = ((res, None), s')"
  shows "pr_BackupsDeleted res = pl_ExpirableBackupIDs plan \<and>
    pr_FilesDeleted res = (\<Sum>d\<leftarrow>pl_ExpirableBackupIDs plan. card {k. posix_view r s k \<noteq> None \<and> listed d k}) \<and>
    set (pr_WALSegmentsDeleted res) = {k. posix_view r s k \<noteq> None \<and> listed ''wal'' k \<and> wal_doomed (pl_OldestNeededLSN plan) k} \<and>
    posix_view r s' = (if dry then posix_view r s else (\<lambda>k. if doomed plan k then None else posix_view r s k))"
proof -
  from assms(3) obtain res1 err1 s1 where 1: "prune_ids (posix_backend r) dry (pl_ExpirableBackupIDs plan)
      \<lparr>pr_BackupsDeleted = [], pr_FilesDeleted = 0, pr_WALSegmentsDeleted = []\<rparr> s = ((res1, err1), s1)"
    "err1 \<noteq> None \<Longrightarrow> res = res1 \<and> None = err1 \<and> s' = s1"
    "err1 = None \<Longrightarrow> \<exists>del err2. pruneWAL (posix_backend r) (pl_OldestNeededLSN plan) dry s1 = ((del, err2), s') \<and>
       (err2 = None \<longrightarrow> res = res1\<lparr>pr_WALSegmentsDeleted := del\<rparr>) \<and> (err2 \<noteq> None \<longrightarrow> None = err2)"
    by (rule Prune_split) blast
  have e1: "err1 = None" using 1(2) by metis
  then obtain del where 2: "pruneWAL (posix_backend r) (pl_OldestNeededLSN plan) dry s1 = ((del, None), s')"
    and res: "res = res1\<lparr>pr_WALSegmentsDeleted := del\<rparr>" using 1(3) by auto
  have keys: "\<forall>d \<in> set (pl_ExpirableBackupIDs plan). posix_key d" using assms(2) by (simp add: expirable_ok_def)
  note f1 = pstore.prune_ids_facts [OF assms(1) keys expirable_apart [OF assms(2)] 1(1), unfolded e1]
  then have i1: "posix_inv r s1" by blast
  note f2 = pstore.pruneWAL_facts [OF i1 posix_key_wal 2]
  have same: "posix_view r s1 k = posix_view r s k" if "listed ''wal'' k" for k
    using f1 wal_not_listed [OF assms(2) _ that] by blast
  have "posix_view r s' k = (if dry then posix_view r s k else if doomed plan k then None else posix_view r s k)" for k
  proof (cases "dry \<or> \<not> doomed plan k")
    case True
    then show ?thesis using Prune_spares [OF assms] by auto
  next
    case False
    then consider "listed ''wal'' k" "wal_doomed (pl_OldestNeededLSN plan) k" |
        "\<exists>d \<in> set (pl_ExpirableBackupIDs plan). listed d k" "\<not> (listed ''wal'' k \<and> wal_doomed (pl_OldestNeededLSN plan) k)"
      by (auto simp: doomed_def)
    then have "posix_view r s' k = None" using f1 f2 False by cases auto
    then show ?thesis using False by simp
  qed
  then have "posix_view r s' = (if dry then posix_view r s else (\<lambda>k. if doomed plan k then None else posix_view r s k))" by auto
  moreover have "set del = {k. posix_view r s k \<noteq> None \<and> listed ''wal'' k \<and> wal_doomed (pl_OldestNeededLSN plan) k}"
    using f2 same by auto
  ultimately show ?thesis using f1 res by simp
qed

theorem Prune_executes_plan_witness:
  "\<exists>res s'. Prune (posix_backend example_root) example_plan False example_prune_store = ((res, None), s') \<and>
     pr_BackupsDeleted res = [''aF''] \<and> posix_view example_root s' ''aF/PG_VERSION'' = None \<and>
     posix_view example_root s' ''cF/PG_VERSION'' = posix_view example_root example_prune_store ''cF/PG_VERSION''"
proof -
  obtain res s' where r: "Prune (posix_backend example_root) example_plan False example_prune_store = ((res, None), s')"
    using example_prune_run by blast
  have "doomed example_plan ''aF/PG_VERSION''" "\<not> doomed example_plan ''cF/PG_VERSION''"
    by (simp_all add: doomed_def listed_def example_plan_def)
  with Prune_executes_plan [OF example_prune_ok example_expirable_ok r] r show ?thesis by (auto simp: example_plan_def)
qed


section \<open>WAL that is still needed\<close>

lemma segment_size_default: "segment_size_ok DefaultWALSegmentSize" "nat DefaultWALSegmentSize = 2 ^ 24"
  by (simp_all add: segment_size_ok_def DefaultWALSegmentSize_def)

text \<open>The cutoff splits the segment number at 32 bits, PostgreSQL at 256 segments per log file: the cutoff
  never lies after the name PostgreSQL gives the segment.\<close>

lemma cutoff_name:
  assumes "n = unat oldest div 2 ^ 24"
  shows "walSegmentNameForTimeline tli oldest = fmt_08X tli @ fmt_08X (of_nat (n div 2 ^ 32)) @ fmt_08X (of_nat (n mod 2 ^ 32))"
proof -
  have d: "unat (oldest div word_of_int DefaultWALSegmentSize) = n"
    using segment_size_words(1) [OF segment_size_default(1)] segment_size_default(2) assms by (simp add: unat_div_distrib)
  have n: "n < 2 ^ 40" using unat_lt2p_u64 [of oldest] assms by (simp add: less_mult_imp_div_less)
  have "(ucast (drop_bit 32 (oldest div word_of_int DefaultWALSegmentSize)) :: u32) = of_nat (n div 2 ^ 32)"
    by (rule ucast_u32) (use d n in \<open>simp_all add: unat_drop_bit_eq drop_bit_eq_div unat_div_distrib\<close>)
  moreover have "(ucast (take_bit 32 (oldest div word_of_int DefaultWALSegmentSize)) :: u32) = of_nat (n mod 2 ^ 32)"
    by (rule ucast_u32) (use d in \<open>simp_all add: unsigned_take_bit_eq take_bit_eq_mod unat_mod_distrib\<close>)
  ultimately show ?thesis by (simp add: walSegmentNameForTimeline_def Let_def)
qed

lemma cutoff_le:
  "walSegmentNameForTimeline tli oldest \<le>
     segment_name tli (segmentsPerXLogID DefaultWALSegmentSize) (of_nat (unat oldest div 2 ^ 24))"
proof -
  define n where "n = unat oldest div 2 ^ 24"
  have n: "n < 2 ^ 40" using unat_lt2p_u64 [of oldest] by (simp add: n_def less_mult_imp_div_less)
  have le: "(of_nat a :: u32) \<le> of_nat b" "(of_nat a :: u32) < of_nat b \<longleftrightarrow> a < b" if "a \<le> b" "b < 2 ^ 32" for a b
    using that unat_of_nat_small(2) [of a] unat_of_nat_small(2) [of b] by (simp_all add: word_le_nat_alt word_less_nat_alt)
  have "n * nat DefaultWALSegmentSize < 2 ^ 64" using n by (simp add: segment_size_default)
  from segment_name_parts [OF segment_size_default(1) this, of tli]
  have name: "segment_name tli (segmentsPerXLogID DefaultWALSegmentSize) (of_nat n) =
      fmt_08X tli @ fmt_08X (of_nat (n div 256)) @ fmt_08X (of_nat (n mod 256))" by (simp add: segment_size_default)
  have "fmt_08X (of_nat (n div 2 ^ 32)) @ fmt_08X (of_nat (n mod 2 ^ 32)) \<le> fmt_08X (of_nat (n div 256)) @ fmt_08X (of_nat (n mod 256))"
  proof (cases "n < 256")
    case True
    then show ?thesis by simp
  next
    case False
    have "n div 2 ^ 32 < n div 256"
    proof -
      have "n div 2 ^ 32 = n div 256 div 2 ^ 24" by (simp add: div_mult2_eq [symmetric])
      moreover have "0 < n div 256" using False by (simp add: div_greater_zero_iff)
      then have "n div 256 div 2 ^ 24 < n div 256" by (intro div_less_dividend) simp_all
      ultimately show ?thesis by simp
    qed
    moreover have "n div 256 < 2 ^ 32" using n by (simp add: less_mult_imp_div_less)
    ultimately have "fmt_08X (of_nat (n div 2 ^ 32)) < fmt_08X (of_nat (n div 256))" using le(2) [of "n div 2 ^ 32" "n div 256"] by (simp add: fmt_08X_less)
    then show ?thesis by (subst list_le_append) simp_all
  qed
  then show ?thesis unfolding cutoff_name [OF n_def] n_def [symmetric] name by (subst list_le_append) simp_all
qed

lemma wal_path_timeline:
  assumes "CHR ''/'' \<notin> set seg"
  shows "parseTimelineFromPath (SegmentDir tli @ ''/'' @ seg) = Some tli"
proof -
  have "strings_Split (CHR ''/'') (SegmentDir tli @ ''/'' @ seg) = [''wal'', fmt_08X tli, seg]"
    using strings_Split_append [of "CHR ''/''" "''wal''" "fmt_08X tli @ CHR ''/'' # seg"]
      strings_Split_append [of "CHR ''/''" "fmt_08X tli" seg] assms
    by (simp add: SegmentDir_def strings_Split_no_sep)
  moreover have "sscanf_x 32 (fmt_08X tli) = Some (unat tli)" by (rule sscanf_x_fmt_08X)
  ultimately show ?thesis by (simp add: parseTimelineFromPath_def Let_def)
qed

lemma under_wal:
  assumes "CHR ''/'' \<notin> set seg" "seg \<noteq> []"
  shows "path_Base (SegmentDir tli @ ''/'' @ seg) = seg" "listed ''wal'' (SegmentDir tli @ ''/'' @ seg)"
  using path_Base_append [OF assms(2,1), of "SegmentDir tli"] by (simp_all add: listed_def SegmentDir_def)

lemma segment_not_doomed:
  assumes "oldest \<le> lsn" "WALSegmentName tli lsn DefaultWALSegmentSize = Some seg"
  shows "\<not> wal_doomed oldest (SegmentDir tli @ ''/'' @ seg)"
proof -
  have seg: "seg = segment_name tli (segmentsPerXLogID DefaultWALSegmentSize) (of_nat (unat lsn div 2 ^ 24))"
    using assms(2) WALSegmentName_ok [OF segment_size_default(1)] by (simp add: segment_size_default(2))
  have ch: "CHR ''/'' \<notin> set seg" "seg \<noteq> []"
    using length_fmt_08X [of tli] unfolding seg segment_name_def Let_def by (auto simp del: length_fmt_08X)
  have "walSegmentNameForTimeline tli oldest \<le> seg"
  proof (cases "unat oldest div 2 ^ 24 = unat lsn div 2 ^ 24")
    case True
    then show ?thesis using cutoff_le [of tli oldest] by (simp add: seg)
  next
    case False
    moreover have "unat oldest div 2 ^ 24 \<le> unat lsn div 2 ^ 24" using assms(1) by (simp add: word_le_nat_alt div_le_mono)
    ultimately have lt: "unat oldest div 2 ^ 24 < unat lsn div 2 ^ 24" by simp
    have "unat lsn div 2 ^ 24 * 2 ^ 24 \<le> unat lsn" by simp
    then have "unat lsn div 2 ^ 24 * nat DefaultWALSegmentSize < 2 ^ 64"
      unfolding segment_size_default(2) using unat_lt2p_u64 [of lsn] by (rule le_less_trans)
    from segment_name_less [OF segment_size_default(1) lt this, of tli] cutoff_le [of tli oldest]
    show ?thesis unfolding seg by order
  qed
  then show ?thesis unfolding wal_doomed_def under_wal(1) [OF ch] wal_path_timeline [OF ch(1)] by (simp add: not_less)
qed






section \<open>From the listing to the deletion\<close>

context storage_backend
begin

lemma loadOne_facts:
  assumes "inv s" "key (path_Join [d, ''Storage-Metadata.json''])" "key (path_Join [d, ''backup_manifest''])" "loadOne B d s = (x, s')"
  shows "inv s' \<and> view s' = view s"
proof -
  obtain g s1 where g: "get_body B (path_Join [d, ''Storage-Metadata.json'']) s = (g, s1)" by fastforce
  have s1: "inv s1 \<and> view s1 = view s" using get_body_facts [OF assms(1,2) g] by simp
  obtain g' s2 where g': "get_body B (path_Join [d, ''backup_manifest'']) s1 = (g', s2)" by fastforce
  have s2: "inv s2 \<and> view s2 = view s" using get_body_facts [OF _ assms(3) g'] s1 by simp
  show ?thesis using assms(4) g g' s1 s2
    by (auto simp: loadOne_def readSidecar_def readManifestHeader_def Let_def split: sum.splits option.splits)
qed

lemma load_all_facts:
  "inv s \<Longrightarrow> \<forall>d \<in> set ds. key (path_Join [d, ''Storage-Metadata.json'']) \<and> key (path_Join [d, ''backup_manifest'']) \<Longrightarrow>
     load_all B ds s = (x, s') \<Longrightarrow> inv s' \<and> view s' = view s"
proof (induction ds arbitrary: s x s')
  case (Cons d ds)
  obtain y s1 where y: "loadOne B d s = (y, s1)" by fastforce
  obtain z s2 where z: "load_all B ds s1 = (z, s2)" by fastforce
  have "s' = s2" using Cons.prems(3) y z by (auto split: sum.splits prod.splits)
  then show ?case using loadOne_facts [OF Cons.prems(1) _ _ y] Cons.IH [OF _ _ z] Cons.prems(2) by simp
qed simp

end

lemma backup_file_key:
  assumes "posix_inv r s" "posix_view r s (d @ CHR ''/'' # x) \<noteq> None" "m \<in> {''Storage-Metadata.json'', ''backup_manifest''}"
  shows "posix_key (path_Join [d, m])"
proof -
  have "clean_rel d" using assms(1,2) pstore.view_key [of r s] clean_rel_append by (auto simp: posix_key_def)
  moreover have m: "clean_rel m" "CHR ''/'' \<notin> set m" "m \<noteq> []" "\<not> strings_Contains m ''.pgsafe-tmp''"
    using assms(3) by (elim insertE emptyE; simp; code_simp)+
  ultimately show ?thesis
    using path_Join_rel [of d m] path_Base_append [OF m(3,2), of d] by (simp add: posix_key_def clean_rel_append)
qed

lemma List_facts:
  assumes "posix_inv r s" "List (posix_backend r) s = (Inr (rs, ws), s')"
  shows "posix_inv r s' \<and> posix_view r s' = posix_view r s" "records_ok rs"
    "x \<in> set rs \<Longrightarrow> CHR ''/'' \<notin> set (br_BackupID x) \<and> br_BackupID x \<noteq> ''wal''"
proof -
  note ids = List_IDs [OF assms]
  have name: "CHR ''/'' \<notin> set d \<and> d \<noteq> ''wal'' \<and> d \<noteq> []" if "d \<in> set (map br_BackupID rs)" for d
  proof -
    have d: "CHR ''/'' \<notin> set d" "strings_HasSuffix d ''F'' \<or> strings_HasSuffix d ''I''" using ids that by auto
    then show ?thesis by (auto simp: suffix_def append_eq_Cons_conv)
  qed
  show "records_ok rs" using ids name by (auto simp: records_ok_def strict_sorted_iff)
  show "x \<in> set rs \<Longrightarrow> CHR ''/'' \<notin> set (br_BackupID x) \<and> br_BackupID x \<noteq> ''wal''" using name by simp
  from assms(2) obtain all s1 where l: "b_List (posix_backend r) [] s = (Inr all, s1)"
    "load_all (posix_backend r) (backup_dirs all) s1 = ((rs, ws), s')"
    by (auto simp: List_def split: prod.splits sum.splits)
  have s1: "posix_inv r s1 \<and> posix_view r s1 = posix_view r s" using pstore.list [OF assms(1) _ l(1)] by simp
  have "\<forall>d \<in> set (backup_dirs all). posix_key (path_Join [d, ''Storage-Metadata.json'']) \<and> posix_key (path_Join [d, ''backup_manifest''])"
    unfolding backup_dirs_keys [OF assms(1) l(1)] using backup_file_key [OF assms(1)] by blast
  from pstore.load_all_facts [OF _ this l(2)] s1 show "posix_inv r s' \<and> posix_view r s' = posix_view r s" by simp
qed

text \<open>C4: a prune run as the command makes it, the listing, the plan and its execution on one storage, never
  touches a file of a backup the plan keeps, whatever fails on the way, and touches nothing on a dry run.\<close>

theorem Prune_keeps_kept_backups:
  assumes "posix_inv r s" "List (posix_backend r) s = (Inr (rs, ws), s1)" "\<forall>x \<in> set rs. posix_key (br_BackupID x)"
    "rng_ok rs rng" "Evaluate rng clock rs policy = Inr plan"
    "Prune (posix_backend r) plan dry s1 = ((res, err), s2)"
  shows "\<forall>d \<in> set (pl_KeptBackupIDs plan). \<forall>k. listed d k \<longrightarrow> posix_view r s2 k = posix_view r s k"
proof (intro ballI allI impI)
  fix d k assume d: "d \<in> set (pl_KeptBackupIDs plan)" and k: "listed d k"
  note lf = List_facts [OF assms(1,2)]
  note sets = Evaluate_sets [OF lf(2) assms(4,5)]
  have rec: "\<exists>x \<in> set rs. e = br_BackupID x" if "e \<in> set (pl_KeptBackupIDs plan) \<union> set (pl_ExpirableBackupIDs plan)" for e
    using that unfolding sets by (auto simp: in_chain_def)
  have ok: "posix_key e \<and> CHR ''/'' \<notin> set e \<and> e \<noteq> ''wal''" if e: "e \<in> set (pl_KeptBackupIDs plan) \<union> set (pl_ExpirableBackupIDs plan)" for e
  proof -
    obtain x where "x \<in> set rs" "e = br_BackupID x" using rec [OF e] by blast
    then show ?thesis using lf(3) [of x] assms(3) by simp
  qed
  have "d \<notin> set (pl_ExpirableBackupIDs plan)"
  proof
    assume e: "d \<in> set (pl_ExpirableBackupIDs plan)"
    obtain x j where "d = br_BackupID x" "in_chain rs j x" "j \<noteq> []" using d unfolding sets by blast
    then show False using Evaluate_record [OF lf(2) assms(4,5)] d e by blast
  qed
  then have "\<not> (\<exists>e \<in> set (pl_ExpirableBackupIDs plan). listed e k)"
    using ok d k listed_first posix_key_nonempty by (metis UnI1 UnI2)
  moreover have "\<not> listed ''wal'' k" using ok d k listed_first [of d k] listed_first [of "''wal''" k] posix_key_nonempty by force
  ultimately have nd: "\<not> doomed plan k" by (simp add: doomed_def)
  have "distinct (pl_ExpirableBackupIDs plan)" by (rule Evaluate_distinct [OF lf(2) assms(4,5)])
  then have "expirable_ok (pl_ExpirableBackupIDs plan)" using ok by (auto simp: expirable_ok_def)
  from Prune_spares [OF _ this assms(6)] lf(1) nd show "posix_view r s2 k = posix_view r s k" by simp
qed

definition example_backup_store :: pfs where
  "example_backup_store = store_fs [''cF''] [(''cF/Storage-Metadata.json'', MarshalSidecar example_sidecar)]"

lemma example_backup_ok:
  "posix_inv example_root example_backup_store"
  "posix_view example_root example_backup_store ''cF/Storage-Metadata.json'' = Some (MarshalSidecar example_sidecar)"
proof -
  have "store_ok [''cF''] [''cF/Storage-Metadata.json'']" by code_simp
  then have ok: "store_ok [''cF''] (map fst [(''cF/Storage-Metadata.json'', MarshalSidecar example_sidecar)])" by simp
  show "posix_inv example_root example_backup_store" unfolding example_backup_store_def by (rule store_fs_inv [OF ok])
  have "posix_key ''cF/Storage-Metadata.json''" by code_simp
  then show "posix_view example_root example_backup_store ''cF/Storage-Metadata.json'' = Some (MarshalSidecar example_sidecar)"
    unfolding example_backup_store_def store_fs_view [OF ok] by simp
qed

lemma example_backup_list:
  "\<exists>rec ws s1. List (posix_backend example_root) example_backup_store = (Inr ([rec], ws), s1) \<and>
     br_BackupID rec = ''cF'' \<and> br_Type rec = BackupTypeFull"
proof -
  have "map_sum (\<lambda>_. ()) backup_dirs (fst (b_List (posix_backend example_root) [] (store_fs [''cF''] [(''cF/Storage-Metadata.json'', x)]))) = Inr [''cF'']" for x
    by code_simp
  from this [of "MarshalSidecar example_sidecar"] obtain xs s1 where
    l: "b_List (posix_backend example_root) [] example_backup_store = (Inr xs, s1)" "backup_dirs xs = [''cF'']"
    unfolding example_backup_store_def [symmetric]
    by (cases "b_List (posix_backend example_root) [] example_backup_store"; cases "fst (b_List (posix_backend example_root) [] example_backup_store)") auto
  have "healthy example_backup_store" by (simp add: example_backup_store_def)
  from healthy_list [OF this, of example_root] l(1)
  have s1: "posix_inv example_root s1" "posix_view example_root s1 = posix_view example_root example_backup_store" "healthy s1"
    using example_backup_ok(1) \<open>healthy example_backup_store\<close> by (auto simp: posix_backend_def)
  have j: "path_Join [''cF'', ''Storage-Metadata.json''] = ''cF/Storage-Metadata.json''" by code_simp
  have "UnmarshalSidecar (MarshalSidecar example_sidecar) = Inr example_sidecar" by (rule Sidecar_round_trip [OF example_sidecar_ok])
  then have "readSidecar (posix_backend example_root) ''cF'' s1 = (Inr example_sidecar, tick (tick s1))"
    using healthy_get [OF s1(1,3)] example_backup_ok(2) s1(2) by (simp add: readSidecar_def j get_body_def posix_backend_def io_ReadAll_def)
  then obtain rec s2 where r: "loadOne (posix_backend example_root) ''cF'' s1 = (Inr rec, s2)" "br_Type rec = BackupTypeFull"
    by (cases "readManifestHeader (posix_backend example_root) ''cF'' (tick (tick s1))"; cases "fst (readManifestHeader (posix_backend example_root) ''cF'' (tick (tick s1)))")
      (auto simp: loadOne_def Let_def apply_header_def apply_sidecar_def example_sidecar_def BackupTypeFull_def)
  then show ?thesis using loadOne_ID [OF r(1)] l by (simp add: List_def)
qed

theorem Prune_keeps_kept_backups_witness:
  "\<exists>rs ws s1 plan res err s2. List (posix_backend example_root) example_backup_store = (Inr (rs, ws), s1) \<and>
     Evaluate (\<lambda>_. [''cF'']) (0, time_UTC) rs example_policy = Inr plan \<and> ''cF'' \<in> set (pl_KeptBackupIDs plan) \<and>
     Prune (posix_backend example_root) plan False s1 = ((res, err), s2) \<and>
     posix_view example_root s2 ''cF/Storage-Metadata.json'' = posix_view example_root example_backup_store ''cF/Storage-Metadata.json''"
proof -
  obtain rec ws s1 where l: "List (posix_backend example_root) example_backup_store = (Inr ([rec], ws), s1)"
    and rec: "br_BackupID rec = ''cF''" "br_Type rec = BackupTypeFull" using example_backup_list by blast
  obtain plan where e: "Evaluate (\<lambda>_. [''cF'']) (0, time_UTC) [rec] example_policy = Inr plan"
    using Evaluate_total [of example_policy "\<lambda>_. [''cF'']" "(0, time_UTC)" "[rec]"] by (auto simp: Policy_Validate_def example_policy_def)
  obtain res err s2 where p: "Prune (posix_backend example_root) plan False s1 = ((res, err), s2)" by (metis prod.exhaust)
  have ok: "records_ok [rec]" using rec by (simp add: records_ok_def)
  have rng: "rng_ok [rec] (\<lambda>_. [''cF''])" unfolding rng_ok_def dom_groupChains [OF ok] using rec by auto
  have f: "rec \<in> full_records [rec]" using rec by (simp add: full_records_def)
  have "{g \<in> full_records [rec]. newer_full g rec} = {}" by (auto simp: full_records_def newer_full_def)
  from arg_cong [OF this, of card] have c: "card {g \<in> full_records [rec]. newer_full g rec} < nat (pol_KeepFulls example_policy)"
    by (simp only: card.empty) (simp add: example_policy_def)
  have "0 < pol_KeepFulls example_policy" by (simp add: example_policy_def)
  from keep_set_fulls [OF keep_fulls_rank [OF ok rng f this, THEN iffD2, OF c]]
  have "''cF'' \<in> set (pl_KeptBackupIDs plan)"
    using Evaluate_record(1) [OF ok rng e full_in_chain [OF f]] rec by simp
  moreover have "posix_key ''cF''" by code_simp
  then have "\<forall>d \<in> set (pl_KeptBackupIDs plan). \<forall>k. listed d k \<longrightarrow> posix_view example_root s2 k = posix_view example_root example_backup_store k"
    by (intro Prune_keeps_kept_backups [OF example_backup_ok(1) l _ rng e p]) (simp add: rec)
  moreover have "listed ''cF'' ''cF/Storage-Metadata.json''" by (simp add: listed_def)
  ultimately show ?thesis using l e p by blast
qed

end
