(* ===== verification/Filter_Chain.thy ===== *)
theory Filter_Chain
  imports Store_Example Sha256 Manifest
begin

text \<open>
  \<open>internal/filter\<close>: the pipeline hash, compress, encrypt that every backup file goes through, and its
  inverse. Compression and encryption are third-party stream transformers. A \<open>stage\<close> is what such a
  writer does: the bytes it hands to the writer below when it is made, for each \<open>Write\<close> and on \<open>Close\<close>,
  and the count its \<open>Write\<close> reports when the writer below fails. A \<open>hash.Hash\<close> is the bytes written to
  it. An \<open>io.Writer\<close> returns a count and an error.
\<close>

type_synonym 's wr = "bytes \<Rightarrow> 's \<Rightarrow> (nat \<times> goerr option) \<times> 's"

record 'c stage =
  st_new :: "('c \<times> bytes list) res"
  st_write :: "bytes \<Rightarrow> 'c \<Rightarrow> bytes list \<times> 'c"
  st_close :: "'c \<Rightarrow> bytes list"
  st_short :: "bytes \<Rightarrow> nat"

text \<open>Age and the four codecs, for recipients \<open>'r\<close> and identities \<open>'i\<close>.\<close>

record ('c, 'r, 'i) filters =
  fx_Encrypt :: "'r list \<Rightarrow> 'c stage"
  fx_Decrypt :: "'i list \<Rightarrow> reader \<Rightarrow> reader res"
  fx_NewWriter :: "string \<Rightarrow> int \<Rightarrow> 'c stage"
  fx_NewReader :: "string \<Rightarrow> reader \<Rightarrow> reader res"

section \<open>Codecs and encryption\<close>

definition compression_Get :: "string \<Rightarrow> string res" where
  "compression_Get name =
     (if name = ''gzip'' then Inr ''gzip'' else if name = ''lz4'' then Inr ''lz4''
      else if name = ''zstd'' then Inr ''zstd'' else if name = ''bzip2'' then Inr ''bzip2''
      else Inl (errors_New (''compression: unknown codec '' @ name)))"

definition encryption_NewWriter :: "('c, 'r, 'i) filters \<Rightarrow> 'r list \<Rightarrow> 'c stage res" where
  "encryption_NewWriter fx recipients =
     (if recipients = [] then Inl (errors_New ''encryption: at least one recipient required'')
      else case st_new (fx_Encrypt fx recipients) of
             Inl e \<Rightarrow> Inl (wrapErr ''encryption: age.Encrypt'' e)
           | Inr _ \<Rightarrow> Inr (fx_Encrypt fx recipients))"

definition encryption_NewReader :: "('c, 'r, 'i) filters \<Rightarrow> reader \<Rightarrow> 'i list \<Rightarrow> reader res" where
  "encryption_NewReader fx src identities =
     (if identities = [] then Inl (errors_New ''encryption: at least one identity required'')
      else case fx_Decrypt fx identities src of
             Inl e \<Rightarrow> Inl (wrapErr ''encryption: age.Decrypt'' e)
           | Inr r \<Rightarrow> Inr r)"


section \<open>The forward chain\<close>

record Filter_Result =
  fr_Bytes :: nat
  fr_SHA256 :: bytes
  fr_RepoBytes :: nat
  fr_RepoSHA256 :: bytes

record 'r Filter_Options =
  fo_Codec :: string
  fo_Level :: int
  fo_Recipients :: "'r list"

record 'r Chain =
  ch_codec :: string
  ch_level :: int
  ch_recipients :: "'r list"

definition NewChain :: "'r Filter_Options \<Rightarrow> 'r Chain res" where
  "NewChain opts =
     (if fo_Recipients opts = [] then Inl (errors_New ''filter: at least one recipient required'')
      else case compression_Get (fo_Codec opts) of
             Inl e \<Rightarrow> Inl (wrapErr ''filter'' e)
           | Inr codec \<Rightarrow> Inr \<lparr>ch_codec = codec, ch_level = fo_Level opts, ch_recipients = fo_Recipients opts\<rparr>)"

text \<open>The writer with everything below it: the sink's state, the hash and count on the storage side, the
  states of the two stages, the hash and count on the plaintext side.\<close>

record ('s, 'c) chainWriter =
  cw_sink :: 's
  cw_repo_h :: bytes
  cw_repo_bytes :: nat
  cw_enc :: 'c
  cw_comp :: 'c
  cw_hashed_h :: bytes
  cw_hashed_bytes :: nat
  cw_closed :: bool
  cw_res :: Filter_Result

definition repoSink_Write :: "'s wr \<Rightarrow> ('s, 'c) chainWriter wr" where
  "repoSink_Write wr p w =
     (case wr p (cw_sink w) of
        ((n, err), s) \<Rightarrow>
          ((n, err), w\<lparr>cw_sink := s, cw_repo_h := cw_repo_h w @ take n p, cw_repo_bytes := cw_repo_bytes w + n\<rparr>))"

fun write_all :: "'w wr \<Rightarrow> bytes list \<Rightarrow> 'w \<Rightarrow> goerr option \<times> 'w" where
  "write_all wr [] w = (None, w)"
| "write_all wr (c # cs) w =
     (case wr c w of
        ((_, Some e), w1) \<Rightarrow> (Some e, w1)
      | ((_, None), w1) \<Rightarrow> write_all wr cs w1)"

definition stage_Write :: "'c stage \<Rightarrow> bytes \<Rightarrow> goerr option \<Rightarrow> nat \<times> goerr option" where
  "stage_Write st p err = (case err of None \<Rightarrow> (length p, None) | Some e \<Rightarrow> (st_short st p, Some e))"

definition enc_Write :: "'s wr \<Rightarrow> 'c stage \<Rightarrow> ('s, 'c) chainWriter wr" where
  "enc_Write wr enc p w =
     (case st_write enc p (cw_enc w) of
        (cs, c) \<Rightarrow> (case write_all (repoSink_Write wr) cs (w\<lparr>cw_enc := c\<rparr>) of (err, w1) \<Rightarrow> (stage_Write enc p err, w1)))"

definition comp_Write :: "'s wr \<Rightarrow> 'c stage \<Rightarrow> 'c stage \<Rightarrow> ('s, 'c) chainWriter wr" where
  "comp_Write wr enc cmp p w =
     (case st_write cmp p (cw_comp w) of
        (cs, c) \<Rightarrow> (case write_all (enc_Write wr enc) cs (w\<lparr>cw_comp := c\<rparr>) of (err, w1) \<Rightarrow> (stage_Write cmp p err, w1)))"

definition hashed_Write :: "'s wr \<Rightarrow> 'c stage \<Rightarrow> 'c stage \<Rightarrow> ('s, 'c) chainWriter wr" where
  "hashed_Write wr enc cmp p w =
     (case comp_Write wr enc cmp p w of
        ((n, err), w1) \<Rightarrow>
          ((n, err), w1\<lparr>cw_hashed_h := cw_hashed_h w1 @ take n p, cw_hashed_bytes := cw_hashed_bytes w1 + n\<rparr>))"

definition chainWriter_Write :: "'s wr \<Rightarrow> 'c stage \<Rightarrow> 'c stage \<Rightarrow> ('s, 'c) chainWriter wr" where
  "chainWriter_Write wr enc cmp p w =
     (if cw_closed w then ((0, Some (errors_New ''filter: write after close'')), w)
      else hashed_Write wr enc cmp p w)"

definition enc_Close :: "'s wr \<Rightarrow> 'c stage \<Rightarrow> ('s, 'c) chainWriter \<Rightarrow> goerr option \<times> ('s, 'c) chainWriter" where
  "enc_Close wr enc w = write_all (repoSink_Write wr) (st_close enc (cw_enc w)) w"

definition comp_Close :: "'s wr \<Rightarrow> 'c stage \<Rightarrow> 'c stage \<Rightarrow> ('s, 'c) chainWriter \<Rightarrow> goerr option \<times> ('s, 'c) chainWriter" where
  "comp_Close wr enc cmp w = write_all (enc_Write wr enc) (st_close cmp (cw_comp w)) w"

definition sink_Close :: "('s \<Rightarrow> goerr option \<times> 's) \<Rightarrow> ('s, 'c) chainWriter \<Rightarrow> goerr option \<times> ('s, 'c) chainWriter" where
  "sink_Close cl w = (case cl (cw_sink w) of (err, s) \<Rightarrow> (err, w\<lparr>cw_sink := s\<rparr>))"

definition chainWriter_Close ::
    "'s wr \<Rightarrow> ('s \<Rightarrow> goerr option \<times> 's) \<Rightarrow> 'c stage \<Rightarrow> 'c stage \<Rightarrow> ('s, 'c) chainWriter \<Rightarrow> goerr option \<times> ('s, 'c) chainWriter" where
  "chainWriter_Close wr cl enc cmp w0 =
     (if cw_closed w0 then (None, w0)
      else
        let w = w0\<lparr>cw_closed := True,
                   cw_res := (cw_res w0)\<lparr>fr_SHA256 := sha256 (cw_hashed_h w0), fr_Bytes := cw_hashed_bytes w0\<rparr>\<rparr>
        in case comp_Close wr enc cmp w of
             (Some e, w1) \<Rightarrow> (Some (wrapErr ''filter: compression close'' e), snd (sink_Close cl (snd (enc_Close wr enc w1))))
           | (None, w1) \<Rightarrow>
               (case enc_Close wr enc w1 of
                  (Some e, w2) \<Rightarrow> (Some (wrapErr ''filter: encryption close'' e), snd (sink_Close cl w2))
                | (None, w2) \<Rightarrow>
                    (let w3 = w2\<lparr>cw_res := (cw_res w2)\<lparr>fr_RepoSHA256 := sha256 (cw_repo_h w2), fr_RepoBytes := cw_repo_bytes w2\<rparr>\<rparr>
                     in case sink_Close cl w3 of
                          (Some e, w4) \<Rightarrow> (Some (wrapErr ''filter: sink close'' e), w4)
                        | (None, w4) \<Rightarrow> (None, w4))))"

definition zero_Result :: Filter_Result where
  "zero_Result = \<lparr>fr_Bytes = 0, fr_SHA256 = zero32, fr_RepoBytes = 0, fr_RepoSHA256 = zero32\<rparr>"

text \<open>A stage writes what it emits when it is made to the writer below; a failing write fails the
  construction. Of the encryption only the error of a failing \<open>codec.NewWriter\<close> is returned.\<close>

definition Wrap :: "('c, 'r, 'i) filters \<Rightarrow> 's wr \<Rightarrow> 'r Chain \<Rightarrow> 's \<Rightarrow> ('s, 'c) chainWriter res \<times> 's" where
  "Wrap fx wr c s =
     (case encryption_NewWriter fx (ch_recipients c) of
        Inl e \<Rightarrow> (Inl e, s)
      | Inr enc \<Rightarrow>
          (case st_new enc of
             Inl e \<Rightarrow> (Inl e, s)
           | Inr (ce, hdr) \<Rightarrow>
               (let cmp = fx_NewWriter fx (ch_codec c) (ch_level c);
                    w0 = \<lparr>cw_sink = s, cw_repo_h = [], cw_repo_bytes = 0, cw_enc = ce, cw_comp = ce, cw_hashed_h = [],
                          cw_hashed_bytes = 0, cw_closed = False, cw_res = zero_Result\<rparr>
                in case write_all (repoSink_Write wr) hdr w0 of
                     (Some e, w1) \<Rightarrow> (Inl (wrapErr ''encryption: age.Encrypt'' e), cw_sink w1)
                   | (None, w1) \<Rightarrow>
                       (case st_new cmp of
                          Inl e \<Rightarrow> (Inl e, cw_sink (snd (enc_Close wr enc w1)))
                        | Inr (cc, chdr) \<Rightarrow>
                            (case write_all (enc_Write wr enc) chdr (w1\<lparr>cw_comp := cc\<rparr>) of
                               (Some e, w2) \<Rightarrow> (Inl e, cw_sink (snd (enc_Close wr enc w2)))
                             | (None, w2) \<Rightarrow> (Inr w2, cw_sink w2))))))"


section \<open>The inverse chain\<close>

text \<open>The reader \<open>Unwrap\<close> makes: the decompressed stream; its \<open>Result\<close> fills as it is read and is final at the end.\<close>

definition Unwrap :: "('c, 'r, 'i) filters \<Rightarrow> string \<Rightarrow> reader \<Rightarrow> 'i list \<Rightarrow> reader res" where
  "Unwrap fx codecName src identities =
     (if identities = [] then Inl (errors_New ''filter: at least one identity required'')
      else case compression_Get codecName of
             Inl e \<Rightarrow> Inl (wrapErr ''filter'' e)
           | Inr codec \<Rightarrow>
               (case encryption_NewReader fx src identities of
                  Inl e \<Rightarrow> Inl (wrapErr ''filter: decrypt'' e)
                | Inr dec \<Rightarrow>
                    (case fx_NewReader fx codec dec of
                       Inl e \<Rightarrow> Inl (wrapErr ''filter: decompress'' e)
                     | Inr zr \<Rightarrow> Inr zr)))"

definition chainReader_Result :: "reader \<Rightarrow> Filter_Result" where
  "chainReader_Result zr =
     (case zr of
        (d, None) \<Rightarrow> zero_Result\<lparr>fr_Bytes := length d, fr_SHA256 := sha256 d\<rparr>
      | (d, Some _) \<Rightarrow> zero_Result\<lparr>fr_Bytes := length d\<rparr>)"


section \<open>What a stage emits\<close>

fun stage_steps :: "'c stage \<Rightarrow> bytes list \<Rightarrow> 'c \<Rightarrow> bytes list \<times> 'c" where
  "stage_steps st [] c = ([], c)"
| "stage_steps st (p # ps) c =
     (case st_write st p c of (cs, c1) \<Rightarrow> (case stage_steps st ps c1 of (cs', c2) \<Rightarrow> (cs @ cs', c2)))"

definition stage_run :: "'c stage \<Rightarrow> bytes list \<Rightarrow> bytes list option" where
  "stage_run st ps =
     (case st_new st of
        Inl _ \<Rightarrow> None
      | Inr (c, hdr) \<Rightarrow> (case stage_steps st ps c of (cs, c') \<Rightarrow> Some (hdr @ cs @ st_close st c')))"

text \<open>A reader undoes a stage: it gives back the bytes that were written, however they were cut.\<close>

definition undoes :: "(reader \<Rightarrow> reader res) \<Rightarrow> 'c stage \<Rightarrow> bool" where
  "undoes rd st \<longleftrightarrow> (\<forall>ps cs. stage_run st ps = Some cs \<longrightarrow> rd (concat cs, None) = Inr (concat ps, None))"

lemma stage_steps_append:
  "stage_steps st (ps @ qs) c =
     (case stage_steps st ps c of (cs, c1) \<Rightarrow> (case stage_steps st qs c1 of (cs', c2) \<Rightarrow> (cs @ cs', c2)))"
  by (induction ps arbitrary: c) (auto split: prod.splits)

lemma write_all_append:
  "write_all wr (xs @ ys) w = (case write_all wr xs w of (None, w1) \<Rightarrow> write_all wr ys w1 | (Some e, w1) \<Rightarrow> (Some e, w1))"
  by (induction xs arbitrary: w) (auto split: prod.splits option.splits)


section \<open>The chain over a sink\<close>

text \<open>What the chain relies on: a write that succeeds has taken all its bytes, and a successful close publishes them.\<close>

locale counted_sink =
  fixes wr :: "'s wr" and cl :: "'s \<Rightarrow> goerr option \<times> 's"
    and holds :: "'s \<Rightarrow> bytes \<Rightarrow> bool" and published :: "'s \<Rightarrow> bytes \<Rightarrow> bool"
  assumes wr_ok: "holds s d \<Longrightarrow> wr p s = ((n, None), s') \<Longrightarrow> n = length p \<and> holds s' (d @ p)"
    and cl_ok: "holds s d \<Longrightarrow> cl s = (None, s') \<Longrightarrow> published s' d"
begin

definition repo_at :: "('s, 'c) chainWriter \<Rightarrow> bytes \<Rightarrow> bool" where
  "repo_at w d \<longleftrightarrow> holds (cw_sink w) d \<and> cw_repo_h w = d \<and> cw_repo_bytes w = length d"

definition plain :: "('s, 'c) chainWriter \<Rightarrow> bytes \<times> nat \<times> bool \<times> Filter_Result" where
  "plain w = (cw_hashed_h w, cw_hashed_bytes w, cw_closed w, cw_res w)"

lemma write_all_Cons:
  assumes "write_all f (c # cs) w = (None, w')"
  obtains n w1 where "f c w = ((n, None), w1)" "write_all f cs w1 = (None, w')"
  using assms by (auto split: prod.splits option.splits)

lemma repo_step:
  assumes "repo_at w d" "repoSink_Write wr c w = ((n, None), w')"
  shows "n = length c \<and> repo_at w' (d @ c) \<and> cw_enc w' = cw_enc w \<and> cw_comp w' = cw_comp w \<and> plain w' = plain w"
proof -
  obtain s1 where s1: "wr c (cw_sink w) = ((n, None), s1)"
    "w' = w\<lparr>cw_sink := s1, cw_repo_h := cw_repo_h w @ take n c, cw_repo_bytes := cw_repo_bytes w + n\<rparr>"
    using assms(2) by (auto simp: repoSink_Write_def split: prod.splits)
  have "holds (cw_sink w) d" using assms(1) by (simp add: repo_at_def)
  from wr_ok [OF this s1(1)] have "n = length c \<and> holds s1 (d @ c)" .
  then show ?thesis using s1(2) assms(1) by (simp add: repo_at_def plain_def)
qed

lemma repo_writes:
  "repo_at w d \<Longrightarrow> write_all (repoSink_Write wr) cs w = (None, w') \<Longrightarrow>
     repo_at w' (d @ concat cs) \<and> cw_enc w' = cw_enc w \<and> cw_comp w' = cw_comp w \<and> plain w' = plain w"
proof (induction cs arbitrary: w d)
  case (Cons c cs)
  obtain n w1 where "repoSink_Write wr c w = ((n, None), w1)" "write_all (repoSink_Write wr) cs w1 = (None, w')"
    using Cons.prems(2) by (rule write_all_Cons)
  then show ?case using repo_step [OF Cons.prems(1)] Cons.IH [of w1 "d @ c"] by simp
qed simp

lemma enc_step:
  assumes "repo_at w d" "enc_Write wr enc c w = ((n, None), w')" "st_write enc c (cw_enc w) = (es, ce)"
  shows "n = length c \<and> repo_at w' (d @ concat es) \<and> cw_enc w' = ce \<and> cw_comp w' = cw_comp w \<and> plain w' = plain w"
proof -
  obtain err where w: "write_all (repoSink_Write wr) es (w\<lparr>cw_enc := ce\<rparr>) = (err, w')" "stage_Write enc c err = (n, None)"
    using assms(2,3) by (auto simp: enc_Write_def split: prod.splits)
  then have "err = None" "n = length c" by (auto simp: stage_Write_def split: option.splits)
  moreover have "repo_at (w\<lparr>cw_enc := ce\<rparr>) d" using assms(1) by (simp add: repo_at_def)
  ultimately show ?thesis using repo_writes [of "w\<lparr>cw_enc := ce\<rparr>" d es w'] w by (simp add: plain_def)
qed

lemma enc_writes:
  "repo_at w d \<Longrightarrow> write_all (enc_Write wr enc) cs w = (None, w') \<Longrightarrow> stage_steps enc cs (cw_enc w) = (es, ce) \<Longrightarrow>
     repo_at w' (d @ concat es) \<and> cw_enc w' = ce \<and> cw_comp w' = cw_comp w \<and> plain w' = plain w"
proof (induction cs arbitrary: w d es)
  case (Cons c cs)
  obtain n w1 where 1: "enc_Write wr enc c w = ((n, None), w1)" "write_all (enc_Write wr enc) cs w1 = (None, w')"
    using Cons.prems(2) by (rule write_all_Cons)
  obtain e1 c1 where e1: "st_write enc c (cw_enc w) = (e1, c1)" by fastforce
  obtain e2 where e2: "stage_steps enc cs c1 = (e2, ce)" "es = e1 @ e2" using Cons.prems(3) e1 by (auto split: prod.splits)
  note w1 = enc_step [OF Cons.prems(1) 1(1) e1]
  then show ?case using Cons.IH [of w1 "d @ concat e1" e2] 1(2) e2 by simp
qed simp

lemma chain_step:
  assumes "repo_at w d" "\<not> cw_closed w" "chainWriter_Write wr enc cmp p w = ((n, None), w')" "st_write cmp p (cw_comp w) = (cs, cc)"
    "stage_steps enc cs (cw_enc w) = (es, ce)"
  shows "repo_at w' (d @ concat es) \<and> cw_enc w' = ce \<and> cw_comp w' = cc \<and> n = length p \<and>
    plain w' = (cw_hashed_h w @ p, cw_hashed_bytes w + length p, False, cw_res w)"
proof -
  obtain w1 where 1: "comp_Write wr enc cmp p w = ((n, None), w1)"
    "w' = w1\<lparr>cw_hashed_h := cw_hashed_h w1 @ take n p, cw_hashed_bytes := cw_hashed_bytes w1 + n\<rparr>"
    using assms(2,3) by (auto simp: chainWriter_Write_def hashed_Write_def split: prod.splits)
  obtain err where 2: "write_all (enc_Write wr enc) cs (w\<lparr>cw_comp := cc\<rparr>) = (err, w1)" "stage_Write cmp p err = (n, None)"
    using 1(1) assms(4) by (auto simp: comp_Write_def split: prod.splits)
  then have n: "err = None" "n = length p" by (auto simp: stage_Write_def split: option.splits)
  have "repo_at (w\<lparr>cw_comp := cc\<rparr>) d" using assms(1) by (simp add: repo_at_def)
  from enc_writes [OF this, of enc cs w1 es ce] 2 n assms(5)
  have "repo_at w1 (d @ concat es) \<and> cw_enc w1 = ce \<and> cw_comp w1 = cc \<and> plain w1 = plain w" by (simp add: plain_def)
  then show ?thesis using 1(2) n assms(2) by (simp add: repo_at_def plain_def)
qed

lemma chain_writes:
  "repo_at w d \<Longrightarrow> \<not> cw_closed w \<Longrightarrow> write_all (chainWriter_Write wr enc cmp) ps w = (None, w') \<Longrightarrow>
     stage_steps cmp ps (cw_comp w) = (cs, cc) \<Longrightarrow> stage_steps enc cs (cw_enc w) = (es, ce) \<Longrightarrow>
     repo_at w' (d @ concat es) \<and> cw_enc w' = ce \<and> cw_comp w' = cc \<and>
     plain w' = (cw_hashed_h w @ concat ps, cw_hashed_bytes w + length (concat ps), False, cw_res w)"
proof (induction ps arbitrary: w d cs es)
  case (Cons p ps)
  obtain n w1 where 1: "chainWriter_Write wr enc cmp p w = ((n, None), w1)" "write_all (chainWriter_Write wr enc cmp) ps w1 = (None, w')"
    using Cons.prems(3) by (rule write_all_Cons)
  obtain cs1 c1 where c1: "st_write cmp p (cw_comp w) = (cs1, c1)" by fastforce
  obtain cs2 where c2: "stage_steps cmp ps c1 = (cs2, cc)" "cs = cs1 @ cs2" using Cons.prems(4) c1 by (auto split: prod.splits)
  obtain es1 e1 where e1: "stage_steps enc cs1 (cw_enc w) = (es1, e1)" by fastforce
  obtain es2 where e2: "stage_steps enc cs2 e1 = (es2, ce)" "es = es1 @ es2"
    using Cons.prems(5) c2(2) e1 by (auto simp: stage_steps_append split: prod.splits)
  note w1 = chain_step [OF Cons.prems(1,2) 1(1) c1 e1]
  then show ?case using Cons.IH [of w1 "d @ concat es1" cs2 es2] 1(2) c2 e2 by (simp add: plain_def)
qed (simp add: plain_def)

lemma chain_close:
  assumes "repo_at w d" "\<not> cw_closed w" "chainWriter_Close wr cl enc cmp w = (None, w')"
    "stage_steps enc (st_close cmp (cw_comp w)) (cw_enc w) = (es, ce)"
  shows "let ct = d @ concat es @ concat (st_close enc ce) in
    published (cw_sink w') ct \<and>
    cw_res w' = (cw_res w)\<lparr>fr_Bytes := cw_hashed_bytes w, fr_SHA256 := sha256 (cw_hashed_h w), fr_RepoBytes := length ct, fr_RepoSHA256 := sha256 ct\<rparr>"
proof -
  define w0 where "w0 = w\<lparr>cw_closed := True, cw_res := (cw_res w)\<lparr>fr_SHA256 := sha256 (cw_hashed_h w), fr_Bytes := cw_hashed_bytes w\<rparr>\<rparr>"
  have r0: "repo_at w0 d" using assms(1) by (simp add: repo_at_def w0_def)
  from assms(2,3) obtain w1 where 1: "comp_Close wr enc cmp w0 = (None, w1)"
    by (auto simp: chainWriter_Close_def Let_def w0_def split: prod.splits option.splits)
  with assms(2,3) obtain w2 where 2: "enc_Close wr enc w1 = (None, w2)"
    by (auto simp: chainWriter_Close_def Let_def w0_def split: prod.splits option.splits)
  define w3 where "w3 = w2\<lparr>cw_res := (cw_res w2)\<lparr>fr_RepoSHA256 := sha256 (cw_repo_h w2), fr_RepoBytes := cw_repo_bytes w2\<rparr>\<rparr>"
  have 3: "sink_Close cl w3 = (None, w')"
    using assms(2,3) 1 2 by (auto simp: chainWriter_Close_def Let_def w0_def w3_def split: prod.splits option.splits)
  have e: "stage_steps enc (st_close cmp (cw_comp w0)) (cw_enc w0) = (es, ce)" using assms(4) by (simp add: w0_def)
  have w1: "repo_at w1 (d @ concat es)" "cw_enc w1 = ce" "plain w1 = plain w0"
    using enc_writes [OF r0 1 [unfolded comp_Close_def] e] by auto
  have w2: "repo_at w2 (d @ concat es @ concat (st_close enc ce))" "plain w2 = plain w0"
    using repo_writes [OF w1(1) 2 [unfolded enc_Close_def]] w1(2,3) by auto
  have "cl (cw_sink w2) = (None, cw_sink w')" "w' = w3\<lparr>cw_sink := cw_sink w'\<rparr>"
    using 3 by (auto simp: sink_Close_def w3_def split: prod.splits)
  moreover have "holds (cw_sink w2) (d @ concat es @ concat (st_close enc ce))" using w2(1) by (simp add: repo_at_def)
  ultimately have "published (cw_sink w') (d @ concat es @ concat (st_close enc ce))" "cw_res w' = cw_res w3"
    using cl_ok by (blast, metis chainWriter.select_convs(9) chainWriter.surjective chainWriter.update_convs(1))
  then show ?thesis using w2 by (simp add: Let_def w3_def plain_def w0_def repo_at_def)
qed

lemma Wrap_writer:
  assumes "holds s []" "Wrap fx wr c s = (Inr w, s1)"
  defines "enc \<equiv> fx_Encrypt fx (ch_recipients c)" and "cmp \<equiv> fx_NewWriter fx (ch_codec c) (ch_level c)"
  obtains ce hdr cc chdr es ce' where "st_new enc = Inr (ce, hdr)" "st_new cmp = Inr (cc, chdr)" "stage_steps enc chdr ce = (es, ce')"
    "repo_at w (concat hdr @ concat es)" "cw_enc w = ce'" "cw_comp w = cc" "plain w = ([], 0, False, zero_Result)"
proof -
  obtain ce hdr where n1: "encryption_NewWriter fx (ch_recipients c) = Inr enc" "st_new enc = Inr (ce, hdr)"
    using assms(2) by (auto simp: Wrap_def encryption_NewWriter_def enc_def split: sum.splits if_splits prod.splits)
  define w0 where "w0 = \<lparr>cw_sink = s, cw_repo_h = [], cw_repo_bytes = 0, cw_enc = ce, cw_comp = ce, cw_hashed_h = [],
      cw_hashed_bytes = 0, cw_closed = False, cw_res = zero_Result\<rparr>"
  obtain err1 w1 where h: "write_all (repoSink_Write wr) hdr w0 = (err1, w1)" by fastforce
  have e1: "err1 = None" using assms(2) n1 h by (cases err1) (auto simp: Wrap_def Let_def w0_def)
  obtain cc chdr where n2: "st_new cmp = Inr (cc, chdr)"
    using assms(2) n1 h e1 by (cases "st_new cmp") (auto simp: Wrap_def Let_def w0_def cmp_def)
  obtain err2 w2 where h2: "write_all (enc_Write wr enc) chdr (w1\<lparr>cw_comp := cc\<rparr>) = (err2, w2)" by fastforce
  have e2: "err2 = None" "w = w2"
    using assms(2) n1 h e1 n2 h2 by (cases err2; auto simp: Wrap_def Let_def w0_def cmp_def)+
  have "repo_at w0 []" using assms(1) by (simp add: repo_at_def w0_def)
  from repo_writes [OF this h [unfolded e1]] have r1: "repo_at w1 (concat hdr)" "cw_enc w1 = ce" "plain w1 = plain w0"
    by (simp_all add: w0_def)
  obtain es ce' where es: "stage_steps enc chdr ce = (es, ce')" by fastforce
  have "repo_at (w1\<lparr>cw_comp := cc\<rparr>) (concat hdr)" using r1(1) by (simp add: repo_at_def)
  from enc_writes [OF this h2 [unfolded e2(1)], of es ce'] es r1(2,3) e2(2)
  have "repo_at w (concat hdr @ concat es)" "cw_enc w = ce'" "cw_comp w = cc" "plain w = plain w0" by (simp_all add: plain_def)
  then show ?thesis using that n1(2) n2 es by (simp add: plain_def w0_def)
qed

text \<open>A file that went through the chain without an error: what was published, and the digests.\<close>

lemma Wrap_stored:
  assumes "holds s []" "Wrap fx wr c s = (Inr w, s1)"
  defines "enc \<equiv> fx_Encrypt fx (ch_recipients c)" and "cmp \<equiv> fx_NewWriter fx (ch_codec c) (ch_level c)"
  assumes "write_all (chainWriter_Write wr enc cmp) ps w = (None, w1)" "chainWriter_Close wr cl enc cmp w1 = (None, w2)"
  shows "\<exists>cs es. stage_run cmp ps = Some cs \<and> stage_run enc cs = Some es \<and> published (cw_sink w2) (concat es) \<and>
    cw_res w2 = \<lparr>fr_Bytes = length (concat ps), fr_SHA256 = sha256 (concat ps), fr_RepoBytes = length (concat es),
      fr_RepoSHA256 = sha256 (concat es)\<rparr>"
proof -
  from assms(1,2) obtain ce hdr cc chdr es ce' where n: "st_new enc = Inr (ce, hdr)" "st_new cmp = Inr (cc, chdr)"
    "stage_steps enc chdr ce = (es, ce')" and w: "repo_at w (concat hdr @ concat es)" "cw_enc w = ce'" "cw_comp w = cc"
    "plain w = ([], 0, False, zero_Result)"
    unfolding enc_def cmp_def by (rule Wrap_writer)
  obtain cs1 c1 where cs1: "stage_steps cmp ps cc = (cs1, c1)" by fastforce
  obtain es1 e1 where es1: "stage_steps enc cs1 ce' = (es1, e1)" by fastforce
  obtain es2 e2 where es2: "stage_steps enc (st_close cmp c1) e1 = (es2, e2)" by fastforce
  have nc: "\<not> cw_closed w" "cw_hashed_h w = []" "cw_hashed_bytes w = 0" "cw_res w = zero_Result" using w(4) by (simp_all add: plain_def)
  have w1: "repo_at w1 ((concat hdr @ concat es) @ concat es1)" "cw_enc w1 = e1" "cw_comp w1 = c1"
    "cw_hashed_h w1 = concat ps" "cw_hashed_bytes w1 = length (concat ps)" "\<not> cw_closed w1" "cw_res w1 = zero_Result"
    using chain_writes [OF w(1) nc(1) assms(5), of cs1 c1 es1 e1] cs1 es1 w(2,3) nc by (simp_all add: plain_def)
  have run: "stage_run cmp ps = Some (chdr @ cs1 @ st_close cmp c1)" using n(2) cs1 by (simp add: stage_run_def)
  have "stage_steps enc (chdr @ cs1 @ st_close cmp c1) ce = (es @ es1 @ es2, e2)"
    using n(3) es1 es2 by (simp add: stage_steps_append)
  then have run2: "stage_run enc (chdr @ cs1 @ st_close cmp c1) = Some (hdr @ (es @ es1 @ es2) @ st_close enc e2)"
    using n(1) by (simp add: stage_run_def)
  have fin: "stage_steps enc (st_close cmp (cw_comp w1)) (cw_enc w1) = (es2, e2)" using es2 w1(2,3) by simp
  from chain_close [OF w1(1,6) assms(6) fin] run run2 show ?thesis
    unfolding w1(4,5,7) by (auto simp: Let_def zero_Result_def)
qed

end


section \<open>Into a storage\<close>

text \<open>A backend's writer as an \<open>io.WriteCloser\<close>; \<open>short\<close> is the count a failing write reports.\<close>

definition backend_wr :: "('s, 'w) Backend \<Rightarrow> 'w \<Rightarrow> (bytes \<Rightarrow> nat) \<Rightarrow> 's wr" where
  "backend_wr b h short p s =
     (case b_Write b h p s of
        (Inr _, s') \<Rightarrow> ((length p, None), s')
      | (Inl e, s') \<Rightarrow> ((short p, Some e), s'))"

definition backend_cl :: "('s, 'w) Backend \<Rightarrow> 'w \<Rightarrow> 's \<Rightarrow> goerr option \<times> 's" where
  "backend_cl b h s = (case b_Close b h s of (Inr _, s') \<Rightarrow> (None, s') | (Inl e, s') \<Rightarrow> (Some e, s'))"

interpretation pchain: counted_sink "backend_wr (posix_backend r) h short" "backend_cl (posix_backend r) h"
  "\<lambda>s d. posix_inv r s \<and> posix_view r s = v \<and> posix_writing r s h p d"
  "\<lambda>s d. posix_inv r s \<and> posix_view r s = v(p \<mapsto> d)"
proof (unfold_locales, goal_cases)
  case (1 s d x n s')
  then show ?case using pstore.write_ok [of r s h p d x] by (auto simp: backend_wr_def split: prod.splits sum.splits)
next
  case (2 s d s')
  then show ?case using pstore.close_ok [of r s h p d] by (auto simp: backend_cl_def split: prod.splits sum.splits)
qed

text \<open>C12: a file that goes through the filter chain into a storage can be read back. If making the chain,
  every write and the close succeed, the storage holds under the key one ciphertext, the result has
  the length and SHA-256 of the plaintext and of that ciphertext, and \<open>Unwrap\<close> with an identity turns the
  ciphertext back into the plaintext, provided age and the codec undo themselves.\<close>

theorem Wrap_Unwrap:
  assumes "posix_inv r s" "posix_writing r s h p []" "Wrap fx (backend_wr (posix_backend r) h short) c s = (Inr w, s1)"
    "write_all (chainWriter_Write (backend_wr (posix_backend r) h short) (fx_Encrypt fx (ch_recipients c))
       (fx_NewWriter fx (ch_codec c) (ch_level c))) ps w = (None, w1)"
    "chainWriter_Close (backend_wr (posix_backend r) h short) (backend_cl (posix_backend r) h) (fx_Encrypt fx (ch_recipients c))
       (fx_NewWriter fx (ch_codec c) (ch_level c)) w1 = (None, w2)"
    "compression_Get (ch_codec c) = Inr (ch_codec c)" "ids \<noteq> []"
    "undoes (fx_Decrypt fx ids) (fx_Encrypt fx (ch_recipients c))"
    "undoes (fx_NewReader fx (ch_codec c)) (fx_NewWriter fx (ch_codec c) (ch_level c))"
  shows "\<exists>ct. posix_view r (cw_sink w2) = (posix_view r s)(p \<mapsto> ct) \<and>
    cw_res w2 = \<lparr>fr_Bytes = length (concat ps), fr_SHA256 = sha256 (concat ps), fr_RepoBytes = length ct, fr_RepoSHA256 = sha256 ct\<rparr> \<and>
    Unwrap fx (ch_codec c) (ct, None) ids = Inr (concat ps, None)"
proof -
  have "posix_inv r s \<and> posix_view r s = posix_view r s \<and> posix_writing r s h p []" using assms(1,2) by simp
  from pchain.Wrap_stored [OF this assms(3-5)] obtain cs es where
    run: "stage_run (fx_NewWriter fx (ch_codec c) (ch_level c)) ps = Some cs" "stage_run (fx_Encrypt fx (ch_recipients c)) cs = Some es"
    and v: "posix_view r (cw_sink w2) = (posix_view r s)(p \<mapsto> concat es)"
    and res: "cw_res w2 = \<lparr>fr_Bytes = length (concat ps), fr_SHA256 = sha256 (concat ps), fr_RepoBytes = length (concat es),
      fr_RepoSHA256 = sha256 (concat es)\<rparr>" by blast
  have "fx_Decrypt fx ids (concat es, None) = Inr (concat cs, None)" "fx_NewReader fx (ch_codec c) (concat cs, None) = Inr (concat ps, None)"
    using assms(8,9) run by (auto simp: undoes_def)
  then have "Unwrap fx (ch_codec c) (concat es, None) ids = Inr (concat ps, None)"
    using assms(6,7) by (simp add: Unwrap_def encryption_NewReader_def)
  with v res show ?thesis by blast
qed

text \<open>An example: stages that put a header in front and pass the rest on.\<close>

definition example_stage :: "bytes \<Rightarrow> nat stage" where
  "example_stage hdr = \<lparr>st_new = Inr (0, [hdr]), st_write = (\<lambda>p c. ([p], c + 1)), st_close = (\<lambda>c. []), st_short = (\<lambda>_. 0)\<rparr>"

definition example_unstage :: "bytes \<Rightarrow> reader \<Rightarrow> reader res" where
  "example_unstage hdr rd = Inr (drop (length hdr) (fst rd), snd rd)"

definition example_filters :: "(nat, string, string) filters" where
  "example_filters = \<lparr>fx_Encrypt = (\<lambda>_. example_stage ''age''), fx_Decrypt = (\<lambda>_. example_unstage ''age''),
     fx_NewWriter = (\<lambda>_ _. example_stage ''z''), fx_NewReader = (\<lambda>_. example_unstage ''z'')\<rparr>"

definition example_staged :: pfs where
  "example_staged = example_fs\<lparr>fs_data := (\<lambda>i. if i = 0 then ''old'' else [])\<rparr>"

definition example_chain :: "string Chain" where
  "example_chain = \<lparr>ch_codec = ''zstd'', ch_level = 0, ch_recipients = [''age1abc'']\<rparr>"

lemma example_undoes: "undoes (example_unstage hdr) (example_stage hdr)"
proof -
  have "stage_steps (example_stage hdr) ps c = (ps, c + length ps)" for ps c
    by (induction ps arbitrary: c) (simp_all add: example_stage_def)
  then have "stage_run (example_stage hdr) ps = Some (hdr # ps)" for ps
    by (simp add: stage_run_def) (simp add: example_stage_def)
  then show ?thesis by (simp add: undoes_def example_unstage_def)
qed

lemma example_staged_ok: "posix_inv example_root example_staged" "posix_writing example_root example_staged example_writer ''a'' []"
proof -
  have "fs_ok example_staged" using example_fs_ok by (simp add: fs_ok_def example_staged_def)
  then show "posix_inv example_root example_staged"
    using example_inv by (simp add: posix_inv_def file_at_def example_staged_def split: option.splits node.splits)
  show "posix_writing example_root example_staged example_writer ''a'' []"
    using example_key by (simp add: example_staged_def posix_writing_def posix_staged_def under_root_def example_defs)
qed

theorem Wrap_Unwrap_witness:
  "\<exists>w s1 w1 w2 ct. Wrap example_filters (backend_wr (posix_backend example_root) example_writer (\<lambda>_. 0)) example_chain example_staged = (Inr w, s1) \<and>
     write_all (chainWriter_Write (backend_wr (posix_backend example_root) example_writer (\<lambda>_. 0)) (example_stage ''age'') (example_stage ''z''))
       [''ab'', ''c''] w = (None, w1) \<and>
     chainWriter_Close (backend_wr (posix_backend example_root) example_writer (\<lambda>_. 0)) (backend_cl (posix_backend example_root) example_writer)
       (example_stage ''age'') (example_stage ''z'') w1 = (None, w2) \<and>
     posix_view example_root (cw_sink w2) ''a'' = Some ct \<and> Unwrap example_filters ''zstd'' (ct, None) [''key''] = Inr (''abc'', None)"
proof -
  let ?wr = "backend_wr (posix_backend example_root) example_writer (\<lambda>_. 0)"
  let ?cl = "backend_cl (posix_backend example_root) example_writer"
  have d: "path_Dir ''/r/a'' = ''/r''" by code_simp
  obtain w s1 w1 w2 where 1: "Wrap example_filters ?wr example_chain example_staged = (Inr w, s1)"
    "write_all (chainWriter_Write ?wr (example_stage ''age'') (example_stage ''z'')) [''ab'', ''c''] w = (None, w1)"
    "chainWriter_Close ?wr ?cl (example_stage ''age'') (example_stage ''z'') w1 = (None, w2)"
    by (simp add: Wrap_def encryption_NewWriter_def example_filters_def example_stage_def example_chain_def Let_def repoSink_Write_def
        backend_wr_def posix_backend_def posix_Write_def fd_Write_def example_staged_def example_defs tick_def enc_Write_def stage_Write_def
        chainWriter_Write_def hashed_Write_def comp_Write_def chainWriter_Close_def comp_Close_def enc_Close_def sink_Close_def backend_cl_def
        posix_Close_def fd_Sync_def fault_now_def hook_def sys_def hook_step_def close_dir_def close_rename_def d os_OpenDir_def lookup_def
        os_Rename_def is_dir_def fd_SyncDir_def fd_Close_def done_op_def)
  have f: "fx_Encrypt example_filters x = example_stage ''age''" "fx_NewWriter example_filters y n = example_stage ''z''"
    "fx_Decrypt example_filters i = example_unstage ''age''" "fx_NewReader example_filters y = example_unstage ''z''" for x y n i
    by (simp_all add: example_filters_def)
  have g: "compression_Get (ch_codec example_chain) = Inr (ch_codec example_chain)" by (simp add: compression_Get_def example_chain_def)
  from Wrap_Unwrap [OF example_staged_ok 1(1), unfolded f, OF 1(2,3) g, of "[''key'']"] obtain ct where
    "posix_view example_root (cw_sink w2) = (posix_view example_root example_staged)(''a'' \<mapsto> ct)"
    "Unwrap example_filters (ch_codec example_chain) (ct, None) [''key''] = Inr (concat [''ab'', ''c''], None)"
    using example_undoes by auto
  then have "posix_view example_root (cw_sink w2) ''a'' = Some ct" "Unwrap example_filters ''zstd'' (ct, None) [''key''] = Inr (''abc'', None)"
    by (simp_all add: example_chain_def)
  with 1 show ?thesis by blast
qed

end
