(* ===== verification/Verify.thy ===== *)
theory Verify
  imports Info Filter_Chain
begin

text \<open>
  \<open>internal/verify/verify.go\<close>: re-hashing a stored backup against its manifest.

  The files of a backup are verified by a group of goroutines; each only reads the storage and adds to
  its backup's result under a mutex, so they are run here one after the other in the order of the
  manifest (the order of the mismatches is not fixed by the code). The context is never cancelled.
  Ranging over the set of backup directories takes its order from \<open>ord\<close>.
\<close>

record Mismatch =
  mm_BackupID :: string
  mm_Path :: string
  mm_Expected :: string
  mm_Actual :: string
  mm_Reason :: string

record Verify_Result =
  vr_BackupID :: string
  vr_FilesOK :: nat
  vr_FilesMismatched :: nat
  vr_Mismatches :: "Mismatch list"
  vr_ManifestChecksumOK :: bool
  vr_ManifestChecksumErr :: string

definition AllOK :: "Verify_Result \<Rightarrow> bool" where
  "AllOK r \<longleftrightarrow> vr_FilesMismatched r = 0 \<and> vr_ManifestChecksumOK r"

record manifestFile =
  mf_Path :: string
  mf_Size :: int
  mf_SHA256 :: string

text \<open>\<open>strings.EqualFold\<close> where one side is hexadecimal: no other rune folds to a hexadecimal digit.\<close>

definition ascii_lower :: "char \<Rightarrow> char" where
  "ascii_lower c = (if 65 \<le> (of_char c :: nat) \<and> (of_char c :: nat) \<le> 90 then char_of ((of_char c :: nat) + 32) else c)"

definition EqualFold_hex :: "string \<Rightarrow> string \<Rightarrow> bool" where
  "EqualFold_hex a b \<longleftrightarrow> map ascii_lower a = map ascii_lower b"

definition checksum_mark :: string where
  "checksum_mark = quoted ''Manifest-Checksum''"

fun index_byte :: "char \<Rightarrow> string \<Rightarrow> nat option" where
  "index_byte c [] = None"
| "index_byte c (x # xs) = (if x = c then Some 0 else map_option Suc (index_byte c xs))"

definition manifestChecksumOK :: "bytes \<Rightarrow> bool" where
  "manifestChecksumOK body =
     (case strings_Index body checksum_mark of
        None \<Rightarrow> False
      | Some idx \<Rightarrow>
          (case strings_Index body (checksum_mark @ '': '' @ [CHR 0x22]) of
             None \<Rightarrow> False
           | Some i \<Rightarrow>
               (let hexStart = i + length (checksum_mark @ '': '' @ [CHR 0x22])
                in case index_byte (CHR 0x22) (drop hexStart body) of
                     None \<Rightarrow> False
                   | Some hexEnd \<Rightarrow>
                       if hexEnd = 0 then False
                       else EqualFold_hex (take hexEnd (drop hexStart body)) (hex_EncodeToString (sha256 (take idx body))))))"

record rawVerifyFile =
  rvf_Path :: string
  rvf_Size :: int
  rvf_Checksum :: string

definition zero_rawVerifyFile :: rawVerifyFile where
  "zero_rawVerifyFile = \<lparr>rvf_Path = [], rvf_Size = 0, rvf_Checksum = []\<rparr>"

definition fields_rawVerifyFile :: "(string \<times> rawVerifyFile dec) list" where
  "fields_rawVerifyFile =
     [(''Path'', dec_field rvf_Path (\<lambda>a. rvf_Path_update (\<lambda>_. a)) dec_string),
      (''Size'', dec_field rvf_Size (\<lambda>a. rvf_Size_update (\<lambda>_. a)) dec_int64),
      (''Checksum'', dec_field rvf_Checksum (\<lambda>a. rvf_Checksum_update (\<lambda>_. a)) dec_string)]"

text \<open>The decoded struct has one field, \<open>Files\<close>.\<close>

definition fields_files :: "(string \<times> rawVerifyFile slice dec) list" where
  "fields_files = [(''Files'', dec_slice (dec_struct_lax fields_rawVerifyFile) zero_rawVerifyFile)]"

definition parseManifestFiles :: "bytes \<Rightarrow> manifestFile list res" where
  "parseManifestFiles body =
     (case json_Unmarshal body of
        None \<Rightarrow> Inl (errors_New ''invalid JSON'')
      | Some v \<Rightarrow>
          (case dec_struct_lax fields_files None v of
             None \<Rightarrow> Inl (errors_New ''json: cannot unmarshal'')
           | Some raw \<Rightarrow>
               Inr (map (\<lambda>f. \<lparr>mf_Path = rvf_Path f, mf_Size = rvf_Size f, mf_SHA256 = rvf_Checksum f\<rparr>)
                     (filter (\<lambda>f. rvf_Checksum f \<noteq> []) (slice_list raw)))))"

definition readBlob :: "('s, 'w) Backend \<Rightarrow> string \<Rightarrow> ('s, bytes) op" where
  "readBlob b p s =
     (case b_Get b p s of
        (Inl e, s1) \<Rightarrow> (Inl e, s1)
      | (Inr rc, s1) \<Rightarrow> (io_ReadAll rc, s1))"

definition verify_readSidecar :: "('s, 'w) Backend \<Rightarrow> string \<Rightarrow> ('s, Sidecar) op" where
  "verify_readSidecar b backupID s =
     (case readBlob b (path_Join [backupID, ''Storage-Metadata.json'']) s of
        (Inl e, s1) \<Rightarrow> (Inl e, s1)
      | (Inr body, s1) \<Rightarrow> (UnmarshalSidecar body, s1))"

definition codecFromSidecar :: "Sidecar \<Rightarrow> string" where
  "codecFromSidecar sc =
     (if sc_Compression sc = [] then ''none''
      else case strings_Index (sc_Compression sc) '':'' of
             Some i \<Rightarrow> if 0 < i then take i (sc_Compression sc) else sc_Compression sc
           | None \<Rightarrow> sc_Compression sc)"

text \<open>No codec: the stored bytes are not compressed.\<close>

definition codec_of :: "Sidecar \<Rightarrow> string option res" where
  "codec_of sc =
     (let codecName = codecFromSidecar sc
      in if codecName \<noteq> [] \<and> codecName \<noteq> ''none'' then map_sum id Some (compression_Get codecName) else Inr None)"

definition selectBackupIDs :: "(string list \<Rightarrow> string list) \<Rightarrow> ('s, 'w) Backend \<Rightarrow> string \<Rightarrow> ('s, string list) op" where
  "selectBackupIDs ord b only s =
     (if only \<noteq> [] then (Inr [only], s)
      else case b_List b [] s of
             (Inl e, s1) \<Rightarrow> (Inl (wrapErr ''verify: List'' e), s1)
           | (Inr all, s1) \<Rightarrow>
               (Inr (ord (remdups (List.map_filter (\<lambda>fi.
                  let (first, _, ok) = strings_Cut (CHR ''/'') (fi_Path fi)
                  in if \<not> ok then None
                     else if \<not> strings_HasSuffix first ''F'' \<and> \<not> strings_HasSuffix first ''I'' then None
                     else Some first) all))), s1))"

text \<open>The readers of one file: decryption when there are identities, decompression when there is a codec.\<close>

definition decode_stored :: "('c, 'r, 'i) filters \<Rightarrow> string option \<Rightarrow> 'i list \<Rightarrow> reader \<Rightarrow> (string \<times> goerr) + reader" where
  "decode_stored fx codec ids rc =
     (case (if ids \<noteq> [] then encryption_NewReader fx rc ids else Inr rc) of
        Inl e \<Rightarrow> Inl (''decrypt: '', e)
      | Inr src \<Rightarrow>
          (case codec of
             None \<Rightarrow> Inr src
           | Some c \<Rightarrow> (case fx_NewReader fx c src of Inl e \<Rightarrow> Inl (''decompress: '', e) | Inr zr \<Rightarrow> Inr zr)))"

definition failed :: "string \<Rightarrow> manifestFile \<Rightarrow> string \<Rightarrow> string \<Rightarrow> Mismatch" where
  "failed backupID f actual reason =
     \<lparr>mm_BackupID = backupID, mm_Path = mf_Path f, mm_Expected = mf_SHA256 f, mm_Actual = actual, mm_Reason = reason\<rparr>"

definition verifyOne :: "('c, 'r, 'i) filters \<Rightarrow> ('s, 'w) Backend \<Rightarrow> string option \<Rightarrow> 'i list \<Rightarrow> string \<Rightarrow> manifestFile \<Rightarrow> 's \<Rightarrow>
    Mismatch option \<times> 's" where
  "verifyOne fx b codec ids backupID f s =
     (case b_Get b (path_Join [backupID, mf_Path f]) s of
        (Inl e, s1) \<Rightarrow> (Some (failed backupID f [] (''Get: '' @ err_text e)), s1)
      | (Inr rc, s1) \<Rightarrow>
          (case decode_stored fx codec ids rc of
             Inl (what, e) \<Rightarrow> (Some (failed backupID f [] (what @ err_text e)), s1)
           | Inr src \<Rightarrow>
               (case io_ReadAll src of
                  Inl e \<Rightarrow> (Some (failed backupID f [] (''hash copy: '' @ err_text e)), s1)
                | Inr d \<Rightarrow>
                    (let actual = hex_EncodeToString (sha256 d)
                     in if \<not> EqualFold_hex actual (mf_SHA256 f) then (Some (failed backupID f actual ''sha256 mismatch''), s1)
                        else (None, s1)))))"

fun verify_files :: "('c, 'r, 'i) filters \<Rightarrow> ('s, 'w) Backend \<Rightarrow> string option \<Rightarrow> 'i list \<Rightarrow> string \<Rightarrow> manifestFile list \<Rightarrow>
    Verify_Result \<Rightarrow> 's \<Rightarrow> Verify_Result \<times> 's" where
  "verify_files fx b codec ids backupID [] r s = (r, s)"
| "verify_files fx b codec ids backupID (f # fs) r s =
     (case verifyOne fx b codec ids backupID f s of
        (None, s1) \<Rightarrow> verify_files fx b codec ids backupID fs (r\<lparr>vr_FilesOK := vr_FilesOK r + 1\<rparr>) s1
      | (Some m, s1) \<Rightarrow>
          verify_files fx b codec ids backupID fs
            (r\<lparr>vr_FilesMismatched := vr_FilesMismatched r + 1, vr_Mismatches := vr_Mismatches r @ [m]\<rparr>) s1)"

definition verify_backup :: "('c, 'r, 'i) filters \<Rightarrow> ('s, 'w) Backend \<Rightarrow> 'i list \<Rightarrow> string \<Rightarrow> 's \<Rightarrow> Verify_Result \<times> 's" where
  "verify_backup fx b ids backupID s =
     (let r0 = \<lparr>vr_BackupID = backupID, vr_FilesOK = 0, vr_FilesMismatched = 0, vr_Mismatches = [],
                vr_ManifestChecksumOK = False, vr_ManifestChecksumErr = []\<rparr>
      in case readBlob b (path_Join [backupID, ''backup_manifest'']) s of
           (Inl e, s1) \<Rightarrow> (r0\<lparr>vr_ManifestChecksumErr := err_text e\<rparr>, s1)
         | (Inr body, s1) \<Rightarrow>
             (let r1 = r0\<lparr>vr_ManifestChecksumOK := manifestChecksumOK body\<rparr>
              in case verify_readSidecar b backupID s1 of
                   (Inl e, s2) \<Rightarrow> (r1\<lparr>vr_ManifestChecksumErr := ''read sidecar: '' @ err_text e\<rparr>, s2)
                 | (Inr sc, s2) \<Rightarrow>
                     (case codec_of sc of
                           Inl e \<Rightarrow> (r1\<lparr>vr_ManifestChecksumErr := ''compression.Get: '' @ err_text e\<rparr>, s2)
                         | Inr codec \<Rightarrow>
                             (case parseManifestFiles body of
                                Inl e \<Rightarrow> (r1\<lparr>vr_ManifestChecksumErr := ''parse manifest: '' @ err_text e\<rparr>, s2)
                              | Inr files \<Rightarrow> verify_files fx b codec ids backupID files r1 s2))))"

fun verify_all :: "('c, 'r, 'i) filters \<Rightarrow> ('s, 'w) Backend \<Rightarrow> 'i list \<Rightarrow> string list \<Rightarrow> 's \<Rightarrow> Verify_Result list \<times> 's" where
  "verify_all fx b ids [] s = ([], s)"
| "verify_all fx b ids (d # ds) s =
     (case verify_backup fx b ids d s of
        (r, s1) \<Rightarrow> (case verify_all fx b ids ds s1 of (rs, s2) \<Rightarrow> (r # rs, s2)))"

definition Verify :: "('c, 'r, 'i) filters \<Rightarrow> (string list \<Rightarrow> string list) \<Rightarrow> ('s, 'w) Backend \<Rightarrow> string \<Rightarrow> 'i list \<Rightarrow>
    ('s, Verify_Result list) op" where
  "Verify fx ord b only ids s =
     (case selectBackupIDs ord b only s of
        (Inl e, s1) \<Rightarrow> (Inl e, s1)
      | (Inr ds, s1) \<Rightarrow> (case verify_all fx b ids ds s1 of (rs, s2) \<Rightarrow> (Inr rs, s2)))"


section \<open>The checksum of a manifest\<close>

lemma Index_at:
  "\<forall>i < length a. \<not> prefix p (drop i (a @ p @ r)) \<Longrightarrow> p \<noteq> [] \<Longrightarrow> strings_Index (a @ p @ r) p = Some (length a)"
proof (induction a)
  case Nil
  then show ?case by (cases p) auto
next
  case (Cons c a)
  have "\<not> prefix p ((c # a) @ p @ r)" using Cons.prems(1) [rule_format, of 0] by simp
  moreover have "\<forall>i < length a. \<not> prefix p (drop i (a @ p @ r))"
    using Cons.prems(1) by (auto dest: spec [where x = "Suc _"])
  ultimately show ?case using Cons by simp
qed

text \<open>The first occurrence of a pattern after a text that does not hold it and ends in a byte it has not.\<close>

lemma Index_after:
  assumes "\<not> sublist p (a @ [x])" "x \<notin> set p" "p \<noteq> []"
  shows "strings_Index ((a @ [x]) @ p @ r) p = Some (length (a @ [x]))"
proof (rule Index_at [OF _ assms(3)], intro allI impI notI)
  fix i assume i: "i < length (a @ [x])" and pr: "prefix p (drop i ((a @ [x]) @ p @ r))"
  have tk: "p = take (length p) (drop i ((a @ [x]) @ p @ r))" using pr by (metis append_eq_conv_conj prefix_def)
  show False
  proof (cases "i + length p \<le> length (a @ [x])")
    case True
    have "take (length p) (drop i (b @ y)) = take (length p) (drop i b)" if "i + length p \<le> length b" for b y :: string
      using that by simp
    from this [OF True, of "p @ r"] have "p = take (length p) (drop i (a @ [x]))" using tk by (simp only:)
    then have "sublist p (a @ [x])" by (metis sublist_drop sublist_take sublist_order.order_trans)
    with assms(1) show False by simp
  next
    case False
    define j where "j = length a - i"
    have j: "i + j = length a" "j < length p" using False i by (auto simp: j_def)
    have "p ! j = take (length p) (drop i ((a @ [x]) @ p @ r)) ! j" by (rule arg_cong2 [OF tk refl, of nth])
    also have "\<dots> = ((a @ [x]) @ p @ r) ! (i + j)" by (subst nth_take [OF j(2)], rule nth_drop) (use i in simp)
    also have "\<dots> = x" unfolding j(1) by (simp add: nth_append)
    finally show False using assms(2) j(2) by (metis nth_mem)
  qed
qed

lemma index_byte_append: "c \<notin> set a \<Longrightarrow> index_byte c (a @ c # r) = Some (length a)"
  by (induction a) auto

lemma body_end: "\<exists>a. manifest_body b stop = a @ [CHR 0x0A]"
  unfolding manifest_body_def by (metis append.assoc)

lemma quote_not_hex: "CHR 0x22 \<notin> set (hex_EncodeToString bs)"
proof
  assume "CHR 0x22 \<in> set (hex_EncodeToString bs)"
  then obtain d where "d < 16" "CHR 0x22 = hexL d" using set_hex_EncodeToString by blast
  then show False by (auto simp: hexL_def dest!: less16_cases split: if_splits)
qed

text \<open>A manifest that \<open>Finalize\<close> wrote passes the checksum test, unless a file's path puts the name of the
  checksum member into the text before it.\<close>

lemma Finalize_checksum:
  assumes "\<not> sublist checksum_mark (manifest_body b stop)"
  shows "manifestChecksumOK (Finalize stop b)"
proof -
  obtain a where a: "manifest_body b stop = a @ [CHR 0x0A]" using body_end by blast
  let ?body = "manifest_body b stop" and ?h = "hex_EncodeToString (sha256 (manifest_body b stop))"
  let ?p = "checksum_mark @ '': '' @ [CHR 0x22]"
  have f: "Finalize stop b = ?body @ checksum_mark @ ('': '' @ [CHR 0x22]) @ ?h @ CHR 0x22 # ''}'' @ [CHR 0x0A]"
    by (simp add: Finalize_def Let_def checksum_mark_def quoted_def)
  have m: "CHR 0x0A \<notin> set checksum_mark" "checksum_mark \<noteq> []" by (simp_all add: checksum_mark_def quoted_def)
  have "strings_Index ((a @ [CHR 0x0A]) @ checksum_mark @ x) checksum_mark = Some (length (a @ [CHR 0x0A]))" for x
    using assms m unfolding a by (rule Index_after)
  then have i1: "strings_Index (Finalize stop b) checksum_mark = Some (length ?body)" unfolding f a by simp
  have ns: "\<not> sublist ?p (a @ [CHR 0x0A])"
  proof
    assume "sublist ?p (a @ [CHR 0x0A])"
    moreover have "sublist checksum_mark ?p" by (simp add: sublist_appendI)
    ultimately show False using assms unfolding a by (meson sublist_order.order_trans)
  qed
  have "strings_Index ((a @ [CHR 0x0A]) @ ?p @ x) ?p = Some (length (a @ [CHR 0x0A]))" for x
    by (rule Index_after [OF ns]) (use m(1) in auto)
  from this [of "?h @ CHR 0x22 # ''}'' @ [CHR 0x0A]"]
  have i2: "strings_Index (Finalize stop b) ?p = Some (length ?body)" unfolding f a by simp
  have dr: "drop (length ?body + length ?p) (Finalize stop b) = ?h @ CHR 0x22 # ''}'' @ [CHR 0x0A]" unfolding f by simp
  have ib: "index_byte (CHR 0x22) (?h @ CHR 0x22 # ''}'' @ [CHR 0x0A]) = Some (length ?h)" by (rule index_byte_append [OF quote_not_hex])
  have "length ?h \<noteq> 0" by simp
  then show ?thesis
    unfolding manifestChecksumOK_def i1 i2 option.case Let_def dr ib by (simp add: f EqualFold_hex_def)
qed


section \<open>The files of a manifest\<close>

definition listed_file :: "fileRec \<Rightarrow> manifestFile" where
  "listed_file f = \<lparr>mf_Path = fr_path f, mf_Size = fr_size f, mf_SHA256 = hex_EncodeToString (fr_sha256 f)\<rparr>"

lemma other_members_verify:
  "list_all (\<lambda>k. list_all (\<lambda>n. foldName n \<noteq> foldName k) [''Path'', ''Size'', ''Checksum''])
     [''Last-Modified'', ''Checksum-Algorithm'', ''Incremental'']"
  "list_all (\<lambda>k. foldName ''Files'' \<noteq> foldName k)
     [''PostgreSQL-Backup-Manifest-Version'', ''System-Identifier'', ''WAL-Ranges'', ''Manifest-Checksum'']"
  by code_simp+

lemma dec_rawVerifyFile:
  assumes "fits_int64 (fr_size f)"
  shows "dec_struct_lax fields_rawVerifyFile zero_rawVerifyFile (manifest_file_json f) =
    Some \<lparr>rvf_Path = fr_path f, rvf_Size = fr_size f, rvf_Checksum = hex_EncodeToString (fr_sha256 f)\<rparr>"
proof -
  have none: "find_field fields_rawVerifyFile k = None" if "k \<in> {''Last-Modified'', ''Checksum-Algorithm'', ''Incremental''}" for k
    by (rule find_field_None) (use other_members_verify(1) that in \<open>auto simp: fields_rawVerifyFile_def\<close>)
  have some: "find_field fields_rawVerifyFile ''Path'' = Some (dec_field rvf_Path (\<lambda>a. rvf_Path_update (\<lambda>_. a)) dec_string)"
    "find_field fields_rawVerifyFile ''Size'' = Some (dec_field rvf_Size (\<lambda>a. rvf_Size_update (\<lambda>_. a)) dec_int64)"
    "find_field fields_rawVerifyFile ''Checksum'' = Some (dec_field rvf_Checksum (\<lambda>a. rvf_Checksum_update (\<lambda>_. a)) dec_string)"
    by (simp_all add: find_field_def fields_rawVerifyFile_def)
  show ?thesis using assms
    by (simp add: dec_struct_lax_def manifest_file_json_def some none dec_field_def zero_rawVerifyFile_def dec_string_def)
qed

lemma parse_Finalize:
  assumes "\<forall>f \<in> set (bu_files b). valid_utf8 (fr_path f) \<and> fits_int64 (fr_size f) \<and> fr_sha256 f \<noteq> []"
  shows "parseManifestFiles (Finalize stop b) = Inr (map listed_file (bu_files b))"
proof -
  have none: "find_field fields_files k = None"
    if "k \<in> {''PostgreSQL-Backup-Manifest-Version'', ''System-Identifier'', ''WAL-Ranges'', ''Manifest-Checksum''}" for k
    by (rule find_field_None) (use other_members_verify(2) that in \<open>auto simp: fields_files_def\<close>)
  have some: "find_field fields_files ''Files'' = Some (dec_slice (dec_struct_lax fields_rawVerifyFile) zero_rawVerifyFile)"
    by (simp add: find_field_def fields_files_def)
  let ?raw = "\<lambda>f. \<lparr>rvf_Path = fr_path f, rvf_Size = fr_size f, rvf_Checksum = hex_EncodeToString (fr_sha256 f)\<rparr>"
  have "those (map (\<lambda>f. dec_struct_lax fields_rawVerifyFile zero_rawVerifyFile (manifest_file_json f)) (bu_files b)) = Some (map ?raw (bu_files b))"
    using assms by (intro those_map_Some) (simp add: dec_rawVerifyFile)
  then have "dec_struct_lax fields_files None (manifest_json stop b) = Some (Some (map ?raw (bu_files b)))"
    unfolding manifest_json_def by (simp add: dec_struct_lax_def [of fields_files] some none dec_slice_def comp_def)
  moreover have "filter (\<lambda>f. rvf_Checksum f \<noteq> []) (map ?raw (bu_files b)) = map ?raw (bu_files b)"
  proof -
    have "hex_EncodeToString (fr_sha256 f) \<noteq> []" if "f \<in> set (bu_files b)" for f
      using assms that by (metis length_0_conv length_hex_EncodeToString mult_eq_0_iff zero_neq_numeral)
    then show ?thesis by (intro filter_True) auto
  qed
  ultimately show ?thesis using Finalize_Unmarshal [of b stop] assms
    by (simp add: parseManifestFiles_def slice_list_def listed_file_def)
qed


section \<open>What a clean verification says\<close>

text \<open>A reader over a source that fails does not end cleanly.\<close>

definition fails_through :: "(reader \<Rightarrow> reader res) \<Rightarrow> bool" where
  "fails_through rd \<longleftrightarrow> (\<forall>d e x. rd (d, Some e) = Inr x \<longrightarrow> snd x \<noteq> None)"

lemma decode_fails:
  assumes "\<forall>ids. fails_through (fx_Decrypt fx ids)" "\<forall>c. fails_through (fx_NewReader fx c)"
    "decode_stored fx codec ids rc = Inr src" "snd src = None"
  shows "snd rc = None"
proof (rule ccontr)
  assume ne: "snd rc \<noteq> None"
  obtain d e where rc: "rc = (d, Some e)" using ne by (cases rc) auto
  obtain r1 where r1: "(if ids \<noteq> [] then encryption_NewReader fx rc ids else Inr rc) = Inr r1"
    using assms(3) by (auto simp: decode_stored_def split: sum.splits if_splits)
  have "snd r1 \<noteq> None"
    using r1 assms(1) rc by (auto simp: encryption_NewReader_def fails_through_def split: if_splits sum.splits)
  then obtain d1 e1 where "r1 = (d1, Some e1)" by (cases r1) auto
  then show False using assms(2-4) r1 by (auto simp: decode_stored_def fails_through_def split: option.splits sum.splits) blast
qed

context storage_backend
begin

lemma verifyOne_facts:
  assumes "inv s" "key (path_Join [d, mf_Path f])" "verifyOne fx B codec ids d f s = (m, s')"
    "\<forall>ids. fails_through (fx_Decrypt fx ids)" "\<forall>c. fails_through (fx_NewReader fx c)"
  shows "inv s' \<and> view s' = view s \<and> (m = None \<longrightarrow> (\<exists>raw data. view s (path_Join [d, mf_Path f]) = Some raw \<and>
     decode_stored fx codec ids (raw, None) = Inr (data, None) \<and> EqualFold_hex (hex_EncodeToString (sha256 data)) (mf_SHA256 f)))"
proof -
  obtain g s1 where g: "b_Get B (path_Join [d, mf_Path f]) s = (g, s1)" by fastforce
  have s1: "inv s1 \<and> view s1 = view s" by (rule get [OF assms(1,2) g])
  have "s' = s1" using assms(3) g by (auto simp: verifyOne_def Let_def split: sum.splits prod.splits if_splits)
  moreover have "\<exists>raw data. view s (path_Join [d, mf_Path f]) = Some raw \<and> decode_stored fx codec ids (raw, None) = Inr (data, None) \<and>
      EqualFold_hex (hex_EncodeToString (sha256 data)) (mf_SHA256 f)" if "m = None"
  proof -
    obtain rc where rc: "g = Inr rc" using assms(3) g \<open>m = None\<close> by (cases g) (auto simp: verifyOne_def)
    obtain src where src: "decode_stored fx codec ids rc = Inr src"
      using assms(3) g \<open>m = None\<close> rc by (cases "decode_stored fx codec ids rc") (auto simp: verifyOne_def)
    have sn: "snd src = None" using assms(3) g \<open>m = None\<close> rc src by (cases src; cases "snd src") (auto simp: verifyOne_def io_ReadAll_def)
    have "snd rc = None" by (rule decode_fails [OF assms(4,5) src sn])
    then obtain raw where raw: "rc = (raw, None)" by (cases rc) auto
    obtain data where data: "src = (data, None)" using sn by (cases src) auto
    have "view s (path_Join [d, mf_Path f]) = Some raw" using get_data [OF assms(1,2)] g rc raw by blast
    moreover have "EqualFold_hex (hex_EncodeToString (sha256 data)) (mf_SHA256 f)"
      using assms(3) g \<open>m = None\<close> rc src data by (auto simp: verifyOne_def io_ReadAll_def Let_def split: if_splits)
    ultimately show ?thesis using src raw data by blast
  qed
  ultimately show ?thesis using s1 by blast
qed

lemma verify_files_facts:
  assumes "\<forall>ids. fails_through (fx_Decrypt fx ids)" "\<forall>c. fails_through (fx_NewReader fx c)"
  shows "inv s \<Longrightarrow> \<forall>f \<in> set fs. key (path_Join [d, mf_Path f]) \<Longrightarrow> verify_files fx B codec ids d fs r s = (r', s') \<Longrightarrow>
     inv s' \<and> view s' = view s \<and> vr_FilesOK r' + vr_FilesMismatched r' = vr_FilesOK r + vr_FilesMismatched r + length fs \<and>
     vr_FilesMismatched r \<le> vr_FilesMismatched r' \<and>
     vr_ManifestChecksumOK r' = vr_ManifestChecksumOK r \<and> vr_ManifestChecksumErr r' = vr_ManifestChecksumErr r \<and>
     (vr_FilesMismatched r' = vr_FilesMismatched r \<longrightarrow> (\<forall>f \<in> set fs. \<exists>raw data. view s (path_Join [d, mf_Path f]) = Some raw \<and>
        decode_stored fx codec ids (raw, None) = Inr (data, None) \<and> EqualFold_hex (hex_EncodeToString (sha256 data)) (mf_SHA256 f)))"
proof (induction fs arbitrary: r s)
  case (Cons f fs)
  obtain m s1 where m: "verifyOne fx B codec ids d f s = (m, s1)" by fastforce
  have k: "key (path_Join [d, mf_Path f])" using Cons.prems(2) by simp
  note f1 = verifyOne_facts [OF Cons.prems(1) k m assms]
  define r1 where "r1 = (case m of None \<Rightarrow> r\<lparr>vr_FilesOK := vr_FilesOK r + 1\<rparr>
    | Some x \<Rightarrow> r\<lparr>vr_FilesMismatched := vr_FilesMismatched r + 1, vr_Mismatches := vr_Mismatches r @ [x]\<rparr>)"
  have "verify_files fx B codec ids d fs r1 s1 = (r', s')" using Cons.prems(3) m by (cases m) (simp_all add: r1_def)
  from Cons.IH [OF _ _ this] f1 Cons.prems(2) show ?case by (cases m) (auto simp: r1_def)
qed simp

end


text \<open>C6: what a clean verification means. If a backup's result is \<open>AllOK\<close> and carries no error, its manifest is
  intact and every file the manifest has a checksum for is stored and decodes to data with exactly that
  SHA-256. So no corruption that changes the SHA-256 of a file's content passes.\<close>

theorem verify_backup_sound:
  assumes "posix_inv r s" "posix_key (path_Join [d, ''backup_manifest''])" "posix_key (path_Join [d, ''Storage-Metadata.json''])"
    "\<forall>body files. posix_view r s (path_Join [d, ''backup_manifest'']) = Some body \<and> parseManifestFiles body = Inr files \<longrightarrow>
       (\<forall>f \<in> set files. posix_key (path_Join [d, mf_Path f]))"
    "\<forall>ids. fails_through (fx_Decrypt fx ids)" "\<forall>c. fails_through (fx_NewReader fx c)"
    "verify_backup fx (posix_backend r) ids d s = (res, s')" "AllOK res" "vr_ManifestChecksumErr res = []"
  shows "\<exists>body files codec. posix_view r s (path_Join [d, ''backup_manifest'']) = Some body \<and> manifestChecksumOK body \<and>
    parseManifestFiles body = Inr files \<and> vr_FilesOK res = length files \<and>
    (\<forall>f \<in> set files. \<exists>raw data. posix_view r s (path_Join [d, mf_Path f]) = Some raw \<and>
        decode_stored fx codec ids (raw, None) = Inr (data, None) \<and> EqualFold_hex (hex_EncodeToString (sha256 data)) (mf_SHA256 f))"
proof -
  have rb: "readBlob = get_body" by (simp add: fun_eq_iff readBlob_def get_body_def)
  obtain x s1 where b: "readBlob (posix_backend r) (path_Join [d, ''backup_manifest'']) s = (x, s1)" by fastforce
  note b' = pstore.get_body_facts [OF assms(1,2) b [unfolded rb]]
  obtain body where body: "x = Inr body" using assms(7,8) b by (cases x) (auto simp: verify_backup_def AllOK_def)
  then have v: "posix_view r s (path_Join [d, ''backup_manifest'']) = Some body" "posix_inv r s1" "posix_view r s1 = posix_view r s"
    using b' by auto
  obtain y s2 where y: "readBlob (posix_backend r) (path_Join [d, ''Storage-Metadata.json'']) s1 = (y, s2)" by fastforce
  have s2: "posix_inv r s2" "posix_view r s2 = posix_view r s"
    using pstore.get_body_facts [OF v(2) assms(3) y [unfolded rb]] v(3) by auto
  obtain z where z: "verify_readSidecar (posix_backend r) d s1 = (z, s2)" using y by (cases y) (auto simp: verify_readSidecar_def)
  obtain sc where sc: "z = Inr sc"
    using assms(7,9) b body z by (cases z) (auto simp: verify_backup_def Let_def)
  obtain codec where codec: "codec_of sc = Inr codec"
    using assms(7,9) b body z sc by (cases "codec_of sc") (auto simp: verify_backup_def Let_def)
  obtain files where files: "parseManifestFiles body = Inr files"
    using assms(7,9) b body z sc codec by (cases "parseManifestFiles body") (auto simp: verify_backup_def Let_def)
  define r1 where "r1 = \<lparr>vr_BackupID = d, vr_FilesOK = 0, vr_FilesMismatched = 0, vr_Mismatches = [],
      vr_ManifestChecksumOK = manifestChecksumOK body, vr_ManifestChecksumErr = []\<rparr>"
  have run: "verify_files fx (posix_backend r) codec ids d files r1 s2 = (res, s')"
    using assms(7) b body z sc codec files by (simp add: verify_backup_def Let_def r1_def)
  have keys: "\<forall>f \<in> set files. posix_key (path_Join [d, mf_Path f])"
    using assms(4) files v(1) by blast
  from pstore.verify_files_facts [OF assms(5,6) s2(1) keys run] assms(8) v(1) files s2(2)
  show ?thesis by (intro exI [of _ body] exI [of _ files] exI [of _ codec]) (auto simp: AllOK_def r1_def)
qed

definition example_verified :: Builder where
  "example_verified = AddFile ''PG_VERSION'' 2 (sha256 ''17'') 63840000000000000000
     (NewBuilder \<lparr>si_SystemIdentifier = 42, si_Timeline = 1, si_StartLSN = 0x2000028, si_StartTime = 0\<rparr>)"

definition example_plain_sidecar :: Sidecar where
  "example_plain_sidecar = example_sidecar\<lparr>sc_Compression := ''none''\<rparr>"

definition example_verify_store :: pfs where
  "example_verify_store = store_fs [''aF''] [(''aF/backup_manifest'', Finalize example_stop example_verified),
     (''aF/Storage-Metadata.json'', MarshalSidecar example_plain_sidecar), (''aF/PG_VERSION'', ''17'')]"

lemma example_plain_sidecar_ok: "UnmarshalSidecar (MarshalSidecar example_plain_sidecar) = Inr example_plain_sidecar"
proof -
  have "ascii_string ''none''" by (simp add: ascii_string_def)
  then have "Sidecar_ok example_plain_sidecar"
    using example_sidecar_ok valid_utf8_ascii [of "''none''"] by (simp add: Sidecar_ok_def example_plain_sidecar_def)
  then show ?thesis by (rule Sidecar_round_trip)
qed

lemma example_verified_files: "parseManifestFiles (Finalize example_stop example_verified) =
    Inr [\<lparr>mf_Path = ''PG_VERSION'', mf_Size = 2, mf_SHA256 = hex_EncodeToString (sha256 ''17'')\<rparr>]"
proof -
  have "ascii_string ''PG_VERSION''" by (simp add: ascii_string_def)
  then have "valid_utf8 ''PG_VERSION''" by (rule valid_utf8_ascii)
  moreover have "sha256 ''17'' \<noteq> []" by (metis length_sha256 list.size(3) zero_neq_numeral)
  ultimately have "\<forall>f \<in> set (bu_files example_verified). valid_utf8 (fr_path f) \<and> fits_int64 (fr_size f) \<and> fr_sha256 f \<noteq> []"
    by (simp add: example_verified_def AddFile_def NewBuilder_def fits_int64_def)
  from parse_Finalize [OF this] show ?thesis by (simp add: example_verified_def AddFile_def NewBuilder_def listed_file_def)
qed

lemma mark_around_hex:
  assumes "sublist checksum_mark (A @ H @ B)" "set H \<subseteq> {c. \<exists>d < 16. c = hexL d}" "19 \<le> length H"
  shows "sublist checksum_mark A \<or> sublist checksum_mark B"
proof -
  have q: "CHR 0x22 \<notin> set H"
  proof
    assume "CHR 0x22 \<in> set H"
    then obtain d where "d < 16" "CHR 0x22 = hexL d" using assms(2) by blast
    then show False by (auto simp: hexL_def dest!: less16_cases split: if_splits)
  qed
  have m: "hd checksum_mark = CHR 0x22" "last checksum_mark = CHR 0x22" "length checksum_mark = 19" "checksum_mark \<noteq> []"
    by (simp_all add: checksum_mark_def quoted_def)
  have hb: "sublist checksum_mark B" if "sublist checksum_mark (H @ B)"
    using that unfolding sublist_append
  proof (elim disjE exE conjE)
    assume "sublist checksum_mark H"
    then have "CHR 0x22 \<in> set H" using m(1,4) by (metis hd_in_set set_mono_sublist subsetD)
    with q show ?thesis by simp
  next
    fix us vs assume u: "checksum_mark = us @ vs" "suffix us H" "prefix vs B"
    have "us = []"
    proof (rule ccontr)
      assume "us \<noteq> []"
      then have "CHR 0x22 \<in> set us" using u(1) m(1) by (metis hd_append2 hd_in_set)
      then show False using u(2) q by (auto simp: suffix_def)
    qed
    then show ?thesis using u by (simp add: prefix_imp_sublist)
  qed simp
  show ?thesis using assms(1) unfolding sublist_append [of _ A]
  proof (elim disjE exE conjE)
    fix us vs assume u: "checksum_mark = us @ vs" "suffix us A" "prefix vs (H @ B)"
    have "vs = []"
    proof (rule ccontr)
      assume vs: "vs \<noteq> []"
      then have "CHR 0x22 \<in> set vs" using u(1) m(2) by (metis last_appendR last_in_set)
      moreover have "length vs \<le> length H" using u(1) m(3) assms(3) by (metis add_leD2 length_append order.trans le_refl)
      then have "prefix vs H" using u(3) by (metis append_prefixD prefix_length_prefix prefixI)
      ultimately show False using q by (auto simp: prefix_def)
    qed
    then show ?thesis using u by (simp add: suffix_imp_sublist)
  qed (use hb in auto)
qed

lemma example_verified_mark: "\<not> sublist checksum_mark (manifest_body example_verified example_stop)"
proof -
  define A where "A = ''{ '' @ quoted ''PostgreSQL-Backup-Manifest-Version'' @ '': '' @ fmt_d ManifestVersion @ '','' @ [CHR 0x0A]
     @ quoted ''System-Identifier'' @ '': '' @ fmt_d (unat (42 :: u64)) @ '','' @ [CHR 0x0A]
     @ quoted ''Files'' @ '': ['' @ [CHR 0x0A] @ ''{ '' @ quoted ''Path'' @ '': '' @ jsonString ''PG_VERSION''
     @ '', '' @ quoted ''Size'' @ '': '' @ fmt_int 2
     @ '', '' @ quoted ''Last-Modified'' @ '': '' @ quoted (format_gmt 63840000000000000000)
     @ '', '' @ quoted ''Checksum-Algorithm'' @ '': '' @ quoted ''SHA256''
     @ '', '' @ quoted ''Checksum'' @ '': '' @ [CHR 0x22]"
  define B where "B = [CHR 0x22] @ '' }'' @ [CHR 0x0A] @ ''],'' @ [CHR 0x0A] @ quoted ''WAL-Ranges'' @ '': ['' @ [CHR 0x0A]
     @ ''{ '' @ quoted ''Timeline'' @ '': '' @ fmt_d (unat (1 :: u32)) @ '', '' @ quoted ''Start-LSN'' @ '': '' @ quoted (LSN_String 0x2000028)
     @ '', '' @ quoted ''End-LSN'' @ '': '' @ quoted (LSN_String 0x2000100) @ '' }'' @ [CHR 0x0A] @ ''],'' @ [CHR 0x0A]"
  have body: "manifest_body example_verified example_stop = A @ hex_EncodeToString (sha256 ''17'') @ B"
    unfolding manifest_body_def example_verified_def example_stop_def AddFile_def NewBuilder_def A_def B_def
    by (simp add: manifest_entry_def quoted_def)
  have "\<not> sublist checksum_mark A" unfolding A_def by code_simp
  moreover have "\<not> sublist checksum_mark B" unfolding B_def by code_simp
  moreover have "set (hex_EncodeToString (sha256 ''17'')) \<subseteq> {c. \<exists>d < 16. c = hexL d}" using set_hex_EncodeToString by blast
  ultimately show ?thesis unfolding body using mark_around_hex [of A "hex_EncodeToString (sha256 ''17'')" B] by auto
qed

theorem verify_backup_sound_witness:
  "\<exists>res s' codec raw data. verify_backup example_filters (posix_backend example_root) [] ''aF'' example_verify_store = (res, s') \<and> AllOK res \<and>
     vr_FilesOK res = 1 \<and> posix_view example_root example_verify_store ''aF/PG_VERSION'' = Some raw \<and>
     decode_stored example_filters codec ([] :: string list) (raw, None) = Inr (data, None)"
proof -
  let ?b = "posix_backend example_root"
  have "store_ok [''aF''] [''aF/backup_manifest'', ''aF/Storage-Metadata.json'', ''aF/PG_VERSION'']" by code_simp
  then have ok: "store_ok [''aF''] (map fst [(''aF/backup_manifest'', Finalize example_stop example_verified),
     (''aF/Storage-Metadata.json'', MarshalSidecar example_plain_sidecar), (''aF/PG_VERSION'', ''17'')])" by simp
  have k: "posix_key ''aF/backup_manifest''" "posix_key ''aF/Storage-Metadata.json''" "posix_key ''aF/PG_VERSION''"
    "path_Join [''aF'', ''backup_manifest''] = ''aF/backup_manifest''" "path_Join [''aF'', ''Storage-Metadata.json''] = ''aF/Storage-Metadata.json''"
    "path_Join [''aF'', ''PG_VERSION''] = ''aF/PG_VERSION''" by code_simp+
  have i: "posix_inv example_root example_verify_store" using store_fs_inv [OF ok] by (simp add: example_verify_store_def)
  have h: "healthy example_verify_store" by (simp add: example_verify_store_def)
  have v: "posix_view example_root example_verify_store ''aF/backup_manifest'' = Some (Finalize example_stop example_verified)"
    "posix_view example_root example_verify_store ''aF/Storage-Metadata.json'' = Some (MarshalSidecar example_plain_sidecar)"
    "posix_view example_root example_verify_store ''aF/PG_VERSION'' = Some ''17''"
    unfolding example_verify_store_def store_fs_view [OF ok] using k by simp_all
  have rb: "readBlob ?b p s = (Inr x, tick (tick s))" if "posix_inv example_root s" "healthy s" "posix_view example_root s p = Some x" for p s x
    using healthy_get [OF that] by (simp add: readBlob_def posix_backend_def io_ReadAll_def)
  let ?s2 = "tick (tick (tick (tick example_verify_store)))"
  have sc: "verify_readSidecar ?b ''aF'' (tick (tick example_verify_store)) = (Inr example_plain_sidecar, ?s2)"
    using rb [of "tick (tick example_verify_store)"] i h v(2) k(5) example_plain_sidecar_ok by (simp add: verify_readSidecar_def)
  have cd: "codec_of example_plain_sidecar = Inr None" by (simp add: codec_of_def codecFromSidecar_def example_plain_sidecar_def)
  let ?f = "\<lparr>mf_Path = ''PG_VERSION'', mf_Size = 2, mf_SHA256 = hex_EncodeToString (sha256 ''17'')\<rparr>"
  have one: "verifyOne example_filters ?b None [] ''aF'' ?f ?s2 = (None, tick (tick ?s2))"
    using healthy_get [of example_root ?s2 "''aF/PG_VERSION''" "''17''"] i h v(3) k(6)
    by (simp add: verifyOne_def posix_backend_def decode_stored_def io_ReadAll_def EqualFold_hex_def)
  obtain res s' where run: "verify_backup example_filters ?b [] ''aF'' example_verify_store = (res, s')" by fastforce
  have res: "AllOK res" "vr_ManifestChecksumErr res = []"
    using run rb [OF i h v(1)] sc cd example_verified_files one Finalize_checksum [OF example_verified_mark]
    by (auto simp: verify_backup_def Let_def k AllOK_def)
  have ft: "\<forall>ids. fails_through (fx_Decrypt example_filters ids)" "\<forall>c. fails_through (fx_NewReader example_filters c)"
    by (simp_all add: fails_through_def example_filters_def example_unstage_def)
  have keys: "\<forall>body files. posix_view example_root example_verify_store (path_Join [''aF'', ''backup_manifest'']) = Some body \<and>
      parseManifestFiles body = Inr files \<longrightarrow> (\<forall>f \<in> set files. posix_key (path_Join [''aF'', mf_Path f]))"
    using v(1) example_verified_files k by auto
  have k': "posix_key (path_Join [''aF'', ''backup_manifest''])" "posix_key (path_Join [''aF'', ''Storage-Metadata.json''])" using k by simp_all
  from verify_backup_sound [OF i k' keys ft run res] obtain body files codec where
    b: "posix_view example_root example_verify_store (path_Join [''aF'', ''backup_manifest'']) = Some body"
      "parseManifestFiles body = Inr files" "vr_FilesOK res = length files"
    and fs: "\<forall>f \<in> set files. \<exists>raw data. posix_view example_root example_verify_store (path_Join [''aF'', mf_Path f]) = Some raw \<and>
        decode_stored example_filters codec [] (raw, None) = Inr (data, None) \<and> EqualFold_hex (hex_EncodeToString (sha256 data)) (mf_SHA256 f)"
    by blast
  have files: "files = [?f]" using b v(1) k(4) example_verified_files by simp
  then have "vr_FilesOK res = 1" using b(3) by simp
  moreover obtain raw data where "posix_view example_root example_verify_store ''aF/PG_VERSION'' = Some raw"
    "decode_stored example_filters codec [] (raw, None) = Inr (data, None)" using fs files k(6) by auto
  ultimately show ?thesis using run res(1) by blast
qed

lemma healthy_get_none:
  assumes "posix_inv r s" "healthy s" "posix_key k" "posix_view r s k = None"
  shows "\<exists>e s'. readBlob (posix_backend r) k s = (Inl e, s')"
proof -
  have "clean_rel k" "file_at s (under_root r k) = None" using assms(3,4) by (auto simp: posix_view_def posix_key_def)
  then show ?thesis using abs_path_key [OF assms(1)] assms(2)
    by (auto simp: readBlob_def posix_backend_def posix_Get_def os_Open_def lookup_def fault_now_def healthy_def file_at_def io_ReadAll_def
        split: option.splits node.splits)
qed



end
