(* ===== verification/Restore.thy ===== *)
theory Restore
  imports Verify Archive
begin

text \<open>
  \<open>internal/restore/restore.go\<close> and \<open>chain.go\<close>: putting a stored backup back on the local host.

  The host's files are the \<open>OS\<close> of \<open>Local_Files\<close> with the further calls restore makes; commands are
  run through \<open>o_Command\<close>. Storage and host share one state. A group of goroutines restores the files,
  each writing its own path; here they are restored one after the other in the order \<open>ord\<close> that the
  scheduler picks, up to the first error. The dispatch to a worker on the database host
  (\<open>Options.Worker\<close>) is left out: this is the restore that runs on the caller.
\<close>

record ('s, 'f) Host =
  h_os :: "('s, 'f) OS"
  o_Stat :: "string \<Rightarrow> ('s, unit) op"
  o_Remove :: "string \<Rightarrow> ('s, unit) op"
  o_Symlink :: "string \<Rightarrow> string \<Rightarrow> ('s, unit) op"
  o_MkdirTemp :: "string \<Rightarrow> string \<Rightarrow> ('s, string) op"
  o_RemoveAll :: "string \<Rightarrow> ('s, unit) op"
  o_LookPath :: "string \<Rightarrow> ('s, string) op"
  o_Command :: "string \<Rightarrow> string list \<Rightarrow> ('s, unit) op"
  o_Getenv :: "string \<Rightarrow> string"

text \<open>\<open>os.ReadFile\<close> and \<open>os.WriteFile\<close>.\<close>

definition os_ReadFile :: "('s, 'f) OS \<Rightarrow> string \<Rightarrow> ('s, bytes) op" where
  "os_ReadFile os p s =
     (case o_Open os p s of
        (Inl e, s1) \<Rightarrow> (Inl e, s1)
      | (Inr rd, s1) \<Rightarrow> (io_ReadAll rd, s1))"

definition os_WriteFile :: "('s, 'f) OS \<Rightarrow> string \<Rightarrow> bytes \<Rightarrow> ('s, unit) op" where
  "os_WriteFile os p d s =
     (case o_Create os p s of
        (Inl e, s1) \<Rightarrow> (Inl e, s1)
      | (Inr f, s1) \<Rightarrow>
          (case o_Write os f d s1 of
             (Inl e, s2) \<Rightarrow> (Inl e, snd (o_Close os f s2))
           | (Inr _, s2) \<Rightarrow> o_Close os f s2))"

record 'i Restore_Options =
  ro_Target :: string
  ro_Identities :: "'i list"
  ro_BackupID :: string
  ro_TablespaceRemap :: "(nat \<times> string) list"
  ro_StandbyMode :: bool
  ro_RestoreCommand :: string
  ro_TargetTime :: "gotime option"
  ro_TargetXID :: "u64 option"
  ro_TargetLSN :: "LSN option"
  ro_TargetName :: string
  ro_TargetAction :: string

record Restore_Result =
  rr_BackupID :: string
  rr_Files :: nat
  rr_WAL :: nat
  rr_Bytes :: nat


section \<open>Recovery targets\<close>

definition validatePITRExclusive :: "'i Restore_Options \<Rightarrow> goerr option" where
  "validatePITRExclusive opts =
     (let count = (if ro_TargetTime opts \<noteq> None then 1 else 0) + (if ro_TargetXID opts \<noteq> None then 1 else 0)
                + (if ro_TargetLSN opts \<noteq> None then 1 else 0) + (if ro_TargetName opts \<noteq> [] then 1 else (0 :: nat))
      in if 1 < count
         then Some (errors_New ''restore: at most one of --target-time / --target-xid / --target-lsn / --target-name may be set'')
         else if ro_TargetAction opts \<noteq> [] \<and> ro_TargetAction opts \<noteq> ''pause'' \<and> ro_TargetAction opts \<noteq> ''promote'' \<and>
                 ro_TargetAction opts \<noteq> ''shutdown''
         then Some (errors_New (''restore: --target-action '' @ ro_TargetAction opts @ '' must be one of pause|promote|shutdown''))
         else None)"

definition guc_line :: "string \<Rightarrow> string \<Rightarrow> string" where
  "guc_line name v = name @ '' = '' @ [CHR 0x27] @ v @ [CHR 0x27, CHR 0x0A]"

definition pitrLines :: "'i Restore_Options \<Rightarrow> bytes option" where
  "pitrLines opts =
     (let action = (if ro_TargetAction opts = [] then ''pause'' else ro_TargetAction opts);
          target = (case ro_TargetTime opts of
                      Some t \<Rightarrow> Some (guc_line ''recovery_target_time'' (format_rfc3339_utc t))
                    | None \<Rightarrow>
                        (case ro_TargetXID opts of
                           Some x \<Rightarrow> Some (guc_line ''recovery_target_xid'' (fmt_d (unat x)))
                         | None \<Rightarrow>
                             (case ro_TargetLSN opts of
                                Some l \<Rightarrow> Some (guc_line ''recovery_target_lsn'' (LSN_String l))
                              | None \<Rightarrow>
                                  if ro_TargetName opts \<noteq> [] then Some (guc_line ''recovery_target_name'' (ro_TargetName opts))
                                  else None)))
      in map_option (\<lambda>l. l @ guc_line ''recovery_target_action'' action) target)"


section \<open>One file\<close>

text \<open>\<open>write_local\<close> is the shape of the download; \<open>io.Copy\<close> returns the number of bytes it has read.\<close>

definition restoreOneFile :: "('c, 'r, 'i) filters \<Rightarrow> ('s, 'f) OS \<Rightarrow> ('s, 'w) Backend \<Rightarrow> string \<Rightarrow> 'i list \<Rightarrow> string \<Rightarrow> string \<Rightarrow>
    string \<Rightarrow> ('s, nat) op" where
  "restoreOneFile fx os b codecName identities backupID relPath target s =
     (case b_Get b (path_Join [backupID, relPath]) s of
        (Inl e, s1) \<Rightarrow> (Inl e, s1)
      | (Inr src, s1) \<Rightarrow>
          (case Unwrap fx codecName src identities of
             Inl e \<Rightarrow> (Inl (wrapErr ''unwrap'' e), s1)
           | Inr rd \<Rightarrow>
               (case write_local os (\<lambda>m. m) (path_Join [target, relPath]) rd s1 of
                  (Inl e, s2) \<Rightarrow> (Inl e, s2)
                | (Inr _, s2) \<Rightarrow> (Inr (length (fst rd)), s2))))"

definition copyStorageFile :: "('s, 'f) OS \<Rightarrow> ('s, 'w) Backend \<Rightarrow> string \<Rightarrow> string \<Rightarrow> ('s, unit) op" where
  "copyStorageFile os b repoPath dstPath s =
     (case b_Get b repoPath s of
        (Inl e, s1) \<Rightarrow> (Inl e, s1)
      | (Inr src, s1) \<Rightarrow>
          (case o_Create os dstPath s1 of
             (Inl e, s2) \<Rightarrow> (Inl e, s2)
           | (Inr f, s2) \<Rightarrow>
               (case io_Copy (o_Write os f) src s2 of
                  (Inl e, s3) \<Rightarrow> (Inl e, snd (o_Close os f s3))
                | (Inr _, s3) \<Rightarrow> o_Close os f s3)))"


section \<open>Which backup, which files\<close>

definition findLatestBackup :: "('s, 'w) Backend \<Rightarrow> ('s, string) op" where
  "findLatestBackup b s =
     (case b_List b [] s of
        (Inl e, s1) \<Rightarrow> (Inl (wrapErr ''findLatestBackup: list'' e), s1)
      | (Inr all, s1) \<Rightarrow>
          (let ids = backup_dirs all
           in if ids = [] then (Inl (errors_New ''findLatestBackup: no backup directories found''), s1)
              else (Inr (last ids), s1)))"

text \<open>The decoder stops after the first JSON value; \<open>ManifestFile\<close> has the fields and tags of the struct of
  the same name in \<open>verify\<close>.\<close>

definition restore_parseManifestFiles :: "bytes \<Rightarrow> rawVerifyFile list res" where
  "restore_parseManifestFiles data =
     (case json_Decode data of
        None \<Rightarrow> Inl (errors_New ''invalid JSON'')
      | Some v \<Rightarrow>
          (case dec_struct_lax fields_files None v of
             None \<Rightarrow> Inl (errors_New ''json: cannot unmarshal'')
           | Some w \<Rightarrow> Inr (slice_list w)))"

definition restore_readSidecar :: "('s, 'w) Backend \<Rightarrow> string \<Rightarrow> ('s, Sidecar) op" where
  "restore_readSidecar b backupID s =
     (case b_Get b (path_Join [backupID, ''Storage-Metadata.json'']) s of
        (Inl e, s1) \<Rightarrow> (Inl e, s1)
      | (Inr rc, s1) \<Rightarrow>
          (case io_ReadAll rc of
             Inl e \<Rightarrow> (Inl e, s1)
           | Inr body \<Rightarrow> (UnmarshalSidecar body, s1)))"

fun mkdir_each :: "('s, 'f) OS \<Rightarrow> string \<Rightarrow> string \<Rightarrow> string list \<Rightarrow> ('s, unit) op" where
  "mkdir_each os m target [] s = (Inr (), s)"
| "mkdir_each os m target (d # ds) s =
     (case o_MkdirAll os (path_Join [target, d]) s of
        (Inl e, s1) \<Rightarrow> (Inl (wrapErr (m @ d) e), s1)
      | (Inr _, s1) \<Rightarrow> mkdir_each os m target ds s1)"

fun restore_files :: "('c, 'r, 'i) filters \<Rightarrow> ('s, 'f) OS \<Rightarrow> ('s, 'w) Backend \<Rightarrow> string \<Rightarrow> 'i list \<Rightarrow> string \<Rightarrow> string \<Rightarrow> string \<Rightarrow>
    rawVerifyFile list \<Rightarrow> nat \<Rightarrow> nat \<Rightarrow> ('s, nat \<times> nat) op" where
  "restore_files fx os b codecName ids m backupID target [] n bytesTotal s = (Inr (n, bytesTotal), s)"
| "restore_files fx os b codecName ids m backupID target (f # fs) n bytesTotal s =
     (case restoreOneFile fx os b codecName ids backupID (rvf_Path f) target s of
        (Inl e, s1) \<Rightarrow> (Inl (wrapErr (m @ ''file '' @ rvf_Path f) e), s1)
      | (Inr k, s1) \<Rightarrow> restore_files fx os b codecName ids m backupID target fs (n + 1) (bytesTotal + k) s1)"


section \<open>Tablespaces\<close>

text \<open>\<open>Sscanf(line, "%d %s", ..)\<close> into a \<open>uint64\<close> and a string: leading space is skipped, the space of the
  format needs a space in the line, the string ends at the next space, and the rest of the line is ignored.\<close>

fun scan_token :: "string \<Rightarrow> string" where
  "scan_token [] = []"
| "scan_token (c # cs) = (if c = CHR 0x0A \<or> 0 < space_len (c # cs) then [] else c # scan_token cs)"

definition sscanf_d_s :: "string \<Rightarrow> (nat \<times> string) option" where
  "sscanf_d_s line =
     (case skip_space line of
        None \<Rightarrow> None
      | Some t \<Rightarrow>
          (case strconv_ParseUint 64 (takeWhile is_digit t) of
             None \<Rightarrow> None
           | Some oid \<Rightarrow>
               (let r = dropWhile is_digit t
                in if r \<noteq> [] \<and> space_len r = 0 then None
                   else case skip_space r of
                          None \<Rightarrow> None
                        | Some u \<Rightarrow> if u = [] then None else Some (oid, scan_token u))))"

text \<open>\<open>strings.TrimSpace\<close>.\<close>

function trim_left :: "string \<Rightarrow> string" where
  "trim_left s =
     (if s = [] then []
      else if hd s = CHR 0x0A then trim_left (tl s)
      else if space_len s = 0 then s
      else trim_left (drop (space_len s) s))"
  by pat_completeness auto
termination
  by (relation "measure length") auto

declare trim_left.simps [simp del]

fun trim_right :: "string \<Rightarrow> string" where
  "trim_right [] = []"
| "trim_right (c # cs) = (if trim_left (c # cs) = [] then [] else c # trim_right cs)"

definition strings_TrimSpace :: "string \<Rightarrow> string" where
  "strings_TrimSpace s = trim_right (trim_left s)"

text \<open>The loop over the lines of \<open>tablespace_map\<close>; \<open>out\<close> is the new text.\<close>

definition remap_line :: "nat \<Rightarrow> string \<Rightarrow> string" where
  "remap_line oid p = fmt_d oid @ '' '' @ p @ [CHR 0x0A]"

fun remap_lines :: "('s, 'f) Host \<Rightarrow> string \<Rightarrow> (nat \<times> string) list \<Rightarrow> string list \<Rightarrow> string \<Rightarrow> ('s, string) op" where
  "remap_lines h target remap [] out s = (Inr out, s)"
| "remap_lines h target remap (line # rest) out s =
     (if line = [] then remap_lines h target remap rest out s
      else case sscanf_d_s line of
             None \<Rightarrow> (Inl (errors_New (''parse tablespace_map line '' @ line)), s)
           | Some (oid, oldPath) \<Rightarrow>
               (case map_of remap oid of
                  None \<Rightarrow> remap_lines h target remap rest (out @ remap_line oid oldPath) s
                | Some newPath \<Rightarrow>
                    (let linkPath = path_Join [target, ''pg_tblspc'', fmt_d oid]
                     in case o_Symlink h newPath linkPath (snd (o_Remove h linkPath s)) of
                          (Inl e, s2) \<Rightarrow> (Inl (wrapErr (''symlink '' @ linkPath @ '' to '' @ newPath) e), s2)
                        | (Inr _, s2) \<Rightarrow>
                            (case o_MkdirAll (h_os h) newPath s2 of
                               (Inl e, s3) \<Rightarrow> (Inl (wrapErr (''mkdir tablespace target '' @ newPath) e), s3)
                             | (Inr _, s3) \<Rightarrow> remap_lines h target remap rest (out @ remap_line oid newPath) s3))))"

definition applyTablespaceRemap :: "('s, 'f) Host \<Rightarrow> string \<Rightarrow> (nat \<times> string) list \<Rightarrow> ('s, unit) op" where
  "applyTablespaceRemap h target remap s =
     (if remap = [] then (Inr (), s)
      else
        (let mapPath = path_Join [target, ''tablespace_map'']
         in case os_ReadFile (h_os h) mapPath s of
              (Inl e, s1) \<Rightarrow> if errors_Is e ErrNotExist then (Inr (), s1) else (Inl (wrapErr ''read tablespace_map'' e), s1)
            | (Inr original, s1) \<Rightarrow>
                (case remap_lines h target remap (strings_Split (CHR 0x0A) (strings_TrimSpace original)) [] s1 of
                   (Inl e, s2) \<Rightarrow> (Inl e, s2)
                 | (Inr out, s2) \<Rightarrow>
                     (case os_WriteFile (h_os h) mapPath out s2 of
                        (Inl e, s3) \<Rightarrow> (Inl (wrapErr ''write tablespace_map'' e), s3)
                      | (Inr _, s3) \<Rightarrow> (Inr (), s3)))))"


section \<open>After the data files\<close>

definition copy_manifest :: "('s, 'f) Host \<Rightarrow> ('s, 'w) Backend \<Rightarrow> string \<Rightarrow> string \<Rightarrow> ('s, unit) op" where
  "copy_manifest h b target backupID s =
     (let manifestTarget = path_Join [target, ''backup_manifest'']
      in case o_Stat h manifestTarget s of
           (Inl e, s1) \<Rightarrow>
             if errors_Is e ErrNotExist
             then (case copyStorageFile (h_os h) b (path_Join [backupID, ''backup_manifest'']) manifestTarget s1 of
                     (Inl e', s2) \<Rightarrow> (Inl (wrapErr ''restore: copy backup_manifest'' e'), s2)
                   | (Inr _, s2) \<Rightarrow> (Inr (), s2))
             else (Inr (), s1)
         | (Inr _, s1) \<Rightarrow> (Inr (), s1))"

fun copy_wal :: "('s, 'f) OS \<Rightarrow> ('s, 'w) Backend \<Rightarrow> string \<Rightarrow> FileInfo list \<Rightarrow> nat \<Rightarrow> ('s, nat) op" where
  "copy_wal os b walTarget [] n s = (Inr n, s)"
| "copy_wal os b walTarget (w # ws) n s =
     (let base = path_Base (fi_Path w)
      in if base = fi_Path w then copy_wal os b walTarget ws n s
         else
           (let (segName, ok) = SegmentNameFromBasename base
            in if \<not> ok then copy_wal os b walTarget ws n s
               else case copyStorageFile os b (fi_Path w) (path_Join [walTarget, segName]) s of
                      (Inl e, s1) \<Rightarrow> (Inl (wrapErr (''restore: copy wal '' @ fi_Path w) e), s1)
                    | (Inr _, s1) \<Rightarrow> copy_wal os b walTarget ws (n + 1) s1))"

definition auto_conf :: "'i Restore_Options \<Rightarrow> bytes \<Rightarrow> bytes" where
  "auto_conf opts old =
     (let restoreCmd = (if ro_RestoreCommand opts = [] then ''/bin/false'' else ro_RestoreCommand opts);
          c = (if \<not> strings_Contains old ''restore_command'' then old @ [CHR 0x0A] @ guc_line ''restore_command'' restoreCmd else old)
      in case pitrLines opts of None \<Rightarrow> c | Some p \<Rightarrow> c @ p)"

definition write_config :: "('s, 'f) OS \<Rightarrow> 'i Restore_Options \<Rightarrow> ('s, unit) op" where
  "write_config os opts s =
     (let sigName = (if ro_StandbyMode opts then ''standby.signal'' else ''recovery.signal'');
          autoConfPath = path_Join [ro_Target opts, ''postgresql.auto.conf'']
      in case os_WriteFile os (path_Join [ro_Target opts, sigName]) [] s of
           (Inl e, s1) \<Rightarrow> (Inl (wrapErr (''restore: '' @ sigName) e), s1)
         | (Inr _, s1) \<Rightarrow>
             (case os_ReadFile os autoConfPath s1 of
                (r, s2) \<Rightarrow>
                  (case (case r of Inr d \<Rightarrow> Inr d | Inl e \<Rightarrow> if errors_Is e ErrNotExist then Inr [] else Inl e) of
                     Inl e \<Rightarrow> (Inl (wrapErr ''restore: read postgresql.auto.conf'' e), s2)
                   | Inr autoConf \<Rightarrow>
                       (case os_WriteFile os autoConfPath (auto_conf opts autoConf) s2 of
                          (Inl e, s3) \<Rightarrow> (Inl (wrapErr ''restore: write postgresql.auto.conf'' e), s3)
                        | (Inr _, s3) \<Rightarrow> (Inr (), s3)))))"

definition finishRestore :: "('s, 'f) Host \<Rightarrow> ('s, 'w) Backend \<Rightarrow> 'i Restore_Options \<Rightarrow> string \<Rightarrow> ('s, nat) op" where
  "finishRestore h b opts backupID s =
     (case copy_manifest h b (ro_Target opts) backupID s of
        (Inl e, s1) \<Rightarrow> (Inl e, s1)
      | (Inr _, s1) \<Rightarrow>
          (let walTarget = path_Join [ro_Target opts, ''pg_wal'']
           in case o_MkdirAll (h_os h) walTarget s1 of
                (Inl e, s2) \<Rightarrow> (Inl (wrapErr ''restore: mkdir pg_wal'' e), s2)
              | (Inr _, s2) \<Rightarrow>
                  (case b_List b ''wal'' s2 of
                     (Inl e, s3) \<Rightarrow> (Inl (wrapErr ''restore: list wal'' e), s3)
                   | (Inr walEntries, s3) \<Rightarrow>
                       (case copy_wal (h_os h) b walTarget walEntries 0 s3 of
                          (Inl e, s4) \<Rightarrow> (Inl e, s4)
                        | (Inr walCount, s4) \<Rightarrow>
                            (case applyTablespaceRemap h (ro_Target opts) (ro_TablespaceRemap opts) s4 of
                               (Inl e, s5) \<Rightarrow> (Inl (wrapErr ''restore: tablespace remap'' e), s5)
                             | (Inr _, s5) \<Rightarrow>
                                 (case write_config (h_os h) opts s5 of
                                    (Inl e, s6) \<Rightarrow> (Inl e, s6)
                                  | (Inr _, s6) \<Rightarrow> (Inr walCount, s6)))))))"


section \<open>Chains of incrementals\<close>

text \<open>\<open>buildChain\<close>: the loop of at most \<open>maxDepth\<close> steps as a recursion on the steps left.\<close>

definition maxDepth :: nat where "maxDepth = 64"

fun chain_walk :: "('s, 'w) Backend \<Rightarrow> nat \<Rightarrow> string \<Rightarrow> string list \<Rightarrow> ('s, string list) op" where
  "chain_walk b 0 d chain s = (Inl (errors_New (''backup chain depth exceeded '' @ fmt_d maxDepth @ '' (cycle?)'')), s)"
| "chain_walk b (Suc n) d chain s =
     (case restore_readSidecar b d s of
        (Inl e, s1) \<Rightarrow> (Inl (wrapErr (''read sidecar for '' @ d) e), s1)
      | (Inr sc, s1) \<Rightarrow>
          if sc_Type sc = BackupTypeFull \<or> sc_Type sc = [] then (Inr (d # chain), s1)
          else if sc_Type sc \<noteq> BackupTypeIncremental
          then (Inl (errors_New (''backup '' @ d @ '': unrecognized sidecar type '' @ sc_Type sc)), s1)
          else if sc_ParentBackupID sc = []
          then (Inl (errors_New (''incremental backup '' @ d @ '' has no parent_backup_id'')), s1)
          else chain_walk b n (sc_ParentBackupID sc) (d # chain) s1)"

definition buildChain :: "('s, 'w) Backend \<Rightarrow> string \<Rightarrow> ('s, string list) op" where
  "buildChain b leafID s = chain_walk b maxDepth leafID [] s"

text \<open>Every backup of a chain is staged with the codec of the leaf.\<close>

definition stageBackupContents :: "('c, 'r, 'i) filters \<Rightarrow> (rawVerifyFile list \<Rightarrow> rawVerifyFile list) \<Rightarrow> ('s, 'f) OS \<Rightarrow> ('s, 'w) Backend \<Rightarrow>
    'i Restore_Options \<Rightarrow> string \<Rightarrow> string \<Rightarrow> string \<Rightarrow> ('s, nat \<times> nat) op" where
  "stageBackupContents fx ord os b opts codec backupID dst s =
     (case restore_readSidecar b backupID s of
        (Inl e, s1) \<Rightarrow> (Inl e, s1)
      | (Inr sc, s1) \<Rightarrow>
          (case mkdir_each os ''mkdir '' dst (slice_list (sc_Directories sc)) s1 of
             (Inl e, s2) \<Rightarrow> (Inl e, s2)
           | (Inr _, s2) \<Rightarrow>
               (case b_Get b (path_Join [backupID, ''backup_manifest'']) s2 of
                  (Inl e, s3) \<Rightarrow> (Inl (wrapErr ''read manifest'' e), s3)
                | (Inr rc, s3) \<Rightarrow>
                    (case io_ReadAll rc of
                       Inl e \<Rightarrow> (Inl (wrapErr ''read manifest bytes'' e), s3)
                     | Inr manifestBytes \<Rightarrow>
                         (case os_WriteFile os (path_Join [dst, ''backup_manifest'']) manifestBytes s3 of
                            (Inl e, s4) \<Rightarrow> (Inl (wrapErr ''write manifest'' e), s4)
                          | (Inr _, s4) \<Rightarrow>
                              (case restore_parseManifestFiles manifestBytes of
                                 Inl e \<Rightarrow> (Inl (wrapErr ''parse manifest'' e), s4)
                               | Inr files \<Rightarrow>
                                   restore_files fx os b codec (ro_Identities opts) [] backupID dst (ord files) 0 0 s4))))))"

fun stage_chain :: "('c, 'r, 'i) filters \<Rightarrow> (rawVerifyFile list \<Rightarrow> rawVerifyFile list) \<Rightarrow> ('s, 'f) OS \<Rightarrow> ('s, 'w) Backend \<Rightarrow>
    'i Restore_Options \<Rightarrow> string \<Rightarrow> string \<Rightarrow> string list \<Rightarrow> nat \<Rightarrow> nat \<Rightarrow> ('s, nat \<times> nat) op" where
  "stage_chain fx ord os b opts codec stageRoot [] n bytesTotal s = (Inr (n, bytesTotal), s)"
| "stage_chain fx ord os b opts codec stageRoot (d # ds) n bytesTotal s =
     (let dst = path_Join [stageRoot, d]
      in case o_MkdirAll os dst s of
           (Inl e, s1) \<Rightarrow> (Inl (wrapErr (''restore: mkdir stage/'' @ d) e), s1)
         | (Inr _, s1) \<Rightarrow>
             (case stageBackupContents fx ord os b opts codec d dst s1 of
                (Inl e, s2) \<Rightarrow> (Inl (wrapErr (''restore: stage '' @ d) e), s2)
              | (Inr (fc, bc), s2) \<Rightarrow> stage_chain fx ord os b opts codec stageRoot ds (n + fc) (bytesTotal + bc) s2))"

definition stage_cleanup :: "('s, 'f) Host \<Rightarrow> string \<Rightarrow> 's \<Rightarrow> 's" where
  "stage_cleanup h stageRoot s =
     (let dbgDir = o_Getenv h ''PGSAFE_DEBUG_STAGE'';
          s1 = (if dbgDir \<noteq> [] then snd (o_Command h ''cp'' [''-a'', stageRoot, dbgDir] s) else s)
      in snd (o_RemoveAll h stageRoot s1))"

definition combine :: "('c, 'r, 'i) filters \<Rightarrow> (rawVerifyFile list \<Rightarrow> rawVerifyFile list) \<Rightarrow> ('s, 'f) Host \<Rightarrow> ('s, 'w) Backend \<Rightarrow>
    'i Restore_Options \<Rightarrow> string \<Rightarrow> string \<Rightarrow> string list \<Rightarrow> ('s, nat \<times> nat) op" where
  "combine fx ord h b opts codec stageRoot chain s =
     (case stage_chain fx ord (h_os h) b opts codec stageRoot chain 0 0 s of
        (Inl e, s1) \<Rightarrow> (Inl e, s1)
      | (Inr r, s1) \<Rightarrow>
          (case o_Command h ''pg_combinebackup''
                  (map (\<lambda>d. path_Join [stageRoot, d]) chain @ [''--output'', ro_Target opts]) s1 of
             (Inl e, s2) \<Rightarrow> (Inl (wrapErr ''restore: pg_combinebackup'' e), s2)
           | (Inr _, s2) \<Rightarrow> (Inr r, s2)))"

definition runCombineChain :: "('c, 'r, 'i) filters \<Rightarrow> (rawVerifyFile list \<Rightarrow> rawVerifyFile list) \<Rightarrow> ('s, 'f) Host \<Rightarrow> ('s, 'w) Backend \<Rightarrow>
    'i Restore_Options \<Rightarrow> string \<Rightarrow> string \<Rightarrow> ('s, nat \<times> nat) op" where
  "runCombineChain fx ord h b opts codec leafID s =
     (case o_LookPath h ''pg_combinebackup'' s of
        (Inl e, s1) \<Rightarrow> (Inl (wrapErr ''restore: pg_combinebackup not on PATH'' e), s1)
      | (Inr _, s1) \<Rightarrow>
          (case buildChain b leafID s1 of
             (Inl e, s2) \<Rightarrow> (Inl (wrapErr ''restore: build chain'' e), s2)
           | (Inr chain, s2) \<Rightarrow>
               if length chain < 2
               then (Inl (errors_New (''restore: chain has '' @ fmt_d (length chain) @ '' entries; expected at least full + 1 incremental'')), s2)
               else
                 (case o_MkdirTemp h (path_Dir (ro_Target opts)) ''.pgsafe-stage-'' s2 of
                    (Inl e, s3) \<Rightarrow> (Inl (wrapErr ''restore: mkdir stage'' e), s3)
                  | (Inr stageRoot, s3) \<Rightarrow>
                      (case combine fx ord h b opts codec stageRoot chain s3 of
                         (r, s4) \<Rightarrow> (r, stage_cleanup h stageRoot s4)))))"


section \<open>A whole restore\<close>

definition restore_full :: "('c, 'r, 'i) filters \<Rightarrow> (rawVerifyFile list \<Rightarrow> rawVerifyFile list) \<Rightarrow> ('s, 'f) Host \<Rightarrow> ('s, 'w) Backend \<Rightarrow>
    'i Restore_Options \<Rightarrow> string \<Rightarrow> Sidecar \<Rightarrow> string \<Rightarrow> ('s, nat \<times> nat) op" where
  "restore_full fx ord h b opts codecName sc backupID s =
     (case b_Get b (path_Join [backupID, ''backup_manifest'']) s of
        (Inl e, s1) \<Rightarrow> (Inl (wrapErr ''restore: read manifest'' e), s1)
      | (Inr rc, s1) \<Rightarrow>
          (case io_ReadAll rc of
             Inl e \<Rightarrow> (Inl (wrapErr ''restore: read manifest bytes'' e), s1)
           | Inr manifestBytes \<Rightarrow>
               (case restore_parseManifestFiles manifestBytes of
                  Inl e \<Rightarrow> (Inl (wrapErr ''restore: parse manifest'' e), s1)
                | Inr files \<Rightarrow>
                    (case mkdir_each (h_os h) ''restore: mkdir '' (ro_Target opts) (slice_list (sc_Directories sc)) s1 of
                       (Inl e, s2) \<Rightarrow> (Inl e, s2)
                     | (Inr _, s2) \<Rightarrow>
                         restore_files fx (h_os h) b codecName (ro_Identities opts) ''restore: '' backupID (ro_Target opts)
                           (ord files) 0 0 s2))))"

text \<open>The codec of a sidecar, and the backup to restore.\<close>

definition restore_codec :: "Sidecar \<Rightarrow> string res" where
  "restore_codec sc =
     (case compression_Get (strings_SplitN2 (CHR '':'') (sc_Compression sc) ! 0) of
        Inl e \<Rightarrow> Inl (wrapErr ''restore: codec from sidecar'' e)
      | Inr c \<Rightarrow> Inr c)"

definition run_sidecar :: "('s, 'w) Backend \<Rightarrow> string \<Rightarrow> ('s, Sidecar \<times> string) op" where
  "run_sidecar b backupID s =
     (case b_Get b (path_Join [backupID, ''Storage-Metadata.json'']) s of
        (Inl e, s1) \<Rightarrow> (Inl (wrapErr ''restore: read sidecar'' e), s1)
      | (Inr rc, s1) \<Rightarrow>
          (case io_ReadAll rc of
             Inl e \<Rightarrow> (Inl (wrapErr ''restore: read sidecar bytes'' e), s1)
           | Inr body \<Rightarrow>
               (case UnmarshalSidecar body of
                  Inl e \<Rightarrow> (Inl (wrapErr ''restore: parse sidecar'' e), s1)
                | Inr sc \<Rightarrow> (map_sum (\<lambda>e. e) (\<lambda>c. (sc, c)) (restore_codec sc), s1))))"

definition run_backup :: "('c, 'r, 'i) filters \<Rightarrow> (rawVerifyFile list \<Rightarrow> rawVerifyFile list) \<Rightarrow> ('s, 'f) Host \<Rightarrow> ('s, 'w) Backend \<Rightarrow>
    'i Restore_Options \<Rightarrow> string \<Rightarrow> ('s, Restore_Result) op" where
  "run_backup fx ord h b opts backupID s =
     (case o_MkdirAll (h_os h) (ro_Target opts) s of
        (Inl e, s1) \<Rightarrow> (Inl (wrapErr ''restore: mkdir target'' e), s1)
      | (Inr _, s1) \<Rightarrow>
          (case run_sidecar b backupID s1 of
             (Inl e, s2) \<Rightarrow> (Inl e, s2)
           | (Inr (sc, codecName), s2) \<Rightarrow>
               (case (if sc_Type sc = BackupTypeIncremental then runCombineChain fx ord h b opts codecName backupID s2
                      else restore_full fx ord h b opts codecName sc backupID s2) of
                  (Inl e, s3) \<Rightarrow> (Inl e, s3)
                | (Inr (fileCount, bytesTotal), s3) \<Rightarrow>
                    (case finishRestore h b opts backupID s3 of
                       (Inl e, s4) \<Rightarrow> (Inl e, s4)
                     | (Inr walCount, s4) \<Rightarrow>
                         (Inr \<lparr>rr_BackupID = backupID, rr_Files = fileCount, rr_WAL = walCount, rr_Bytes = bytesTotal\<rparr>, s4)))))"

definition Run :: "('c, 'r, 'i) filters \<Rightarrow> (rawVerifyFile list \<Rightarrow> rawVerifyFile list) \<Rightarrow> ('s, 'f) Host \<Rightarrow> ('s, 'w) Backend \<Rightarrow>
    'i Restore_Options \<Rightarrow> ('s, Restore_Result) op" where
  "Run fx ord h b opts s =
     (if ro_Target opts = [] then (Inl (errors_New ''restore: Target is required''), s)
      else if \<not> filepath_IsAbs (ro_Target opts) then (Inl (errors_New (''restore: Target '' @ ro_Target opts @ '' must be absolute'')), s)
      else if ro_Identities opts = [] then (Inl (errors_New ''restore: Identities required''), s)
      else case validatePITRExclusive opts of
             Some e \<Rightarrow> (Inl e, s)
           | None \<Rightarrow>
               if ro_BackupID opts \<noteq> [] then run_backup fx ord h b opts (ro_BackupID opts) s
               else
                 (case findLatestBackup b s of
                    (Inl e, s1) \<Rightarrow> (Inl e, s1)
                  | (Inr backupID, s1) \<Rightarrow> run_backup fx ord h b opts backupID s1))"

text \<open>\<open>LoadIdentityFile\<close>, with \<open>age.ParseIdentities\<close> as \<open>parse\<close>.\<close>

definition LoadIdentityFile :: "(bytes \<Rightarrow> 'i list res) \<Rightarrow> ('s, 'f) OS \<Rightarrow> string \<Rightarrow> ('s, 'i list) op" where
  "LoadIdentityFile parse os p s =
     (case os_ReadFile os p s of
        (Inl e, s1) \<Rightarrow> (Inl (wrapErr ''identity-file'' e), s1)
      | (Inr data, s1) \<Rightarrow>
          (case parse data of
             Inl e \<Rightarrow> (Inl (wrapErr ''identity-file: parse'' e), s1)
           | Inr ids \<Rightarrow> if ids = [] then (Inl (errors_New ''identity-file: no identities found''), s1) else (Inr ids, s1)))"

end
