(* ===== verification/Restore_Facts.thy ===== *)
theory Restore_Facts
  imports Restore "HOL-Library.Multiset"
begin

text \<open>
  What a restore promises. The locale \<open>restore_host\<close> says what it relies on: a storage and the host's
  files that do not get into each other's way. It is interpreted on the POSIX driver with the target
  directory on the same file system, apart from the storage's root.
\<close>

lemma Unwrap_fails:
  assumes "\<forall>ids. fails_through (fx_Decrypt fx ids)" "\<forall>c. fails_through (fx_NewReader fx c)"
    "Unwrap fx codec rc ids = Inr src" "snd src = None"
  shows "snd rc = None"
proof -
  obtain c where c: "ids \<noteq> []" "compression_Get codec = Inr c" using assms(3) by (auto simp: Unwrap_def split: if_splits sum.splits)
  then have "decode_stored fx (Some c) ids rc = Inr src"
    using assms(3) by (auto simp: Unwrap_def decode_stored_def split: sum.splits)
  then show ?thesis by (rule decode_fails [OF assms(1,2) _ assms(4)])
qed

text \<open>The content of a file as the storage holds it, decrypted and decompressed.\<close>

definition restored :: "('c, 'r, 'i) filters \<Rightarrow> string \<Rightarrow> 'i list \<Rightarrow> (string \<Rightarrow> bytes option) \<Rightarrow> string \<Rightarrow> string \<Rightarrow> bytes option" where
  "restored fx codec ids v backupID rel =
     (case v (path_Join [backupID, rel]) of
        None \<Rightarrow> None
      | Some raw \<Rightarrow> (case Unwrap fx codec (raw, None) ids of Inr (d, None) \<Rightarrow> Some d | _ \<Rightarrow> None))"

text \<open>The segment an object below \<open>wal\<close> is restored as.\<close>

definition wal_name :: "string \<Rightarrow> string option" where
  "wal_name k = (let base = path_Base k in if base = k then None else if snd (SegmentNameFromBasename base) then Some (take 24 base) else None)"

lemma wal_name_clean:
  assumes "wal_name k = Some g"
  shows "clean_rel (''pg_wal'' @ CHR ''/'' # g)" "clean_rel g"
proof -
  have g: "g = take 24 (path_Base k)" "length (path_Base k) = 89"
    using assms by (auto simp: wal_name_def SegmentNameFromBasename_def Let_def split: if_splits)
  then have "CHR ''/'' \<notin> set (path_Base k)" using path_Base_cases [of k] by auto
  then have "CHR ''/'' \<notin> set g" using g(1) by (auto dest: in_set_takeD)
  moreover have "length g = 24" using g by simp
  ultimately have "plain_comp g" by (auto simp: plain_comp_def)
  then show "clean_rel g" using \<open>CHR ''/'' \<notin> set g\<close> by (simp add: clean_rel_single)
  moreover have "clean_rel ''pg_wal''" by code_simp
  ultimately show "clean_rel (''pg_wal'' @ CHR ''/'' # g)" using clean_rel_append [of "''pg_wal''" g] by simp
qed

text \<open>The files of the target that are written after the data files.\<close>

definition late_file :: "string \<Rightarrow> bool" where
  "late_file f \<longleftrightarrow> f \<in> {''backup_manifest'', ''standby.signal'', ''recovery.signal'', ''postgresql.auto.conf''} \<or> strings_HasPrefix f ''pg_wal/''"

definition signal_file :: "'i Restore_Options \<Rightarrow> string" where
  "signal_file opts = (if ro_StandbyMode opts then ''standby.signal'' else ''recovery.signal'')"

locale restore_host = storage_backend B view key inv writing + local_files os content lpath linv ready handle
  for B :: "('s, 'w) Backend" and view key inv writing
    and os :: "('s, 'f) OS" and content lpath linv ready handle +
  fixes outside :: "string \<Rightarrow> bool"
  assumes inv_linv: "inv s \<Longrightarrow> linv s"
    and get_content: "inv s \<Longrightarrow> b_Get B p s = (rg, s') \<Longrightarrow> content s' = content s"
    and list_content: "inv s \<Longrightarrow> b_List B p s = (rl, s') \<Longrightarrow> content s' = content s"
    and frame: "inv s \<Longrightarrow> linv s' \<Longrightarrow> \<forall>q. \<not> outside q \<longrightarrow> content s' q = content s q \<Longrightarrow> inv s' \<and> view s' = view s"
    and create_at: "linv s \<Longrightarrow> lpath p \<Longrightarrow> o_Create os p s = (Inr f, s') \<Longrightarrow> ready s p"
    and mkdir_at: "linv s \<Longrightarrow> clean_abs p \<Longrightarrow> o_MkdirAll os p s = (ru, s') \<Longrightarrow> linv s' \<and> content s' = content s"
    and open_missing: "linv s \<Longrightarrow> o_Open os p s = (Inl e, s') \<Longrightarrow> errors_Is e ErrNotExist \<Longrightarrow> content s p = None"
    and read_error: "o_Open os p s = (Inr (d, Some e), s') \<Longrightarrow> \<not> errors_Is e ErrNotExist"
begin

definition target_file :: "string \<Rightarrow> bool" where
  "target_file p \<longleftrightarrow> lpath p \<and> outside p"

text \<open>\<open>same s s'\<close>: as far as storage and files go, nothing has happened.\<close>

definition same :: "'s \<Rightarrow> 's \<Rightarrow> bool" where
  "same s s' \<longleftrightarrow> inv s' \<and> view s' = view s \<and> content s' = content s"

text \<open>\<open>put s p d s'\<close>: the host's file \<open>p\<close> has been written.\<close>

definition put :: "'s \<Rightarrow> string \<Rightarrow> bytes \<Rightarrow> 's \<Rightarrow> bool" where
  "put s p d s' \<longleftrightarrow> inv s' \<and> view s' = view s \<and> content s' = (content s)(p \<mapsto> d)"

lemma putI:
  assumes "inv s" "target_file p" "linv s'" "content s' = (content s)(p \<mapsto> d)"
  shows "put s p d s'"
proof -
  have "\<forall>q. \<not> outside q \<longrightarrow> content s' q = content s q" using assms(2,4) by (auto simp: target_file_def)
  from frame [OF assms(1,3) this] assms(4) show ?thesis by (simp add: put_def)
qed

lemma sameI:
  assumes "inv s" "linv s'" "content s' = content s"
  shows "same s s'"
proof -
  have "\<forall>q. \<not> outside q \<longrightarrow> content s' q = content s q" using assms(3) by simp
  from frame [OF assms(1,2) this] assms(3) show ?thesis by (simp add: same_def)
qed

lemma same_trans: "same s t \<Longrightarrow> same t u \<Longrightarrow> same s u"
  by (simp add: same_def)

lemma same_get: "inv s \<Longrightarrow> key p \<Longrightarrow> b_Get B p s = (rg, s') \<Longrightarrow> same s s'"
  using get [of s p rg s'] get_content [of s p rg s'] by (simp add: same_def)

lemma same_mkdir:
  assumes "inv s" "clean_abs p" "o_MkdirAll os p s = (ru, s')"
  shows "same s s'"
  using sameI [OF assms(1)] mkdir_at [OF inv_linv [OF assms(1)] assms(2,3)] by blast

lemma ReadFile_facts:
  assumes "inv s" "os_ReadFile os p s = (x, s')"
  shows "same s s' \<and> (\<forall>d. x = Inr d \<longrightarrow> content s p = Some d) \<and> (\<forall>e. x = Inl e \<and> errors_Is e ErrNotExist \<longrightarrow> content s p = None)"
proof -
  obtain rd s1 where o: "o_Open os p s = (rd, s1)" by fastforce
  have l: "linv s" by (rule inv_linv [OF assms(1)])
  have s': "s' = s1" using assms(2) o by (auto simp: os_ReadFile_def split: sum.splits)
  have "linv s1" "content s1 = content s" using open_keeps [OF l o] by auto
  then have sm: "same s s1" by (rule sameI [OF assms(1)])
  show ?thesis
  proof (cases rd)
    case (Inl e)
    then have "x = Inl e" using assms(2) o by (simp add: os_ReadFile_def)
    then show ?thesis using sm s' open_missing [OF l, of p e s1] o Inl by auto
  next
    case (Inr rr)
    then have x: "x = io_ReadAll rr" using assms(2) o by (simp add: os_ReadFile_def)
    obtain d y where rr: "rr = (d, y)" by (cases rr)
    show ?thesis
    proof (cases y)
      case None
      then show ?thesis using sm s' x open_data [OF l, of p d s1] o Inr rr by (simp add: io_ReadAll_def)
    next
      case (Some e)
      then show ?thesis using sm s' x read_error [of p s d e s1] o Inr rr by (simp add: io_ReadAll_def)
    qed
  qed
qed

lemma WriteFile_ok:
  assumes "inv s" "target_file p" "os_WriteFile os p d s = (Inr u, s')"
  shows "put s p d s'"
proof -
  have l: "linv s" by (rule inv_linv [OF assms(1)])
  have lp: "lpath p" using assms(2) by (simp add: target_file_def)
  obtain f s1 where 1: "o_Create os p s = (Inr f, s1)"
    using assms(3) by (auto simp: os_WriteFile_def split: prod.splits sum.splits)
  with assms(3) obtain v s2 where 2: "o_Write os f d s1 = (Inr v, s2)"
    by (auto simp: os_WriteFile_def split: prod.splits sum.splits)
  with 1 assms(3) have 3: "o_Close os f s2 = (Inr u, s')" by (simp add: os_WriteFile_def)
  have a: "linv s1" "content s1 = (content s)(p \<mapsto> [])" "handle s1 f p []"
    using create_ok [OF l lp create_at [OF l lp 1] 1] by auto
  have b: "linv s2" "content s2 = (content s)(p \<mapsto> d)" "handle s2 f p d" using fwrite_ok [OF a(1,3) 2] a(2) by auto
  from fclose_keeps [OF b(1,3) 3] b(2) show ?thesis by (intro putI [OF assms(1,2)]) auto
qed

lemma copyStorageFile_ok:
  assumes "inv s" "key k" "target_file p" "copyStorageFile os B k p s = (Inr u, s')"
  shows "\<exists>d. view s k = Some d \<and> put s p d s'"
proof -
  have lp: "lpath p" using assms(3) by (simp add: target_file_def)
  obtain src s1 where 1: "b_Get B k s = (Inr src, s1)"
    using assms(4) by (auto simp: copyStorageFile_def split: prod.splits sum.splits)
  with assms(4) obtain f s2 where 2: "o_Create os p s1 = (Inr f, s2)"
    by (auto simp: copyStorageFile_def split: prod.splits sum.splits)
  with 1 assms(4) obtain n s3 where 3: "io_Copy (o_Write os f) src s2 = (Inr n, s3)"
    by (auto simp: copyStorageFile_def split: prod.splits sum.splits)
  with 1 2 assms(4) have 4: "o_Close os f s3 = (Inr u, s')" by (simp add: copyStorageFile_def)
  have sm: "inv s1" "view s1 = view s" "content s1 = content s" using same_get [OF assms(1,2) 1] by (auto simp: same_def)
  note l = inv_linv [OF sm(1)]
  have b: "linv s2" "content s2 = (content s)(p \<mapsto> [])" "handle s2 f p []"
    using create_ok [OF l lp create_at [OF l lp 2] 2] sm(3) by auto
  have c: "linv s3" "handle s3 f p (fst src)" "content s3 = (content s)(p \<mapsto> fst src)" "snd src = None"
    using fsink.copy_ok [of s2 f "(p, content s)" "[]" src n s3] b 3 by auto
  have "view s k = Some (fst src)" using get_data [OF assms(1,2), of "fst src" s1] 1 c(4) by (metis prod.collapse)
  moreover have "put s p (fst src) s'" using fclose_keeps [OF c(1,2) 4] c(3) by (intro putI [OF assms(1,3)]) auto
  ultimately show ?thesis by blast
qed

text \<open>A directory to restore into, and the files a run of calls may have changed.\<close>

definition target_dir :: "string \<Rightarrow> bool" where
  "target_dir t \<longleftrightarrow> clean_abs t \<and> (\<forall>rel. clean_rel rel \<longrightarrow> target_file (t @ CHR ''/'' # rel))"

definition only :: "string set \<Rightarrow> 's \<Rightarrow> 's \<Rightarrow> bool" where
  "only P s s' \<longleftrightarrow> inv s' \<and> view s' = view s \<and> (\<forall>q. q \<notin> P \<longrightarrow> content s' q = content s q)"

lemma only_trans: "only P s t \<Longrightarrow> only Q t u \<Longrightarrow> only (P \<union> Q) s u"
  by (simp add: only_def)

lemma only_same: "same s s' \<Longrightarrow> only P s s'"
  by (simp add: only_def same_def)

lemma only_put: "put s p d s' \<Longrightarrow> p \<in> P \<Longrightarrow> only P s s'"
  by (auto simp: only_def put_def)

lemma target_dirD:
  assumes "target_dir t" "clean_rel rel"
  shows "path_Join [t, rel] = t @ CHR ''/'' # rel" "target_file (t @ CHR ''/'' # rel)" "clean_abs (t @ CHR ''/'' # rel)"
  using assms by (auto simp: target_dir_def path_Join_abs clean_abs_append)

lemma restoreOneFile_ok:
  assumes "\<forall>ids. fails_through (fx_Decrypt fx ids)" "\<forall>c. fails_through (fx_NewReader fx c)"
    "inv s" "key (path_Join [d, rel])" "target_dir t" "clean_rel rel" "restoreOneFile fx os B codec ids d rel t s = (Inr n, s')"
  shows "\<exists>x. restored fx codec ids (view s) d rel = Some x \<and> n = length x \<and> put s (t @ CHR ''/'' # rel) x s'"
proof -
  note t = target_dirD [OF assms(5,6)]
  obtain src s1 where 1: "b_Get B (path_Join [d, rel]) s = (Inr src, s1)"
    using assms(7) by (auto simp: restoreOneFile_def split: prod.splits sum.splits)
  with assms(7) obtain rd where 2: "Unwrap fx codec src ids = Inr rd"
    by (auto simp: restoreOneFile_def split: prod.splits sum.splits)
  with 1 assms(7) obtain u where 3: "write_local os (\<lambda>m. m) (t @ CHR ''/'' # rel) rd s1 = (Inr u, s')" "n = length (fst rd)"
    by (auto simp: restoreOneFile_def t(1) split: prod.splits sum.splits)
  have sm: "inv s1" "view s1 = view s" "content s1 = content s" using same_get [OF assms(3,4) 1] by (auto simp: same_def)
  have lp: "lpath (t @ CHR ''/'' # rel)" using t(2) by (simp add: target_file_def)
  have w: "linv s'" "content s' = (content s1)(t @ CHR ''/'' # rel \<mapsto> fst rd)" "snd rd = None"
    using write_local_ok [OF inv_linv [OF sm(1)] lp 3(1)] by auto
  have "snd src = None" by (rule Unwrap_fails [OF assms(1,2) 2 w(3)])
  then obtain raw where raw: "src = (raw, None)" by (cases src) auto
  then have v: "view s (path_Join [d, rel]) = Some raw" using get_data [OF assms(3,4)] 1 by blast
  have "restored fx codec ids (view s) d rel = Some (fst rd)" using v 2 raw w(3) by (cases rd) (simp add: restored_def)
  moreover have "put s (t @ CHR ''/'' # rel) (fst rd) s'" using w sm(3) by (intro putI [OF assms(3) t(2)]) auto
  ultimately show ?thesis using 3(2) by blast
qed

lemma restore_files_ok:
  assumes "\<forall>ids. fails_through (fx_Decrypt fx ids)" "\<forall>c. fails_through (fx_NewReader fx c)" "target_dir t"
  shows "inv s \<Longrightarrow> \<forall>f \<in> set fs. key (path_Join [d, rvf_Path f]) \<and> clean_rel (rvf_Path f) \<Longrightarrow>
    restore_files fx os B codec ids m d t fs n0 b0 s = (Inr (n, b), s') \<Longrightarrow>
    only ((\<lambda>f. t @ CHR ''/'' # rvf_Path f) ` set fs) s s' \<and> n = n0 + length fs \<and>
    (\<forall>f \<in> set fs. \<exists>x. restored fx codec ids (view s) d (rvf_Path f) = Some x \<and> content s' (t @ CHR ''/'' # rvf_Path f) = Some x) \<and>
    b = b0 + (\<Sum>f \<leftarrow> fs. length (the (restored fx codec ids (view s) d (rvf_Path f))))"
proof (induction fs arbitrary: s n0 b0)
  case Nil
  then show ?case by (simp add: only_def)
next
  case (Cons f fs)
  obtain k s1 where 1: "restoreOneFile fx os B codec ids d (rvf_Path f) t s = (Inr k, s1)"
    and 2: "restore_files fx os B codec ids m d t fs (n0 + 1) (b0 + k) s1 = (Inr (n, b), s')"
    using Cons.prems(3) by (auto split: prod.splits sum.splits)
  obtain x where x: "restored fx codec ids (view s) d (rvf_Path f) = Some x" "k = length x" "put s (t @ CHR ''/'' # rvf_Path f) x s1"
    using restoreOneFile_ok [OF assms(1,2) Cons.prems(1) _ assms(3) _ 1] Cons.prems(2) by auto
  have s1: "inv s1" "view s1 = view s" "content s1 = (content s)(t @ CHR ''/'' # rvf_Path f \<mapsto> x)" using x(3) by (auto simp: put_def)
  have prem: "\<forall>f \<in> set fs. key (path_Join [d, rvf_Path f]) \<and> clean_rel (rvf_Path f)" using Cons.prems(2) by simp
  note ih = Cons.IH [OF s1(1) prem 2, unfolded s1(2)]
  have "content s' (t @ CHR ''/'' # rvf_Path f) = Some x"
  proof (cases "t @ CHR ''/'' # rvf_Path f \<in> (\<lambda>f. t @ CHR ''/'' # rvf_Path f) ` set fs")
    case True
    then obtain g where g: "g \<in> set fs" "rvf_Path g = rvf_Path f" by auto
    then show ?thesis using ih x(1) by metis
  next
    case False
    then show ?thesis using ih s1(3) by (simp add: only_def)
  qed
  moreover have "only ((\<lambda>f. t @ CHR ''/'' # rvf_Path f) ` set (f # fs)) s s'" using ih s1 by (auto simp: only_def)
  ultimately show ?case using ih x by auto
qed

lemma mkdir_each_ok:
  assumes "target_dir t"
  shows "inv s \<Longrightarrow> \<forall>x \<in> set ds. clean_rel x \<Longrightarrow> mkdir_each os m t ds s = (x, s') \<Longrightarrow> same s s'"
proof (induction ds arbitrary: s)
  case (Cons e ds)
  obtain r1 s1 where 1: "o_MkdirAll os (path_Join [t, e]) s = (r1, s1)" by fastforce
  have c: "clean_abs (path_Join [t, e])" using target_dirD [OF assms, of e] Cons.prems(2) by simp
  have sm: "same s s1" by (rule same_mkdir [OF Cons.prems(1) c 1])
  show ?case
  proof (cases r1)
    case (Inl e)
    then show ?thesis using Cons.prems(3) 1 sm by auto
  next
    case (Inr u)
    have "same s1 s'" using Cons.IH [of s1] sm Cons.prems(2,3) 1 Inr by (simp add: same_def)
    with sm show ?thesis by (rule same_trans)
  qed
qed (simp add: same_def)

lemma copy_wal_ok:
  assumes "target_dir t"
  shows "inv s \<Longrightarrow> \<forall>w \<in> set ws. key (fi_Path w) \<Longrightarrow> copy_wal os B (path_Join [t, ''pg_wal'']) ws n0 s = (Inr n, s') \<Longrightarrow>
    only {t @ ''/pg_wal/'' @ g | g. True} s s' \<and>
    (\<forall>q. (\<forall>w \<in> set ws. \<forall>g. wal_name (fi_Path w) = Some g \<longrightarrow> q \<noteq> t @ ''/pg_wal/'' @ g) \<longrightarrow> content s' q = content s q) \<and>
    (\<forall>w \<in> set ws. \<forall>g. wal_name (fi_Path w) = Some g \<longrightarrow>
       (\<exists>w' \<in> set ws. wal_name (fi_Path w') = Some g \<and> view s (fi_Path w') \<noteq> None \<and> content s' (t @ ''/pg_wal/'' @ g) = view s (fi_Path w')))"
proof (induction ws arbitrary: s n0)
  case (Cons w ws)
  have prem: "\<forall>w \<in> set ws. key (fi_Path w)" using Cons.prems(2) by simp
  show ?case
  proof (cases "wal_name (fi_Path w)")
    case None
    then have "copy_wal os B (path_Join [t, ''pg_wal'']) ws n0 s = (Inr n, s')"
      using Cons.prems(3) by (auto simp: wal_name_def Let_def split: if_splits prod.splits)
    from Cons.IH [OF Cons.prems(1) prem this] None show ?thesis by auto
  next
    case (Some g)
    let ?p = "t @ ''/pg_wal/'' @ g"
    have "path_Join [path_Join [t, ''pg_wal''], g] = ?p"
    proof -
      have w: "clean_rel ''pg_wal''" by code_simp
      from target_dirD [OF assms w] have "path_Join [t, ''pg_wal''] = t @ ''/pg_wal''" "clean_abs (t @ ''/pg_wal'')" by simp_all
      then show ?thesis using path_Join_abs [of "t @ ''/pg_wal''" g] wal_name_clean [OF Some] by simp
    qed
    moreover have sg: "SegmentNameFromBasename (path_Base (fi_Path w)) = (g, True)" "path_Base (fi_Path w) \<noteq> fi_Path w"
      using Some by (auto simp: wal_name_def Let_def SegmentNameFromBasename_def split: if_splits)
    ultimately obtain u s1 where 1: "copyStorageFile os B (fi_Path w) ?p s = (Inr u, s1)"
      and 2: "copy_wal os B (path_Join [t, ''pg_wal'']) ws (n0 + 1) s1 = (Inr n, s')"
      using Cons.prems(3) by (auto simp: Let_def split: prod.splits sum.splits)
    have "target_file ?p" using target_dirD(2) [OF assms wal_name_clean(1) [OF Some]] by simp
    then obtain x where x: "view s (fi_Path w) = Some x" "put s ?p x s1"
      using copyStorageFile_ok [OF Cons.prems(1) _ _ 1] Cons.prems(2) by auto
    have s1: "inv s1" "view s1 = view s" "content s1 = (content s)(?p \<mapsto> x)" using x(2) by (auto simp: put_def)
    note ih = Cons.IH [OF s1(1) prem 2, unfolded s1(2)]
    have got: "\<exists>w' \<in> set (w # ws). wal_name (fi_Path w') = Some g \<and> view s (fi_Path w') \<noteq> None \<and> content s' ?p = view s (fi_Path w')"
    proof (cases "\<exists>v \<in> set ws. wal_name (fi_Path v) = Some g")
      case True
      then have "\<exists>w' \<in> set ws. wal_name (fi_Path w') = Some g \<and> view s (fi_Path w') \<noteq> None \<and> content s' ?p = view s (fi_Path w')"
        using ih by blast
      then show ?thesis by (meson list.set_intros(2))
    next
      case False
      then have "\<forall>v \<in> set ws. \<forall>h. wal_name (fi_Path v) = Some h \<longrightarrow> ?p \<noteq> t @ ''/pg_wal/'' @ h" by auto
      then have "content s' ?p = content s1 ?p" using ih by blast
      then show ?thesis using x(1) s1(3) Some by auto
    qed
    have "only {t @ ''/pg_wal/'' @ g | g. True} s s'" using ih s1 by (auto simp: only_def)
    moreover have "content s' q = content s q" if "\<forall>v \<in> set (w # ws). \<forall>h. wal_name (fi_Path v) = Some h \<longrightarrow> q \<noteq> t @ ''/pg_wal/'' @ h" for q
    proof -
      have "\<forall>v \<in> set ws. \<forall>h. wal_name (fi_Path v) = Some h \<longrightarrow> q \<noteq> t @ ''/pg_wal/'' @ h" "q \<noteq> ?p" using that Some by simp_all
      then have "content s' q = content s1 q" "q \<noteq> ?p" using ih by blast+
      then show ?thesis using s1(3) by simp
    qed
    moreover have "\<exists>w' \<in> set (w # ws). wal_name (fi_Path w') = Some h \<and> view s (fi_Path w') \<noteq> None \<and> content s' (t @ ''/pg_wal/'' @ h) = view s (fi_Path w')"
      if h: "v \<in> set (w # ws)" "wal_name (fi_Path v) = Some h" for v h
    proof (cases "v = w")
      case True
      then have "h = g" using h(2) Some by simp
      then show ?thesis using got by blast
    next
      case False
      then have "v \<in> set ws" using h(1) by simp
      then have "\<exists>w' \<in> set ws. wal_name (fi_Path w') = Some h \<and> view s (fi_Path w') \<noteq> None \<and> content s' (t @ ''/pg_wal/'' @ h) = view s (fi_Path w')"
        using ih h(2) by blast
      then show ?thesis by (meson list.set_intros(2))
    qed
    ultimately show ?thesis by blast
  qed
qed (simp add: only_def)

lemma copy_manifest_ok:
  assumes "inv s" "target_dir t" "key (path_Join [d, ''backup_manifest''])" "h_os h = os"
    "\<forall>p s x s'. inv s \<longrightarrow> o_Stat h p s = (x, s') \<longrightarrow> same s s'"
    "copy_manifest h B t d s = (Inr u, s')"
  shows "only {t @ ''/backup_manifest''} s s'"
proof -
  have c: "clean_rel ''backup_manifest''" by code_simp
  note t = target_dirD [OF assms(2) c]
  obtain x s1 where 1: "o_Stat h (t @ ''/backup_manifest'') s = (x, s1)" by fastforce
  have sm: "same s s1" by (rule assms(5) [rule_format, OF assms(1) 1])
  show ?thesis
  proof (cases "s' = s1")
    case True
    then show ?thesis using sm by (simp add: only_same)
  next
    case False
    then obtain v where "copyStorageFile os B (path_Join [d, ''backup_manifest'']) (t @ ''/backup_manifest'') s1 = (Inr v, s')"
      using assms(6) 1 t(1) assms(4) by (auto simp: copy_manifest_def Let_def split: sum.splits prod.splits if_splits)
    from copyStorageFile_ok [OF _ assms(3) _ this] sm t(2) show ?thesis by (auto simp: same_def put_def only_def)
  qed
qed

lemma write_config_ok:
  assumes "inv s" "target_dir (ro_Target opts)" "write_config os opts s = (Inr u, s')"
  shows "only {ro_Target opts @ ''/'' @ f | f. f \<in> {''standby.signal'', ''recovery.signal'', ''postgresql.auto.conf''}} s s' \<and>
    content s' (ro_Target opts @ ''/'' @ (if ro_StandbyMode opts then ''standby.signal'' else ''recovery.signal'')) = Some [] \<and>
    content s' (ro_Target opts @ ''/postgresql.auto.conf'') =
      Some (auto_conf opts (case content s (ro_Target opts @ ''/postgresql.auto.conf'') of Some c \<Rightarrow> c | None \<Rightarrow> []))"
proof -
  define sig where "sig = (if ro_StandbyMode opts then ''standby.signal'' else ''recovery.signal'')"
  have c: "clean_rel ''postgresql.auto.conf''" "clean_rel ''standby.signal''" "clean_rel ''recovery.signal''" by code_simp+
  then have cs: "clean_rel sig" by (simp add: sig_def)
  note t = target_dirD [OF assms(2) c(1)] target_dirD [OF assms(2) cs]
  let ?a = "ro_Target opts @ ''/postgresql.auto.conf''" and ?g = "ro_Target opts @ CHR ''/'' # sig"
  obtain v s1 where 1: "os_WriteFile os ?g [] s = (Inr v, s1)"
    using assms(3) t(4) by (auto simp: write_config_def Let_def sig_def split: prod.splits sum.splits)
  obtain x s2 where 2: "os_ReadFile os ?a s1 = (x, s2)" by fastforce
  have p1: "put s ?g [] s1" using WriteFile_ok [OF assms(1) t(5) 1] .
  have s1: "inv s1" "view s1 = view s" "content s1 = (content s)(?g \<mapsto> [])" using p1 by (auto simp: put_def)
  note r = ReadFile_facts [OF s1(1) 2]
  have ne: "?a \<noteq> ?g" by (simp add: sig_def)
  obtain c where c: "(case x of Inr d \<Rightarrow> Inr d | Inl e \<Rightarrow> if errors_Is e ErrNotExist then Inr [] else Inl e) = Inr c"
    and 3: "os_WriteFile os ?a (auto_conf opts c) s2 = (Inr (), s')"
    using assms(3) 1 2 t(1,4) by (auto simp: write_config_def Let_def sig_def [symmetric] split: prod.splits sum.splits if_splits)
  have c': "c = (case content s ?a of Some c \<Rightarrow> c | None \<Rightarrow> [])"
  proof (cases x)
    case (Inl e)
    then have "errors_Is e ErrNotExist" "c = []" using c by (auto split: if_splits)
    then show ?thesis using r Inl s1(3) ne by auto
  next
    case (Inr y)
    then have "content s1 ?a = Some c" using r c by simp
    then show ?thesis using s1(3) ne by simp
  qed
  have s2: "inv s2" "view s2 = view s" "content s2 = content s1" using r s1 by (auto simp: same_def)
  have tf: "target_file ?a" using t(2) by simp
  have p3: "inv s'" "view s' = view s" "content s' = (content s)(?g \<mapsto> [], ?a \<mapsto> auto_conf opts c)"
    using WriteFile_ok [OF s2(1) tf 3] s2 s1 by (auto simp: put_def)
  show ?thesis unfolding sig_def [symmetric] using p3 ne c' by (auto simp: only_def sig_def)
qed

lemma finishRestore_ok:
  assumes "inv s" "target_dir (ro_Target opts)" "key (path_Join [d, ''backup_manifest''])" "key ''wal''" "h_os h = os"
    "\<forall>p s x s'. inv s \<longrightarrow> o_Stat h p s = (x, s') \<longrightarrow> same s s'"
    "ro_TablespaceRemap opts = []" "finishRestore h B opts d s = (Inr n, s')"
  shows "only {ro_Target opts @ ''/'' @ f | f. late_file f} s s' \<and>
    content s' (ro_Target opts @ ''/'' @ signal_file opts) = Some [] \<and>
    content s' (ro_Target opts @ ''/postgresql.auto.conf'') =
      Some (auto_conf opts (case content s (ro_Target opts @ ''/postgresql.auto.conf'') of Some c \<Rightarrow> c | None \<Rightarrow> [])) \<and>
    (\<forall>k g. view s k \<noteq> None \<and> listed ''wal'' k \<and> wal_name k = Some g \<longrightarrow>
       (\<exists>k'. listed ''wal'' k' \<and> wal_name k' = Some g \<and> view s k' \<noteq> None \<and> content s' (ro_Target opts @ ''/pg_wal/'' @ g) = view s k'))"
proof -
  let ?t = "ro_Target opts"
  obtain u s1 where 1: "copy_manifest h B ?t d s = (Inr u, s1)"
    using assms(8) by (auto simp: finishRestore_def Let_def split: prod.splits sum.splits)
  with assms(8) obtain u2 s2 where 2: "o_MkdirAll os (path_Join [?t, ''pg_wal'']) s1 = (Inr u2, s2)"
    by (auto simp: finishRestore_def Let_def assms(5) split: prod.splits sum.splits)
  with 1 assms(8) obtain ws s3 where 3: "b_List B ''wal'' s2 = (Inr ws, s3)"
    by (auto simp: finishRestore_def Let_def assms(5) split: prod.splits sum.splits)
  with 1 2 assms(8) obtain m s4 where 4: "copy_wal os B (path_Join [?t, ''pg_wal'']) ws 0 s3 = (Inr m, s4)"
    by (auto simp: finishRestore_def Let_def assms(5) split: prod.splits sum.splits)
  with 1 2 3 assms(7,8) obtain u5 where 5: "write_config os opts s4 = (Inr u5, s')"
    by (auto simp: finishRestore_def Let_def assms(5) applyTablespaceRemap_def split: prod.splits sum.splits)
  note c1 = copy_manifest_ok [OF assms(1-3) assms(5) assms(6) 1]
  have i1: "inv s1" "view s1 = view s" using c1 by (auto simp: only_def)
  have "clean_rel ''pg_wal''" by code_simp
  from same_mkdir [OF i1(1) _ 2] target_dirD [OF assms(2) this] have i2: "inv s2" "view s2 = view s" "content s2 = content s1"
    using i1 by (auto simp: same_def)
  have i3: "inv s3" "view s3 = view s" "content s3 = content s1"
    using list [OF i2(1) _ 3] list_content [OF i2(1) 3] assms(4) i2 by auto
  have lk: "set (map fi_Path ws) = {k. view s k \<noteq> None \<and> listed ''wal'' k}"
    using list_keys [OF i2(1) _ 3] assms(4) i2(2) by auto
  then have "\<forall>w \<in> set ws. key (fi_Path w)" using view_key [OF assms(1)] by auto
  note c4 = copy_wal_ok [OF assms(2) i3(1) this 4, unfolded i3]
  have i4: "inv s4" "view s4 = view s" using c4 i3 by (auto simp: only_def)
  note c5 = write_config_ok [OF i4(1) assms(2) 5]
  have ac: "content s4 (?t @ ''/postgresql.auto.conf'') = content s (?t @ ''/postgresql.auto.conf'')"
    using c4 c1 i3 by (simp add: only_def)
  have on: "only {?t @ ''/'' @ f | f. late_file f} s s'"
  proof -
    have "content s' q = content s q" if q: "q \<notin> {?t @ ''/'' @ f | f. late_file f}" for q
    proof -
      have n: "q \<noteq> ?t @ ''/'' @ f" if "late_file f" for f using q that by blast
      have "q \<noteq> ?t @ ''/backup_manifest''" using n [of "''backup_manifest''"] by (simp add: late_file_def)
      then have "content s1 q = content s q" using c1 by (simp add: only_def)
      moreover have "q \<noteq> ?t @ ''/pg_wal/'' @ g" for g using n [of "''pg_wal/'' @ g"] by (simp add: late_file_def)
      then have "content s4 q = content s1 q" using c4 i3 by (simp add: only_def)
      moreover have "q \<notin> {?t @ ''/'' @ f | f. f \<in> {''standby.signal'', ''recovery.signal'', ''postgresql.auto.conf''}}"
      proof
        assume "q \<in> {?t @ ''/'' @ f | f. f \<in> {''standby.signal'', ''recovery.signal'', ''postgresql.auto.conf''}}"
        then obtain f where f: "q = ?t @ ''/'' @ f" "f \<in> {''standby.signal'', ''recovery.signal'', ''postgresql.auto.conf''}" by blast
        then have "late_file f" unfolding late_file_def by blast
        with n f(1) show False by blast
      qed
      then have "content s' q = content s4 q" using c5 by (simp add: only_def)
      ultimately show ?thesis by simp
    qed
    moreover have "inv s'" "view s' = view s" using c5 i4 by (auto simp: only_def)
    ultimately show ?thesis by (simp add: only_def)
  qed
  have wal: "\<exists>k'. listed ''wal'' k' \<and> wal_name k' = Some g \<and> view s k' \<noteq> None \<and> content s' (?t @ ''/pg_wal/'' @ g) = view s k'"
    if k: "view s k \<noteq> None" "listed ''wal'' k" "wal_name k = Some g" for k g
  proof -
    have "k \<in> set (map fi_Path ws)" unfolding lk using k by blast
    then obtain w where w: "w \<in> set ws" "fi_Path w = k" by auto
    then obtain w' where w': "w' \<in> set ws" "wal_name (fi_Path w') = Some g" "view s (fi_Path w') \<noteq> None"
      "content s4 (?t @ ''/pg_wal/'' @ g) = view s (fi_Path w')" using c4 k(3) by blast
    have "fi_Path w' \<in> set (map fi_Path ws)" using w'(1) by simp
    then have "listed ''wal'' (fi_Path w')" unfolding lk by simp
    moreover have "content s' (?t @ ''/pg_wal/'' @ g) = content s4 (?t @ ''/pg_wal/'' @ g)" using c5 by (simp add: only_def)
    ultimately show ?thesis using w' by metis
  qed
  show ?thesis unfolding signal_file_def by (intro conjI allI impI on) (use c5 ac wal in \<open>auto simp only:\<close>)
qed

lemma run_backup_ok:
  assumes "\<forall>ids. fails_through (fx_Decrypt fx ids)" "\<forall>c. fails_through (fx_NewReader fx c)"
    "inv s" "target_dir (ro_Target opts)" "key (path_Join [d, ''backup_manifest''])" "key (path_Join [d, ''Storage-Metadata.json''])"
    "key ''wal''" "h_os h = os" "\<forall>p s x s'. inv s \<longrightarrow> o_Stat h p s = (x, s') \<longrightarrow> same s s'" "ro_TablespaceRemap opts = []"
    "view s (path_Join [d, ''Storage-Metadata.json'']) = Some sb" "UnmarshalSidecar sb = Inr sc" "sc_Type sc \<noteq> BackupTypeIncremental"
    "\<forall>x \<in> set (slice_list (sc_Directories sc)). clean_rel x"
    "view s (path_Join [d, ''backup_manifest'']) = Some mb" "restore_parseManifestFiles mb = Inr files"
    "\<forall>f \<in> set files. key (path_Join [d, rvf_Path f]) \<and> clean_rel (rvf_Path f)" "mset (ord files) = mset files"
    "run_backup fx ord h B opts d s = (Inr res, s')"
  shows "\<exists>codec s1. restore_codec sc = Inr codec \<and> inv s1 \<and> view s1 = view s \<and>
    only ((\<lambda>f. ro_Target opts @ CHR ''/'' # rvf_Path f) ` set files) s s1 \<and> rr_Files res = length files \<and>
    (\<forall>f \<in> set files. \<exists>x. restored fx codec (ro_Identities opts) (view s) d (rvf_Path f) = Some x \<and>
        content s1 (ro_Target opts @ CHR ''/'' # rvf_Path f) = Some x) \<and>
    rr_Bytes res = (\<Sum>f \<leftarrow> files. length (the (restored fx codec (ro_Identities opts) (view s) d (rvf_Path f)))) \<and>
    finishRestore h B opts d s1 = (Inr (rr_WAL res), s')"
proof -
  obtain u s1 where 1: "o_MkdirAll os (ro_Target opts) s = (Inr u, s1)"
    using assms(19) by (auto simp: run_backup_def assms(8) split: prod.splits sum.splits)
  have "clean_abs (ro_Target opts)" using assms(4) by (simp add: target_dir_def)
  from same_mkdir [OF assms(3) this 1] have i1: "inv s1" "view s1 = view s" "content s1 = content s" by (auto simp: same_def)
  obtain g s2 where g: "b_Get B (path_Join [d, ''Storage-Metadata.json'']) s1 = (g, s2)" by fastforce
  have i2: "inv s2" "view s2 = view s" "content s2 = content s" using same_get [OF i1(1) assms(6) g] i1 by (auto simp: same_def)
  have run: "run_sidecar B d s1 = (fst (run_sidecar B d s1), s2)" using g by (auto simp: run_sidecar_def split: sum.splits)
  obtain sc' codec where sc': "fst (run_sidecar B d s1) = Inr (sc', codec)"
    using assms(19) 1 run by (cases "fst (run_sidecar B d s1)") (auto simp: run_backup_def assms(8) split: prod.splits sum.splits)
  have "sc' = sc \<and> restore_codec sc = Inr codec"
  proof -
    obtain rc where rc: "g = Inr rc" using sc' g by (cases g) (auto simp: run_sidecar_def)
    obtain body where b: "io_ReadAll rc = Inr body" using sc' g rc by (cases "io_ReadAll rc") (auto simp: run_sidecar_def)
    then have "rc = (body, None)" by (cases rc) (auto simp: io_ReadAll_def split: option.splits)
    then have "body = sb" using get_data [OF i1(1) assms(6)] g rc i1(2) assms(11) by fastforce
    then show ?thesis using sc' g rc b assms(12) by (cases "restore_codec sc") (auto simp: run_sidecar_def)
  qed
  then have sc: "run_sidecar B d s1 = (Inr (sc, codec), s2)" "restore_codec sc = Inr codec" using run sc' by auto
  obtain n b s3 where 3: "restore_full fx ord h B opts codec sc d s2 = (Inr (n, b), s3)"
    using assms(19,13) 1 sc(1) by (auto simp: run_backup_def assms(8) split: prod.splits sum.splits)
  have res: "finishRestore h B opts d s3 = (Inr (rr_WAL res), s')" "rr_Files res = n" "rr_Bytes res = b"
    using assms(19,13) 1 sc(1) 3 by (auto simp: run_backup_def assms(8) split: prod.splits sum.splits)
  obtain m s4 where m: "b_Get B (path_Join [d, ''backup_manifest'']) s2 = (m, s4)" by fastforce
  have i4: "inv s4" "view s4 = view s" "content s4 = content s" using same_get [OF i2(1) assms(5) m] i2 by (auto simp: same_def)
  obtain rc body where rc: "m = Inr rc" "io_ReadAll rc = Inr body"
    using 3 m by (cases m) (auto simp: restore_full_def split: sum.splits)
  then have "rc = (body, None)" by (cases rc) (auto simp: io_ReadAll_def split: option.splits)
  then have body: "body = mb" using get_data [OF i2(1) assms(5)] m rc i2(2) assms(15) by fastforce
  obtain s5 where 5: "mkdir_each os ''restore: mkdir '' (ro_Target opts) (slice_list (sc_Directories sc)) s4 = (Inr (), s5)"
    and 6: "restore_files fx os B codec (ro_Identities opts) ''restore: '' d (ro_Target opts) (ord files) 0 0 s5 = (Inr (n, b), s3)"
    using 3 m rc body assms(16) by (auto simp: restore_full_def assms(8) split: sum.splits prod.splits)
  have i5: "inv s5" "view s5 = view s" "content s5 = content s"
    using mkdir_each_ok [OF assms(4) i4(1) assms(14) 5] i4 by (auto simp: same_def)
  have so: "set (ord files) = set files" "length (ord files) = length files"
    using assms(18) by (auto dest: mset_eq_setD mset_eq_length)
  have ks: "\<forall>f \<in> set (ord files). key (path_Join [d, rvf_Path f]) \<and> clean_rel (rvf_Path f)" using assms(17) so by simp
  note r = restore_files_ok [OF assms(1,2,4) i5(1) ks 6, unfolded so i5]
  have sm: "(\<Sum>f \<leftarrow> ord files. F f) = (\<Sum>f \<leftarrow> files. F f)" for F :: "rawVerifyFile \<Rightarrow> nat"
    using assms(18) by (metis mset_map sum_mset_sum_list)
  have on: "only ((\<lambda>f. ro_Target opts @ CHR ''/'' # rvf_Path f) ` set files) s s3" using r i5 by (simp add: only_def)
  then have "inv s3" "view s3 = view s" by (simp_all add: only_def)
  with on r sc(2) res show ?thesis unfolding sm by (intro exI [of _ codec] exI [of _ s3]) simp
qed

end

section \<open>On the POSIX driver\<close>

text \<open>A path outside a storage's root, and a target directory apart from it.\<close>

definition outside_root :: "PosixBackend \<Rightarrow> string \<Rightarrow> bool" where
  "outside_root r q \<longleftrightarrow> q \<noteq> pb_root r \<and> \<not> strings_HasPrefix q (pb_root r @ ''/'')"

definition apart :: "PosixBackend \<Rightarrow> string \<Rightarrow> bool" where
  "apart r t \<longleftrightarrow> clean_abs t \<and> \<not> strings_HasPrefix (t @ ''/'') (pb_root r @ ''/'') \<and> \<not> strings_HasPrefix (pb_root r @ ''/'') (t @ ''/'')"

interpretation prestore: restore_host "posix_backend r" "posix_view r" posix_key "posix_inv r" "posix_writing r"
  pfs_os file_at local_path fs_ok dir_ready open_file "outside_root r"
proof (unfold_locales, goal_cases)
  case (1 s)
  then show ?case by (simp add: posix_inv_def)
next
  case (2 s p rg s')
  then have "quiet s s'" using quiet_calls(2) by (auto simp: posix_backend_def posix_Get_def split: sum.splits prod.splits) (metis snd_conv)+
  then show ?case by (simp add: quietD)
next
  case (3 s p rl s')
  then show ?case using quietD [OF quiet_calls(1)]
    by (auto simp: posix_backend_def posix_List_def split: sum.splits prod.splits option.splits if_splits) (metis snd_conv)+
next
  case (4 s s')
  then have "file_at s' (pb_root r) = file_at s (pb_root r)" "file_at s' (under_root r k) = file_at s (under_root r k)" for k
    by (auto simp: outside_root_def under_root_def)
  then show ?case using 4(1,2) by (auto simp: posix_inv_def posix_view_def fun_eq_iff)
next
  case (5 s p f s')
  obtain b where p: "p = path_Dir p @ CHR ''/'' # b" "CHR ''/'' \<notin> set b" "path_Dir p \<noteq> []"
    using local_path_split [OF 5(2)] by blast
  have "path_Dir p \<in> set (ancestors (path_Dir p @ CHR ''/'' # b))" unfolding ancestors_step [OF p(2,3)] by simp
  then have a: "path_Dir p \<in> set (ancestors p)" by (simp only: p(1) [symmetric])
  from 5(3) show ?case
    using fs_okD(5) [OF 5(1) _ a] lookup_simps(2) [of p s]
    by (auto simp: pfs_os_def os_Create_def dir_ready_def is_dir_def Let_def split: option.splits sum.splits node.splits if_splits)
next
  case (6 s p ru s')
  then show ?case using os_MkdirAll_facts [of s p] by (simp add: pfs_os_def)
next
  case (7 s p e s')
  then show ?case
    by (auto simp: pfs_os_def os_Open_def fault_now_def file_at_def split: option.splits sum.splits node.splits prod.splits dest: lookup_simps)
next
  case (8 p s d e s')
  then show ?case
    by (auto simp: pfs_os_def os_Open_def EISDIR_def split: option.splits sum.splits node.splits prod.splits)
qed

lemma apart_target:
  assumes "apart r t"
  shows "prestore.target_dir r t"
proof -
  have t: "clean_abs t" using assms by (simp add: apart_def)
  have "local_path (t @ CHR ''/'' # rel)" if rel: "clean_rel rel" for rel
    using rel
  proof (cases rule: clean_rel_last)
    case single
    then show ?thesis using t rel by (simp add: local_path_def clean_abs_append path_Dir_append)
  next
    case (nested a b)
    have c: "clean_abs (t @ CHR ''/'' # a)" using t nested by (simp add: clean_abs_append)
    have "path_Dir (t @ CHR ''/'' # rel) = t @ CHR ''/'' # a" using path_Dir_append [OF c nested(2)] by (simp add: nested(1))
    with c t rel show ?thesis by (simp add: local_path_def clean_abs_append)
  qed
  moreover have "outside_root r (t @ CHR ''/'' # rel)" for rel
    unfolding outside_root_def
  proof (intro conjI notI)
    assume "t @ CHR ''/'' # rel = pb_root r"
    then have e: "pb_root r = t @ CHR ''/'' # rel" by simp
    have "strings_HasPrefix (pb_root r @ ''/'') (t @ ''/'')" unfolding e by (simp add: prefix_def)
    with assms show False by (simp add: apart_def)
  next
    assume "strings_HasPrefix (t @ CHR ''/'' # rel) (pb_root r @ ''/'')"
    moreover have "strings_HasPrefix (t @ CHR ''/'' # rel) (t @ ''/'')" by (simp add: prefix_def)
    ultimately have "strings_HasPrefix (t @ ''/'') (pb_root r @ ''/'') \<or> strings_HasPrefix (pb_root r @ ''/'') (t @ ''/'')"
      using prefix_same_cases by blast
    with assms show False by (simp add: apart_def)
  qed
  ultimately show ?thesis using t unfolding prestore.target_dir_def prestore.target_file_def by blast
qed

text \<open>A host whose file calls are those of the file system; its other calls may do anything.\<close>

definition pfs_stat :: "string \<Rightarrow> (pfs, unit) op" where
  "pfs_stat p s = (case os_Stat p s of (Inl e, s1) \<Rightarrow> (Inl e, s1) | (Inr _, s1) \<Rightarrow> (Inr (), s1))"

definition pfs_host :: "(pfs, nat) Host \<Rightarrow> (pfs, nat) Host" where
  "pfs_host h = h\<lparr>h_os := pfs_os, o_Stat := pfs_stat\<rparr>"

lemma pfs_stat_same: "posix_inv r s \<Longrightarrow> pfs_stat p s = (x, s') \<Longrightarrow> prestore.same r s s'"
  using quietD [OF quiet_calls(1) [where s = s and p = p]]
  by (auto simp: pfs_stat_def prestore.same_def posix_inv_def posix_view_def fun_eq_iff split: prod.splits sum.splits)

text \<open>What the theorems below assume of a full backup in the storage and of the options.\<close>

definition restorable :: "PosixBackend \<Rightarrow> pfs \<Rightarrow> 'i Restore_Options \<Rightarrow> Sidecar \<Rightarrow> rawVerifyFile list \<Rightarrow> bool" where
  "restorable r s opts sc files \<longleftrightarrow>
     posix_inv r s \<and> apart r (ro_Target opts) \<and> ro_BackupID opts \<noteq> [] \<and> clean_rel (ro_BackupID opts) \<and> ro_TablespaceRemap opts = [] \<and>
     (\<exists>sb. posix_view r s (path_Join [ro_BackupID opts, ''Storage-Metadata.json'']) = Some sb \<and> UnmarshalSidecar sb = Inr sc) \<and>
     sc_Type sc \<noteq> BackupTypeIncremental \<and> list_all clean_rel (slice_list (sc_Directories sc)) \<and>
     (\<exists>mb. posix_view r s (path_Join [ro_BackupID opts, ''backup_manifest'']) = Some mb \<and> restore_parseManifestFiles mb = Inr files) \<and>
     list_all (\<lambda>f. clean_rel (rvf_Path f) \<and> posix_key (path_Join [ro_BackupID opts, rvf_Path f])) files"

lemma Run_ok:
  assumes "\<forall>ids. fails_through (fx_Decrypt fx ids)" "\<forall>c. fails_through (fx_NewReader fx c)" "restorable r s opts sc files"
    "\<forall>fs. mset (ord fs) = mset fs" "Run fx ord (pfs_host h) (posix_backend r) opts s = (Inr res, s')"
  shows "\<exists>codec s1. restore_codec sc = Inr codec \<and> posix_inv r s1 \<and> posix_view r s1 = posix_view r s \<and>
    (\<forall>q. q \<notin> (\<lambda>f. ro_Target opts @ ''/'' @ rvf_Path f) ` set files \<longrightarrow> file_at s1 q = file_at s q) \<and> rr_Files res = length files \<and>
    (\<forall>f \<in> set files. \<exists>x. restored fx codec (ro_Identities opts) (posix_view r s) (ro_BackupID opts) (rvf_Path f) = Some x \<and>
        file_at s1 (ro_Target opts @ ''/'' @ rvf_Path f) = Some x) \<and>
    rr_Bytes res = (\<Sum>f \<leftarrow> files. length (the (restored fx codec (ro_Identities opts) (posix_view r s) (ro_BackupID opts) (rvf_Path f)))) \<and>
    (\<forall>q. q \<notin> {ro_Target opts @ ''/'' @ f | f. late_file f} \<longrightarrow> file_at s' q = file_at s1 q) \<and> posix_view r s' = posix_view r s \<and>
    file_at s' (ro_Target opts @ ''/'' @ signal_file opts) = Some [] \<and>
    file_at s' (ro_Target opts @ ''/postgresql.auto.conf'') =
      Some (auto_conf opts (case file_at s1 (ro_Target opts @ ''/postgresql.auto.conf'') of Some c \<Rightarrow> c | None \<Rightarrow> [])) \<and>
    (\<forall>k g. posix_view r s k \<noteq> None \<and> listed ''wal'' k \<and> wal_name k = Some g \<longrightarrow>
       (\<exists>k'. listed ''wal'' k' \<and> wal_name k' = Some g \<and> posix_view r s k' \<noteq> None \<and> file_at s' (ro_Target opts @ ''/pg_wal/'' @ g) = posix_view r s k'))"
proof -
  let ?d = "ro_BackupID opts"
  obtain sb mb where w: "posix_inv r s" "apart r (ro_Target opts)" "?d \<noteq> []" "ro_TablespaceRemap opts = []"
    "posix_view r s (path_Join [?d, ''Storage-Metadata.json'']) = Some sb" "UnmarshalSidecar sb = Inr sc" "sc_Type sc \<noteq> BackupTypeIncremental"
    "\<forall>x \<in> set (slice_list (sc_Directories sc)). clean_rel x"
    "posix_view r s (path_Join [?d, ''backup_manifest'']) = Some mb" "restore_parseManifestFiles mb = Inr files"
    "\<forall>f \<in> set files. posix_key (path_Join [?d, rvf_Path f]) \<and> clean_rel (rvf_Path f)"
    using assms(3) unfolding restorable_def list_all_iff by blast
  have "posix_key ''wal''" by code_simp
  then have keys: "posix_key (path_Join [?d, ''backup_manifest''])" "posix_key (path_Join [?d, ''Storage-Metadata.json''])" "posix_key ''wal''"
    using pstore.view_key [OF w(1)] w(5,9) by simp_all
  have run: "run_backup fx ord (pfs_host h) (posix_backend r) opts ?d s = (Inr res, s')"
    using assms(5) w(3) by (auto simp: Run_def split: if_splits option.splits)
  have h: "h_os (pfs_host h) = pfs_os" by (simp add: pfs_host_def)
  have st: "\<forall>p s x s'. posix_inv r s \<longrightarrow> o_Stat (pfs_host h) p s = (x, s') \<longrightarrow> prestore.same r s s'"
    using pfs_stat_same by (simp add: pfs_host_def)
  note t = apart_target [OF w(2)]
  have ord: "mset (ord files) = mset files" using assms(4) by blast
  from prestore.run_backup_ok [OF assms(1,2) w(1) t keys h st w(4-11) ord run]
  obtain codec s1 where 1: "restore_codec sc = Inr codec" "posix_inv r s1" "posix_view r s1 = posix_view r s"
    "prestore.only r ((\<lambda>f. ro_Target opts @ CHR ''/'' # rvf_Path f) ` set files) s s1" "rr_Files res = length files"
    "\<forall>f \<in> set files. \<exists>x. restored fx codec (ro_Identities opts) (posix_view r s) ?d (rvf_Path f) = Some x \<and>
        file_at s1 (ro_Target opts @ CHR ''/'' # rvf_Path f) = Some x"
    "rr_Bytes res = (\<Sum>f \<leftarrow> files. length (the (restored fx codec (ro_Identities opts) (posix_view r s) ?d (rvf_Path f))))"
    "finishRestore (pfs_host h) (posix_backend r) opts ?d s1 = (Inr (rr_WAL res), s')" by blast
  note f = prestore.finishRestore_ok [OF 1(2) t keys(1,3) h st w(4) 1(8), unfolded 1(3)]
  show ?thesis
    using 1(1-7) f unfolding prestore.only_def by (intro exI [of _ codec] exI [of _ s1]) simp
qed

end
