(* ===== verification/Restore_Total.thy ===== *)
theory Restore_Total
  imports Restore_Facts Posix_Dirs
begin

text \<open>
  A restore succeeds. On a file system without faults every call of a restore into an empty target goes
  through: \<open>layout\<close> says which directories and files it will make and that none stands in the way of
  another, \<open>room\<close> is what stays true meanwhile.
\<close>

section \<open>Calls that succeed\<close>

lemma healthy_now [simp]: "healthy s \<Longrightarrow> fault_now s = None" "healthy s \<Longrightarrow> fs_fault s n = None"
  by (simp_all add: healthy_def fault_now_def)

lemma mkdir_chain_works:
  "healthy s \<Longrightarrow> \<forall>a \<in> set as. file_at s a = None \<Longrightarrow> \<exists>s'. mkdir_chain as s = (Inr (), s') \<and> healthy s'"
proof (induction as arbitrary: s)
  case (Cons a as)
  show ?case
  proof (cases "map_of (fs_now s) a")
    case None
    define s1 where "s1 = snd (os_Mkdir a s)"
    have mk: "os_Mkdir a s = (Inr (), s1)" using Cons.prems(1) by (simp add: os_Mkdir_def s1_def)
    have "healthy s1" using Cons.prems(1) by (simp add: os_Mkdir_def s1_def healthy_def fault_now_def tick_def)
    moreover have "\<forall>b \<in> set as. file_at s1 b = None"
      using Cons.prems by (auto simp: os_Mkdir_def s1_def fault_now_def healthy_def tick_def file_at_def update_conv' split: option.splits node.splits)
    ultimately show ?thesis using Cons.IH [of s1] None mk by simp
  next
    case (Some n)
    then have "n = NDir" using Cons.prems(2) by (cases n) (auto simp: file_at_def)
    then show ?thesis using Cons.IH [of s] Cons.prems Some by simp
  qed
qed simp

lemma lookup_in_dir:
  assumes "fs_ok s" "local_path p" "path_Dir p \<in> dirs s" "map_of (fs_now s) p = None"
  shows "lookup p s = Inl ENOENT"
proof -
  obtain b where p: "p = path_Dir p @ CHR ''/'' # b" "CHR ''/'' \<notin> set b" "path_Dir p \<noteq> []" using local_path_split [OF assms(2)] by blast
  have "set (ancestors (path_Dir p @ CHR ''/'' # b)) = insert (path_Dir p) (set (ancestors (path_Dir p)))" by (rule ancestors_step [OF p(2,3)])
  then have "set (ancestors p) = insert (path_Dir p) (set (ancestors (path_Dir p)))" by (simp only: p(1) [symmetric])
  then have "\<forall>a \<in> set (ancestors p). map_of (fs_now s) a = Some NDir"
    using assms(3) fs_okD(5) [OF assms(1), of "path_Dir p" NDir] by (auto simp: dirs_def)
  then show ?thesis using assms(4) by (auto simp: lookup_def list_ex_iff)
qed

lemma os_Create_works:
  assumes "fs_ok s" "healthy s" "local_path p" "path_Dir p \<in> dirs s" "p \<notin> dirs s"
  shows "\<exists>i s'. os_Create p s = (Inr i, s') \<and> healthy s' \<and> dirs s' = dirs s"
proof (cases "map_of (fs_now s) p")
  case None
  have "lookup p s = Inl ENOENT" by (rule lookup_in_dir [OF assms(1,3,4) None])
  then show ?thesis using assms(2,4) None
    by (auto simp: os_Create_def Let_def ENOENT_def is_dir_def dirs_def healthy_def fault_now_def tick_def update_conv')
next
  case (Some n)
  then obtain i where "n = NFile i" using assms(5) by (cases n) (auto simp: dirs_def)
  then show ?thesis using assms(2) Some by (auto simp: os_Create_def lookup_def healthy_def fault_now_def tick_def dirs_def)
qed

lemma write_chunks_works: "healthy s \<Longrightarrow> \<exists>s'. write_chunks (fd_Write i) cs s = (Inr (), s') \<and> healthy s' \<and> dirs s' = dirs s"
proof (induction cs arbitrary: s)
  case (Cons c cs)
  define s1 where "s1 = snd (fd_Write i c s)"
  have "fd_Write i c s = (Inr (), s1)" using Cons.prems by (simp add: fd_Write_def s1_def Let_def)
  moreover have "healthy s1" "dirs s1 = dirs s" using Cons.prems by (simp_all add: fd_Write_def s1_def Let_def healthy_def tick_def dirs_def)
  ultimately show ?case using Cons.IH [of s1] by auto
qed simp

text \<open>Creating a file, copying into it and closing it.\<close>

lemma create_copy_works:
  assumes "fs_ok s" "healthy s" "local_path p" "path_Dir p \<in> dirs s" "p \<notin> dirs s"
  shows "\<exists>i s1 s2 s3. os_Create p s = (Inr i, s1) \<and> io_Copy (fd_Write i) (d, None) s1 = (Inr (length d), s2) \<and> fd_Close s2 = (Inr (), s3) \<and>
    healthy s3 \<and> dirs s3 = dirs s"
proof -
  obtain i s1 where 1: "os_Create p s = (Inr i, s1)" "healthy s1" "dirs s1 = dirs s" using os_Create_works [OF assms] by blast
  obtain s2 where 2: "write_chunks (fd_Write i) (split_chunks 32768 d) s1 = (Inr (), s2)" "healthy s2" "dirs s2 = dirs s1"
    using write_chunks_works [OF 1(2)] by blast
  have "io_Copy (fd_Write i) (d, None) s1 = (Inr (length d), s2)" using 2(1) by (simp add: io_Copy_def)
  moreover have "fd_Close s2 = (Inr (), tick s2)" using 2(2) by (simp add: fd_Close_def)
  moreover have "dirs (tick s2) = dirs s2" by (simp add: dirs_def tick_def)
  ultimately show ?thesis using 1 2 by (metis healthy_tick)
qed

lemma create_write_works:
  assumes "fs_ok s" "healthy s" "local_path p" "path_Dir p \<in> dirs s" "p \<notin> dirs s"
  shows "\<exists>s'. os_WriteFile pfs_os p d s = (Inr (), s') \<and> healthy s' \<and> dirs s' = dirs s"
proof -
  obtain i s1 where 1: "os_Create p s = (Inr i, s1)" "healthy s1" "dirs s1 = dirs s" using os_Create_works [OF assms] by blast
  obtain s2 where 2: "write_chunks (fd_Write i) [d] s1 = (Inr (), s2)" "healthy s2" "dirs s2 = dirs s1"
    using write_chunks_works [OF 1(2)] by blast
  then have "fd_Write i d s1 = (Inr (), s2)" by (auto split: prod.splits sum.splits)
  moreover have "fd_Close s2 = (Inr (), tick s2)" using 2(2) by (simp add: fd_Close_def)
  moreover have "dirs (tick s2) = dirs s2" by (simp add: dirs_def tick_def)
  ultimately show ?thesis using 1 2 by (simp add: os_WriteFile_def pfs_os_def)
qed


section \<open>Room for a restore\<close>

definition layout :: "PosixBackend \<Rightarrow> pfs \<Rightarrow> string set \<Rightarrow> string set \<Rightarrow> bool" where
  "layout r s0 ND FF \<longleftrightarrow>
     (\<forall>p \<in> ND. clean_abs p \<and> set (ancestors p) \<subseteq> ND \<and> file_at s0 p = None) \<and>
     (\<forall>p \<in> FF. local_path p \<and> outside_root r p \<and> p \<notin> ND \<and> p \<notin> dirs s0) \<and> FF \<inter> ND = {}"

definition room :: "PosixBackend \<Rightarrow> pfs \<Rightarrow> string set \<Rightarrow> string set \<Rightarrow> pfs \<Rightarrow> bool" where
  "room r s0 ND FF s \<longleftrightarrow>
     healthy s \<and> posix_inv r s \<and> posix_view r s = posix_view r s0 \<and> dirs s0 \<subseteq> dirs s \<and> dirs s \<subseteq> dirs s0 \<union> ND \<and>
     (\<forall>q. file_at s q \<noteq> None \<longrightarrow> file_at s0 q \<noteq> None \<or> q \<in> FF)"

lemma dirs_tick [simp]: "dirs (tick s) = dirs s"
  by (simp add: dirs_def tick_def)

lemma room_tick [simp]: "room r s0 ND FF (tick s) = room r s0 ND FF s"
  by (simp add: room_def)

lemma room_mkdir:
  assumes "layout r s0 ND FF" "room r s0 ND FF s" "p \<in> ND"
  shows "\<exists>s'. os_MkdirAll p s = (Inr (), s') \<and> room r s0 ND FF s' \<and> p \<in> dirs s' \<and> dirs s \<subseteq> dirs s'"
proof -
  have p: "clean_abs p" "set (ancestors p) \<subseteq> ND" using assms(1,3) by (auto simp: layout_def)
  have none: "file_at s a = None" if "a \<in> set (ancestors p @ [p])" for a
  proof -
    have "a \<in> ND" using that p(2) assms(3) by auto
    then have "file_at s0 a = None" "a \<notin> FF" using assms(1) by (auto simp: layout_def)
    then show ?thesis using assms(2) by (auto simp: room_def)
  qed
  have i: "posix_inv r s" "healthy s" using assms(2) by (auto simp: room_def)
  obtain s' where m: "os_MkdirAll p s = (Inr (), s')" "healthy s'"
    using mkdir_chain_works [OF i(2), of "ancestors p @ [p]"] none unfolding os_MkdirAll_def by blast
  have ok: "fs_ok s" using i(1) by (simp add: posix_inv_def)
  have f: "\<forall>q n. map_of (fs_now s) q = Some n \<longrightarrow> map_of (fs_now s') q = Some n" "is_dir p s'"
    using os_MkdirAll_facts [OF ok p(1)] m(1) by auto
  have d: "dirs s' \<subseteq> dirs s \<union> set (ancestors p @ [p])" using mkdir_chain_dirs [of "ancestors p @ [p]" s] m(1) by (simp add: os_MkdirAll_def)
  have sm: "prestore.same r s s'" using prestore.same_mkdir [OF i(1) p(1), of "Inr ()" s'] m(1) by (simp add: pfs_os_def)
  have "dirs s \<subseteq> dirs s'" using f(1) by (auto simp: dirs_def)
  moreover have "dirs s' \<subseteq> dirs s0 \<union> ND" using d p(2) assms(2,3) by (auto simp: room_def)
  ultimately have "room r s0 ND FF s'" using assms(2) m(2) sm by (auto simp: room_def prestore.same_def)
  then show ?thesis using m f(2) \<open>dirs s \<subseteq> dirs s'\<close> by (auto simp: is_dir_def dirs_def)
qed

lemma room_put:
  assumes "layout r s0 ND FF" "room r s0 ND FF s" "p \<in> FF" "prestore.put r s p d s'" "healthy s'" "dirs s' = dirs s"
  shows "room r s0 ND FF s'"
  using assms(2-) by (auto simp: room_def prestore.put_def)

lemma layout_file:
  assumes "layout r s0 ND FF" "room r s0 ND FF s" "p \<in> FF"
  shows "fs_ok s" "healthy s" "local_path p" "p \<notin> dirs s" "prestore.target_file r p"
  using assms by (auto simp: layout_def room_def posix_inv_def prestore.target_file_def)

lemma room_WriteFile:
  assumes "layout r s0 ND FF" "room r s0 ND FF s" "p \<in> FF" "path_Dir p \<in> dirs s"
  shows "\<exists>s'. os_WriteFile pfs_os p d s = (Inr (), s') \<and> room r s0 ND FF s' \<and> dirs s' = dirs s"
proof -
  note l = layout_file [OF assms(1-3)]
  obtain s' where w: "os_WriteFile pfs_os p d s = (Inr (), s')" "healthy s'" "dirs s' = dirs s"
    using create_write_works [OF l(1-3) assms(4) l(4)] by blast
  have "posix_inv r s" using assms(2) by (simp add: room_def)
  from prestore.WriteFile_ok [OF this l(5) w(1)] room_put [OF assms(1-3) _ w(2,3)] w show ?thesis by blast
qed

lemma room_get:
  assumes "room r s0 ND FF s" "posix_view r s0 k = Some d"
  shows "\<exists>s'. b_Get (posix_backend r) k s = (Inr (d, None), s') \<and> room r s0 ND FF s' \<and> dirs s' = dirs s"
proof -
  have r: "posix_inv r s" "healthy s" "posix_view r s k = Some d" using assms by (auto simp: room_def)
  show ?thesis using healthy_get [OF r] assms(1) by (simp add: posix_backend_def)
qed

lemma room_copyStorageFile:
  assumes "layout r s0 ND FF" "room r s0 ND FF s" "p \<in> FF" "path_Dir p \<in> dirs s" "posix_view r s0 k = Some d"
  shows "\<exists>s'. copyStorageFile pfs_os (posix_backend r) k p s = (Inr (), s') \<and> room r s0 ND FF s' \<and> dirs s' = dirs s"
proof -
  obtain t where g: "b_Get (posix_backend r) k s = (Inr (d, None), t)" "room r s0 ND FF t" "dirs t = dirs s"
    using room_get [OF assms(2,5)] by blast
  note l = layout_file [OF assms(1) g(2) assms(3)]
  have dir: "path_Dir p \<in> dirs t" using assms(4) g(3) by simp
  obtain i s1 s2 s' where c: "os_Create p t = (Inr i, s1)" "io_Copy (fd_Write i) (d, None) s1 = (Inr (length d), s2)"
    "fd_Close s2 = (Inr (), s')" "healthy s'" "dirs s' = dirs t" using create_copy_works [OF l(1-3) dir l(4), of d] by blast
  have run: "copyStorageFile pfs_os (posix_backend r) k p s = (Inr (), s')" using g(1) c(1-3) by (simp add: copyStorageFile_def pfs_os_def)
  have inv: "posix_inv r s" using assms(2) by (simp add: room_def)
  have key: "posix_key k" using pstore.view_key [OF inv, of k] assms(2,5) by (simp add: room_def)
  from prestore.copyStorageFile_ok [OF inv key l(5) run] obtain x where "prestore.put r s p x s'" by blast
  from room_put [OF assms(1-3) this c(4)] c(5) g(3) run show ?thesis by simp
qed

lemma room_restoreOneFile:
  assumes "\<forall>ids. fails_through (fx_Decrypt fx ids)" "\<forall>c. fails_through (fx_NewReader fx c)"
    "layout r s0 ND FF" "room r s0 ND FF s" "apart r t" "clean_rel rel" "t @ ''/'' @ rel \<in> FF" "path_Dir (t @ ''/'' @ rel) \<in> ND"
    "restored fx codec ids (posix_view r s0) d rel = Some x"
  shows "\<exists>s'. restoreOneFile fx pfs_os (posix_backend r) codec ids d rel t s = (Inr (length x), s') \<and> room r s0 ND FF s' \<and> dirs s \<subseteq> dirs s'"
proof -
  let ?p = "t @ ''/'' @ rel"
  have j: "path_Join [t, rel] = ?p" using assms(5,6) by (simp add: apart_def path_Join_abs)
  obtain raw where raw: "posix_view r s0 (path_Join [d, rel]) = Some raw" "Unwrap fx codec (raw, None) ids = Inr (x, None)"
    using assms(9) by (auto simp: restored_def split: option.splits sum.splits prod.splits)
  obtain s1 where 1: "b_Get (posix_backend r) (path_Join [d, rel]) s = (Inr (raw, None), s1)" "room r s0 ND FF s1" "dirs s1 = dirs s"
    using room_get [OF assms(4) raw(1)] by blast
  obtain s2 where 2: "os_MkdirAll (path_Dir ?p) s1 = (Inr (), s2)" "room r s0 ND FF s2" "path_Dir ?p \<in> dirs s2" "dirs s1 \<subseteq> dirs s2"
    using room_mkdir [OF assms(3) 1(2) assms(8)] by blast
  note l = layout_file [OF assms(3) 2(2) assms(7)]
  obtain i s3 s4 s' where c: "os_Create ?p s2 = (Inr i, s3)" "io_Copy (fd_Write i) (x, None) s3 = (Inr (length x), s4)"
    "fd_Close s4 = (Inr (), s')" "healthy s'" "dirs s' = dirs s2" using create_copy_works [OF l(1-3) 2(3) l(4), of x] by blast
  have run: "restoreOneFile fx pfs_os (posix_backend r) codec ids d rel t s = (Inr (length x), s')"
    using 1(1) raw(2) 2(1) c(1-3) by (simp add: restoreOneFile_def j write_local_def pfs_os_def)
  have inv: "posix_inv r s" "posix_view r s = posix_view r s0" using assms(4) by (auto simp: room_def)
  have key: "posix_key (path_Join [d, rel])" using pstore.view_key [OF inv(1), of "path_Join [d, rel]"] raw(1) inv(2) by simp
  obtain y where y: "prestore.put r s ?p y s'"
    using prestore.restoreOneFile_ok [OF assms(1,2) inv(1) key apart_target [OF assms(5)] assms(6) run] by auto
  have "dirs s0 \<subseteq> dirs s'" "dirs s' \<subseteq> dirs s0 \<union> ND" using 2(2) c(5) by (auto simp: room_def)
  then have "room r s0 ND FF s'" using y c(4) assms(4,7) by (auto simp: room_def prestore.put_def)
  then show ?thesis using run 1(3) 2(4) c(5) by blast
qed

lemma room_mkdir_each:
  assumes "layout r s0 ND FF"
  shows "room r s0 ND FF s \<Longrightarrow> \<forall>x \<in> set ds. path_Join [t, x] \<in> ND \<Longrightarrow>
    \<exists>s'. mkdir_each pfs_os m t ds s = (Inr (), s') \<and> room r s0 ND FF s' \<and> dirs s \<subseteq> dirs s'"
proof (induction ds arbitrary: s)
  case (Cons e ds)
  obtain s1 where 1: "os_MkdirAll (path_Join [t, e]) s = (Inr (), s1)" "room r s0 ND FF s1" "dirs s \<subseteq> dirs s1"
    using room_mkdir [OF assms Cons.prems(1)] Cons.prems(2) by fastforce
  with Cons.IH [OF 1(2)] Cons.prems(2) show ?case by (fastforce simp: pfs_os_def)
qed simp

lemma room_restore_files:
  assumes "\<forall>ids. fails_through (fx_Decrypt fx ids)" "\<forall>c. fails_through (fx_NewReader fx c)" "layout r s0 ND FF" "apart r t"
  shows "room r s0 ND FF s \<Longrightarrow>
    \<forall>f \<in> set fs. clean_rel (rvf_Path f) \<and> t @ ''/'' @ rvf_Path f \<in> FF \<and> path_Dir (t @ ''/'' @ rvf_Path f) \<in> ND \<and>
       restored fx codec ids (posix_view r s0) d (rvf_Path f) \<noteq> None \<Longrightarrow>
    \<exists>nb s'. restore_files fx pfs_os (posix_backend r) codec ids m d t fs n b s = (Inr nb, s') \<and> room r s0 ND FF s' \<and> dirs s \<subseteq> dirs s'"
proof (induction fs arbitrary: s n b)
  case (Cons f fs)
  obtain x where "restored fx codec ids (posix_view r s0) d (rvf_Path f) = Some x" using Cons.prems(2) by auto
  then obtain s1 where 1: "restoreOneFile fx pfs_os (posix_backend r) codec ids d (rvf_Path f) t s = (Inr (length x), s1)"
    "room r s0 ND FF s1" "dirs s \<subseteq> dirs s1"
    using room_restoreOneFile [OF assms(1-3) Cons.prems(1) assms(4)] Cons.prems(2) by (metis list.set_intros(1))
  obtain nb s' where "restore_files fx pfs_os (posix_backend r) codec ids m d t fs (n + 1) (b + length x) s1 = (Inr nb, s')"
    "room r s0 ND FF s'" "dirs s1 \<subseteq> dirs s'" using Cons.IH [OF 1(2)] Cons.prems(2) by fastforce
  with 1 show ?case by auto
qed auto

lemma room_copy_wal:
  assumes "layout r s0 ND FF" "apart r t"
  shows "room r s0 ND FF s \<Longrightarrow> t @ ''/pg_wal'' \<in> dirs s \<Longrightarrow>
    \<forall>w \<in> set ws. posix_view r s0 (fi_Path w) \<noteq> None \<and> (\<forall>g. wal_name (fi_Path w) = Some g \<longrightarrow> t @ ''/pg_wal/'' @ g \<in> FF) \<Longrightarrow>
    \<exists>m s'. copy_wal pfs_os (posix_backend r) (t @ ''/pg_wal'') ws n s = (Inr m, s') \<and> room r s0 ND FF s' \<and> dirs s' = dirs s"
proof (induction ws arbitrary: s n)
  case (Cons w ws)
  show ?case
  proof (cases "wal_name (fi_Path w)")
    case None
    then have "copy_wal pfs_os (posix_backend r) (t @ ''/pg_wal'') (w # ws) n s = copy_wal pfs_os (posix_backend r) (t @ ''/pg_wal'') ws n s"
      by (auto simp: wal_name_def Let_def split: if_splits prod.splits)
    then show ?thesis using Cons by simp
  next
    case (Some g)
    have sg: "SegmentNameFromBasename (path_Base (fi_Path w)) = (g, True)" "path_Base (fi_Path w) \<noteq> fi_Path w"
      using Some by (auto simp: wal_name_def Let_def SegmentNameFromBasename_def split: if_splits)
    have c: "clean_abs (t @ ''/pg_wal'')"
    proof -
      have "clean_rel ''pg_wal''" by code_simp
      then show ?thesis using assms(2) clean_abs_append [of t "''pg_wal''"] by (simp add: apart_def)
    qed
    have j: "path_Join [t @ ''/pg_wal'', g] = t @ ''/pg_wal/'' @ g" using path_Join_abs [OF c wal_name_clean(2) [OF Some]] by simp
    have "CHR ''/'' \<notin> set g" using Some path_Base_cases [of "fi_Path w"]
      by (auto simp: wal_name_def Let_def SegmentNameFromBasename_def split: if_splits dest: in_set_takeD)
    then have dir: "path_Dir (t @ ''/pg_wal/'' @ g) \<in> dirs s" using path_Dir_append [OF c] Cons.prems(2) by simp
    obtain x where x: "posix_view r s0 (fi_Path w) = Some x" "t @ ''/pg_wal/'' @ g \<in> FF" using Cons.prems(3) Some by auto
    obtain s1 where 1: "copyStorageFile pfs_os (posix_backend r) (fi_Path w) (t @ ''/pg_wal/'' @ g) s = (Inr (), s1)"
      "room r s0 ND FF s1" "dirs s1 = dirs s" using room_copyStorageFile [OF assms(1) Cons.prems(1) x(2) dir x(1)] by blast
    obtain m s' where "copy_wal pfs_os (posix_backend r) (t @ ''/pg_wal'') ws (n + 1) s1 = (Inr m, s')" "room r s0 ND FF s'" "dirs s' = dirs s1"
      using Cons.IH [OF 1(2)] Cons.prems(2,3) 1(3) by fastforce
    with 1 sg j show ?thesis by (simp add: Let_def)
  qed
qed auto

lemma room_ReadFile:
  assumes "layout r s0 ND FF" "room r s0 ND FF s" "p \<in> FF" "path_Dir p \<in> dirs s"
  shows "\<exists>x s'. os_ReadFile pfs_os p s = (x, s') \<and> (\<forall>e. x = Inl e \<longrightarrow> errors_Is e ErrNotExist) \<and> room r s0 ND FF s' \<and> dirs s' = dirs s"
proof -
  note l = layout_file [OF assms(1-3)]
  show ?thesis
  proof (cases "map_of (fs_now s) p")
    case None
    from lookup_in_dir [OF l(1,3) assms(4) None] show ?thesis
      using l(2) assms(2) by (simp add: os_ReadFile_def pfs_os_def os_Open_def ENOENT_def)
  next
    case (Some n)
    then obtain i where "n = NFile i" using l(4) by (cases n) (auto simp: dirs_def)
    then show ?thesis using l(2) assms(2) Some by (simp add: os_ReadFile_def pfs_os_def os_Open_def lookup_def io_ReadAll_def)
  qed
qed

lemma target_path: "apart r t \<Longrightarrow> clean_rel f \<Longrightarrow> CHR ''/'' \<notin> set f \<Longrightarrow> path_Join [t, f] = t @ ''/'' @ f \<and> path_Dir (t @ ''/'' @ f) = t"
  by (simp add: apart_def path_Join_abs path_Dir_append)

lemma late_names:
  "clean_rel ''backup_manifest''" "clean_rel ''standby.signal''" "clean_rel ''recovery.signal''" "clean_rel ''postgresql.auto.conf''"
  "CHR ''/'' \<notin> set ''backup_manifest''" "CHR ''/'' \<notin> set ''standby.signal''" "CHR ''/'' \<notin> set ''recovery.signal''"
  "CHR ''/'' \<notin> set ''postgresql.auto.conf''" "clean_rel ''pg_wal''" "CHR ''/'' \<notin> set ''pg_wal''" "posix_key ''wal''"
  by code_simp+

lemma room_copy_manifest:
  assumes "layout r s0 ND FF" "room r s0 ND FF s" "apart r t" "t \<in> dirs s" "t @ ''/'' @ ''backup_manifest'' \<in> FF"
    "posix_view r s0 (path_Join [d, ''backup_manifest'']) = Some mb"
  shows "\<exists>s'. copy_manifest (pfs_host h) (posix_backend r) t d s = (Inr (), s') \<and> room r s0 ND FF s' \<and> dirs s' = dirs s"
proof -
  note tp = target_path [OF assms(3) late_names(1,5)]
  have h: "healthy s" using assms(2) by (simp add: room_def)
  have r1: "room r s0 ND FF (tick s)" using assms(2) by simp
  obtain s' where c: "copyStorageFile pfs_os (posix_backend r) (path_Join [d, ''backup_manifest'']) (t @ ''/'' @ ''backup_manifest'') (tick s) = (Inr (), s')"
    "room r s0 ND FF s'" "dirs s' = dirs s"
    using room_copyStorageFile [OF assms(1) r1 assms(5) _ assms(6)] tp assms(4) by auto
  show ?thesis
  proof (cases "lookup (t @ ''/'' @ ''backup_manifest'') s")
    case (Inl e)
    then show ?thesis using h c r1 tp by (cases "errors_Is e ErrNotExist") (simp_all add: copy_manifest_def pfs_host_def pfs_stat_def os_Stat_def Let_def)
  next
    case (Inr n)
    then show ?thesis using h r1 tp by (simp add: copy_manifest_def pfs_host_def pfs_stat_def os_Stat_def Let_def)
  qed
qed

lemma room_write_config:
  assumes "layout r s0 ND FF" "room r s0 ND FF s" "apart r (ro_Target opts)" "ro_Target opts \<in> dirs s"
    "ro_Target opts @ ''/'' @ signal_file opts \<in> FF" "ro_Target opts @ ''/'' @ ''postgresql.auto.conf'' \<in> FF"
  shows "\<exists>s'. write_config pfs_os opts s = (Inr (), s') \<and> room r s0 ND FF s'"
proof -
  have sg: "clean_rel (signal_file opts)" "CHR ''/'' \<notin> set (signal_file opts)" using late_names by (simp_all add: signal_file_def)
  note tp = target_path [OF assms(3) sg] target_path [OF assms(3) late_names(4,8)]
  let ?a = "ro_Target opts @ ''/'' @ ''postgresql.auto.conf''"
  obtain s1 where 1: "os_WriteFile pfs_os (ro_Target opts @ ''/'' @ signal_file opts) [] s = (Inr (), s1)" "room r s0 ND FF s1" "dirs s1 = dirs s"
    using room_WriteFile [OF assms(1,2,5)] tp assms(4) by auto
  obtain x s2 where 2: "os_ReadFile pfs_os ?a s1 = (x, s2)" "\<forall>e. x = Inl e \<longrightarrow> errors_Is e ErrNotExist" "room r s0 ND FF s2" "dirs s2 = dirs s1"
    using room_ReadFile [OF assms(1) 1(2) assms(6)] tp assms(4) 1(3) by auto
  have d2: "path_Dir ?a \<in> dirs s2" using tp assms(4) 1(3) 2(4) by simp
  have sg': "(if ro_StandbyMode opts then ''standby.signal'' else ''recovery.signal'') = signal_file opts" by (simp add: signal_file_def)
  show ?thesis
  proof (cases x)
    case (Inl e)
    then have "errors_Is e ErrNotExist" using 2(2) by simp
    obtain s3 where "os_WriteFile pfs_os ?a (auto_conf opts []) s2 = (Inr (), s3)" "room r s0 ND FF s3"
      using room_WriteFile [OF assms(1) 2(3) assms(6) d2] by blast
    then show ?thesis using 1(1) 2(1) Inl \<open>errors_Is e ErrNotExist\<close> tp unfolding write_config_def sg' Let_def by simp
  next
    case (Inr c)
    obtain s3 where "os_WriteFile pfs_os ?a (auto_conf opts c) s2 = (Inr (), s3)" "room r s0 ND FF s3"
      using room_WriteFile [OF assms(1) 2(3) assms(6) d2] by blast
    then show ?thesis using 1(1) 2(1) Inr tp unfolding write_config_def sg' Let_def by simp
  qed
qed

lemma room_list_wal:
  assumes "room r s0 ND FF s" "pb_root r \<in> dirs s0"
  shows "\<exists>ws s'. b_List (posix_backend r) ''wal'' s = (Inr ws, s') \<and> room r s0 ND FF s' \<and> dirs s' = dirs s"
proof -
  have i: "posix_inv r s" "healthy s" "fs_ok s" using assms(1) by (auto simp: room_def posix_inv_def)
  have c: "clean_rel ''wal''" using late_names(11) by (simp add: posix_key_def)
  have a: "abs_path r ''wal'' = Inr (under_root r ''wal'')" by (rule abs_path_key [OF i(1) c])
  have "local_path (under_root r ''wal'')" "path_Dir (under_root r ''wal'') = pb_root r"
    using i(1) c path_Dir_append [of "pb_root r" "''wal''"] clean_under_root [OF i(1) c] by (auto simp: local_path_def under_root_def posix_inv_def)
  moreover have "pb_root r \<in> dirs s" using assms by (auto simp: room_def)
  ultimately have l: "lookup (under_root r ''wal'') s = Inl ENOENT" if "map_of (fs_now s) (under_root r ''wal'') = None"
    using lookup_in_dir [OF i(3) _ _ that] by simp
  show ?thesis
  proof (cases "map_of (fs_now s) (under_root r ''wal'')")
    case None
    then show ?thesis using l i(2) a assms(1) by (simp add: posix_backend_def posix_List_def os_Stat_def ENOENT_def)
  next
    case (Some n)
    have "healthy (tick s)" using i(2) by simp
    then show ?thesis using i(2) a assms(1) Some by (simp add: posix_backend_def posix_List_def os_Stat_def lookup_def)
  qed
qed

section \<open>A whole restore\<close>

text \<open>The directories a restore makes and the files it writes.\<close>

definition restore_dirs :: "string \<Rightarrow> string list \<Rightarrow> string list \<Rightarrow> string list" where
  "restore_dirs t ds fs =
     concat (map (\<lambda>p. ancestors p @ [p]) (t # map (\<lambda>d. t @ ''/'' @ d) (''pg_wal'' # ds))) @ concat (map (\<lambda>f. ancestors (t @ ''/'' @ f)) fs)"

definition restore_targets :: "(string \<Rightarrow> bytes option) \<Rightarrow> string \<Rightarrow> string list \<Rightarrow> string set" where
  "restore_targets v t fs =
     (\<lambda>f. t @ ''/'' @ f) ` (set fs \<union> {''backup_manifest'', ''standby.signal'', ''recovery.signal'', ''postgresql.auto.conf''}) \<union>
     {t @ ''/pg_wal/'' @ g | g. \<exists>k. v k \<noteq> None \<and> listed ''wal'' k \<and> wal_name k = Some g}"

lemma ancestors_trans: "a \<in> set (ancestors p) \<Longrightarrow> set (ancestors a) \<subseteq> set (ancestors p)"
  by (auto simp: set_ancestors prefix_def)

lemma path_Dir_ancestor: "local_path p \<Longrightarrow> path_Dir p \<in> set (ancestors p)"
proof -
  assume "local_path p"
  then obtain b where p: "p = path_Dir p @ CHR ''/'' # b" "CHR ''/'' \<notin> set b" "path_Dir p \<noteq> []" using local_path_split by blast
  have "path_Dir p \<in> set (ancestors (path_Dir p @ CHR ''/'' # b))" unfolding ancestors_step [OF p(2,3)] by simp
  then show "path_Dir p \<in> set (ancestors p)" by (simp only: p(1) [symmetric])
qed

lemma layout_restore:
  assumes "apart r t" "\<forall>d \<in> set ds. clean_rel d" "\<forall>f \<in> set fs. clean_rel f"
    "\<forall>p \<in> set (restore_dirs t ds fs). file_at s p = None \<and> p \<notin> restore_targets (posix_view r s) t fs"
    "\<forall>p \<in> restore_targets (posix_view r s) t fs. p \<notin> dirs s"
  shows "layout r s (set (restore_dirs t ds fs)) (restore_targets (posix_view r s) t fs)"
proof -
  have t: "clean_abs t" using assms(1) by (simp add: apart_def)
  have c: "clean_abs (t @ ''/'' @ x)" if "clean_rel x" for x using t that by (simp add: clean_abs_append)
  have tf: "prestore.target_file r (t @ ''/'' @ x)" if "clean_rel x" for x
    using apart_target [OF assms(1)] that by (simp add: prestore.target_dir_def)
  have nd: "clean_abs p \<and> set (ancestors p) \<subseteq> set (restore_dirs t ds fs)" if p: "p \<in> set (restore_dirs t ds fs)" for p
  proof -
    from p consider q where "q = t \<or> (\<exists>x \<in> set (''pg_wal'' # ds). q = t @ ''/'' @ x)" "p = q \<or> p \<in> set (ancestors q)"
      | f where "f \<in> set fs" "p \<in> set (ancestors (t @ ''/'' @ f))" unfolding restore_dirs_def by auto
    then show ?thesis
    proof cases
      case 1
      then have "clean_abs q" using t c assms(2) late_names(9) by auto
      moreover have "set (ancestors q) \<subseteq> set (restore_dirs t ds fs)" using 1(1) unfolding restore_dirs_def by auto
      ultimately show ?thesis using 1(2) clean_abs_ancestor ancestors_trans by blast
    next
      case 2
      then have "clean_abs (t @ ''/'' @ f)" using c assms(3) by blast
      moreover have "set (ancestors (t @ ''/'' @ f)) \<subseteq> set (restore_dirs t ds fs)" using 2(1) unfolding restore_dirs_def by auto
      ultimately show ?thesis using 2(2) clean_abs_ancestor ancestors_trans by blast
    qed
  qed
  have ff: "prestore.target_file r p" if p: "p \<in> restore_targets (posix_view r s) t fs" for p
  proof -
    from p consider f where "f \<in> set fs \<union> {''backup_manifest'', ''standby.signal'', ''recovery.signal'', ''postgresql.auto.conf''}" "p = t @ ''/'' @ f"
      | g k where "wal_name k = Some g" "p = t @ ''/'' @ ''pg_wal'' @ CHR ''/'' # g" unfolding restore_targets_def by auto
    then show ?thesis
    proof cases
      case 1
      then show ?thesis using tf assms(3) late_names by auto
    next
      case 2
      then show ?thesis using tf [OF wal_name_clean(1)] by simp
    qed
  qed
  show ?thesis unfolding layout_def using nd ff assms(4,5) unfolding prestore.target_file_def by blast
qed

lemma room_finishRestore:
  assumes "layout r s0 ND FF" "room r s0 ND FF s" "apart r (ro_Target opts)" "ro_Target opts \<in> dirs s"
    "ro_Target opts @ ''/'' @ ''pg_wal'' \<in> ND" "ro_TablespaceRemap opts = []" "pb_root r \<in> dirs s0" "posix_inv r s0"
    "restore_targets (posix_view r s0) (ro_Target opts) [] \<subseteq> FF"
    "posix_view r s0 (path_Join [d, ''backup_manifest'']) = Some mb"
  shows "\<exists>n s'. finishRestore (pfs_host h) (posix_backend r) opts d s = (Inr n, s') \<and> room r s0 ND FF s'"
proof -
  let ?t = "ro_Target opts"
  have ff: "?t @ ''/'' @ ''backup_manifest'' \<in> FF" "?t @ ''/'' @ signal_file opts \<in> FF" "?t @ ''/'' @ ''postgresql.auto.conf'' \<in> FF"
    "\<And>k g. posix_view r s0 k \<noteq> None \<Longrightarrow> listed ''wal'' k \<Longrightarrow> wal_name k = Some g \<Longrightarrow> ?t @ ''/pg_wal/'' @ g \<in> FF"
    using assms(9) by (auto simp: restore_targets_def signal_file_def)
  note tp = target_path [OF assms(3) late_names(9,10)]
  obtain s1 where 1: "copy_manifest (pfs_host h) (posix_backend r) ?t d s = (Inr (), s1)" "room r s0 ND FF s1" "dirs s1 = dirs s"
    using room_copy_manifest [OF assms(1-4) ff(1) assms(10)] by blast
  obtain s2 where 2: "os_MkdirAll (?t @ ''/'' @ ''pg_wal'') s1 = (Inr (), s2)" "room r s0 ND FF s2" "?t @ ''/'' @ ''pg_wal'' \<in> dirs s2" "dirs s1 \<subseteq> dirs s2"
    using room_mkdir [OF assms(1) 1(2) assms(5)] by blast
  obtain ws s3 where 3: "b_List (posix_backend r) ''wal'' s2 = (Inr ws, s3)" "room r s0 ND FF s3" "dirs s3 = dirs s2"
    using room_list_wal [OF 2(2) assms(7)] by blast
  have inv2: "posix_inv r s2" "posix_view r s2 = posix_view r s0" using 2(2) by (auto simp: room_def)
  have lk: "set (map fi_Path ws) = {k. posix_view r s0 k \<noteq> None \<and> listed ''wal'' k}"
    using pstore.list_keys [OF inv2(1) _ 3(1)] late_names(11) inv2(2) by auto
  have wf: "\<forall>w \<in> set ws. posix_view r s0 (fi_Path w) \<noteq> None \<and> (\<forall>g. wal_name (fi_Path w) = Some g \<longrightarrow> ?t @ ''/pg_wal/'' @ g \<in> FF)"
  proof
    fix w assume "w \<in> set ws"
    then have "fi_Path w \<in> {k. posix_view r s0 k \<noteq> None \<and> listed ''wal'' k}" unfolding lk [symmetric] by simp
    then show "posix_view r s0 (fi_Path w) \<noteq> None \<and> (\<forall>g. wal_name (fi_Path w) = Some g \<longrightarrow> ?t @ ''/pg_wal/'' @ g \<in> FF)" using ff(4) by blast
  qed
  have pw: "?t @ ''/pg_wal'' \<in> dirs s3" using 2(3) 3(3) by simp
  obtain n s4 where 4: "copy_wal pfs_os (posix_backend r) (?t @ ''/pg_wal'') ws 0 s3 = (Inr n, s4)" "room r s0 ND FF s4" "dirs s4 = dirs s3"
    using room_copy_wal [OF assms(1,3) 3(2) pw wf, of 0] by blast
  have "?t \<in> dirs s4" using assms(4) 1(3) 2(4) 3(3) 4(3) by auto
  then obtain s5 where 5: "write_config pfs_os opts s4 = (Inr (), s5)" "room r s0 ND FF s5"
    using room_write_config [OF assms(1) 4(2) assms(3) _ ff(2,3)] by blast
  have h: "h_os (pfs_host h) = pfs_os" "o_MkdirAll pfs_os = os_MkdirAll" by (simp_all add: pfs_host_def pfs_os_def)
  have "path_Join [?t, ''pg_wal''] = ?t @ ''/pg_wal''" using tp by simp
  then have "finishRestore (pfs_host h) (posix_backend r) opts d s = (Inr n, s5)"
    using 1(1) 2(1) 3(1) 4(1) 5(1) assms(6) by (simp add: finishRestore_def h applyTablespaceRemap_def Let_def)
  then show ?thesis using 5(2) by blast
qed

text \<open>What a restore needs besides \<open>restorable\<close>: valid options, a file system without faults, a codec, files that
  decrypt and decompress, and no file where a directory has to be made or the other way round.\<close>

definition restore_ready :: "('c, 'r, 'i) filters \<Rightarrow> PosixBackend \<Rightarrow> pfs \<Rightarrow> 'i Restore_Options \<Rightarrow> Sidecar \<Rightarrow> rawVerifyFile list \<Rightarrow> string \<Rightarrow> bool" where
  "restore_ready fx r s opts sc files codec \<longleftrightarrow>
     ro_Identities opts \<noteq> [] \<and> validatePITRExclusive opts = None \<and> healthy s \<and> pb_root r \<in> dirs s \<and> restore_codec sc = Inr codec \<and>
     (\<forall>f \<in> set files. restored fx codec (ro_Identities opts) (posix_view r s) (ro_BackupID opts) (rvf_Path f) \<noteq> None) \<and>
     (\<forall>p \<in> set (restore_dirs (ro_Target opts) (slice_list (sc_Directories sc)) (map rvf_Path files)).
        file_at s p = None \<and> p \<notin> restore_targets (posix_view r s) (ro_Target opts) (map rvf_Path files)) \<and>
     (\<forall>p \<in> restore_targets (posix_view r s) (ro_Target opts) (map rvf_Path files). p \<notin> dirs s)"

lemma Run_works:
  assumes "\<forall>ids. fails_through (fx_Decrypt fx ids)" "\<forall>c. fails_through (fx_NewReader fx c)" "restorable r s opts sc files"
    "\<forall>fs. mset (ord fs) = mset fs" "restore_ready fx r s opts sc files codec"
  shows "\<exists>res s'. Run fx ord (pfs_host h) (posix_backend r) opts s = (Inr res, s')"
proof -
  let ?t = "ro_Target opts" and ?d = "ro_BackupID opts" and ?v = "posix_view r s"
  let ?ds = "slice_list (sc_Directories sc)" and ?fs = "map rvf_Path files"
  define ND where "ND = set (restore_dirs ?t ?ds ?fs)"
  define FF where "FF = restore_targets ?v ?t ?fs"
  obtain sb mb where w: "posix_inv r s" "apart r ?t" "?d \<noteq> []" "ro_TablespaceRemap opts = []"
    "?v (path_Join [?d, ''Storage-Metadata.json'']) = Some sb" "UnmarshalSidecar sb = Inr sc" "sc_Type sc \<noteq> BackupTypeIncremental"
    "\<forall>x \<in> set ?ds. clean_rel x"
    "?v (path_Join [?d, ''backup_manifest'']) = Some mb" "restore_parseManifestFiles mb = Inr files"
    "\<forall>f \<in> set files. posix_key (path_Join [?d, rvf_Path f]) \<and> clean_rel (rvf_Path f)"
    using assms(3) unfolding restorable_def list_all_iff by blast
  have y: "ro_Identities opts \<noteq> []" "validatePITRExclusive opts = None" "healthy s" "pb_root r \<in> dirs s" "restore_codec sc = Inr codec"
    "\<forall>f \<in> set files. restored fx codec (ro_Identities opts) ?v ?d (rvf_Path f) \<noteq> None"
    "\<forall>p \<in> set (restore_dirs ?t ?ds ?fs). file_at s p = None \<and> p \<notin> restore_targets ?v ?t ?fs"
    "\<forall>p \<in> restore_targets ?v ?t ?fs. p \<notin> dirs s"
    using assms(5) unfolding restore_ready_def by blast+
  have cf: "\<forall>f \<in> set ?fs. clean_rel f" using w(11) by auto
  have L: "layout r s ND FF" unfolding ND_def FF_def by (rule layout_restore [OF w(2,8) cf y(7,8)])
  have R: "room r s ND FF s" using w(1) y(3) by (simp add: room_def)
  have t: "clean_abs ?t" using w(2) by (simp add: apart_def)
  have nd: "?t \<in> ND" "?t @ ''/'' @ ''pg_wal'' \<in> ND" unfolding ND_def restore_dirs_def by auto
  obtain s1 where 1: "os_MkdirAll ?t s = (Inr (), s1)" "room r s ND FF s1" "?t \<in> dirs s1" using room_mkdir [OF L R nd(1)] by blast
  obtain s2 where 2: "b_Get (posix_backend r) (path_Join [?d, ''Storage-Metadata.json'']) s1 = (Inr (sb, None), s2)" "room r s ND FF s2" "dirs s2 = dirs s1"
    using room_get [OF 1(2) w(5)] by blast
  obtain s3 where 3: "b_Get (posix_backend r) (path_Join [?d, ''backup_manifest'']) s2 = (Inr (mb, None), s3)" "room r s ND FF s3" "dirs s3 = dirs s2"
    using room_get [OF 2(2) w(9)] by blast
  have dn: "\<forall>x \<in> set ?ds. path_Join [?t, x] \<in> ND"
  proof
    fix x assume x: "x \<in> set ?ds"
    then have "path_Join [?t, x] = ?t @ ''/'' @ x" using path_Join_abs [OF t] w(8) by simp
    then show "path_Join [?t, x] \<in> ND" using x unfolding ND_def restore_dirs_def by auto
  qed
  obtain s4 where 4: "mkdir_each pfs_os ''restore: mkdir '' ?t ?ds s3 = (Inr (), s4)" "room r s ND FF s4" "dirs s3 \<subseteq> dirs s4"
    using room_mkdir_each [OF L 3(2) dn] by blast
  have so: "set (ord files) = set files" using assms(4) by (metis mset_eq_setD)
  have fs: "\<forall>f \<in> set (ord files). clean_rel (rvf_Path f) \<and> ?t @ ''/'' @ rvf_Path f \<in> FF \<and> path_Dir (?t @ ''/'' @ rvf_Path f) \<in> ND \<and>
       restored fx codec (ro_Identities opts) ?v ?d (rvf_Path f) \<noteq> None"
  proof
    fix f assume "f \<in> set (ord files)"
    then have f: "f \<in> set files" using so by simp
    then have "?t @ ''/'' @ rvf_Path f \<in> FF" unfolding FF_def restore_targets_def by auto
    moreover from this have "local_path (?t @ ''/'' @ rvf_Path f)" using L by (simp add: layout_def)
    then have "path_Dir (?t @ ''/'' @ rvf_Path f) \<in> set (ancestors (?t @ ''/'' @ rvf_Path f))" by (rule path_Dir_ancestor)
    then have "path_Dir (?t @ ''/'' @ rvf_Path f) \<in> ND" using f unfolding ND_def restore_dirs_def by auto
    ultimately show "clean_rel (rvf_Path f) \<and> ?t @ ''/'' @ rvf_Path f \<in> FF \<and> path_Dir (?t @ ''/'' @ rvf_Path f) \<in> ND \<and>
       restored fx codec (ro_Identities opts) ?v ?d (rvf_Path f) \<noteq> None" using f w(11) y(6) by blast
  qed
  obtain nb s5 where 5: "restore_files fx pfs_os (posix_backend r) codec (ro_Identities opts) ''restore: '' ?d ?t (ord files) 0 0 s4 = (Inr nb, s5)"
    "room r s ND FF s5" "dirs s4 \<subseteq> dirs s5" using room_restore_files [OF assms(1,2) L w(2) 4(2) fs] by blast
  have td: "?t \<in> dirs s5" using 1(3) 2(3) 3(3) 4(3) 5(3) by auto
  have sub: "restore_targets ?v ?t [] \<subseteq> FF" unfolding FF_def restore_targets_def by auto
  obtain n s6 where 6: "finishRestore (pfs_host h) (posix_backend r) opts ?d s5 = (Inr n, s6)"
    using room_finishRestore [OF L 5(2) w(2) td nd(2) w(4) y(4) w(1) sub w(9)] by blast
  have hh: "h_os (pfs_host h) = pfs_os" "o_MkdirAll pfs_os = os_MkdirAll" by (simp_all add: pfs_host_def pfs_os_def)
  have sc: "run_sidecar (posix_backend r) ?d s1 = (Inr (sc, codec), s2)" using 2(1) w(6) y(5) by (simp add: run_sidecar_def io_ReadAll_def)
  have full: "restore_full fx ord (pfs_host h) (posix_backend r) opts codec sc ?d s2 = (Inr nb, s5)"
    using 3(1) w(10) 4(1) 5(1) by (simp add: restore_full_def io_ReadAll_def hh)
  obtain na nc where nb: "nb = (na, nc)" by (cases nb)
  have "run_backup fx ord (pfs_host h) (posix_backend r) opts ?d s =
      (Inr \<lparr>rr_BackupID = ?d, rr_Files = na, rr_WAL = n, rr_Bytes = nc\<rparr>, s6)"
    using 1(1) sc full 6 w(7) nb by (simp add: run_backup_def hh)
  moreover have "?t \<noteq> []" "filepath_IsAbs ?t" using t by (auto simp: clean_abs_def filepath_IsAbs_def)
  ultimately show ?thesis using w(3) y(1,2) by (simp add: Run_def)
qed

text \<open>C15: a restore of a full backup whose files decode succeeds on a file system without faults, unless a file stands where a
  directory has to be made or a directory where a file has to be written.\<close>

theorem Run_succeeds:
  assumes "\<forall>ids. fails_through (fx_Decrypt fx ids)" "\<forall>c. fails_through (fx_NewReader fx c)" "restorable r s opts sc files"
    "\<forall>fs. mset (ord fs) = mset fs" "restore_ready fx r s opts sc files codec"
  shows "\<exists>res s'. Run fx ord (pfs_host h) (posix_backend r) opts s = (Inr res, s')"
  by (rule Run_works [OF assms])

text \<open>C1: a successful restore of a full backup puts every file of its manifest at its place below the target,
  with the content the stored object decrypts and decompresses to, in whatever order the files are
  restored; it reports the number of files and bytes and leaves the storage as it was. Only the files that are
  written afterwards (\<open>late_file\<close>) may differ.\<close>

theorem Run_restores_files:
  assumes "\<forall>ids. fails_through (fx_Decrypt fx ids)" "\<forall>c. fails_through (fx_NewReader fx c)" "restorable r s opts sc files"
    "\<forall>fs. mset (ord fs) = mset fs" "Run fx ord (pfs_host h) (posix_backend r) opts s = (Inr res, s')"
  shows "\<exists>codec. restore_codec sc = Inr codec \<and> rr_Files res = length files \<and> posix_view r s' = posix_view r s \<and>
    rr_Bytes res = (\<Sum>f \<leftarrow> files. length (the (restored fx codec (ro_Identities opts) (posix_view r s) (ro_BackupID opts) (rvf_Path f)))) \<and>
    (\<forall>f \<in> set files. \<exists>x. restored fx codec (ro_Identities opts) (posix_view r s) (ro_BackupID opts) (rvf_Path f) = Some x \<and>
        (\<not> late_file (rvf_Path f) \<longrightarrow> file_at s' (ro_Target opts @ ''/'' @ rvf_Path f) = Some x))"
proof -
  let ?R = "\<lambda>codec f. restored fx codec (ro_Identities opts) (posix_view r s) (ro_BackupID opts) (rvf_Path f)"
  obtain codec s1 where 1: "restore_codec sc = Inr codec" "rr_Files res = length files" "posix_view r s' = posix_view r s"
    "rr_Bytes res = (\<Sum>f \<leftarrow> files. length (the (?R codec f)))"
    "\<forall>f \<in> set files. \<exists>x. ?R codec f = Some x \<and> file_at s1 (ro_Target opts @ ''/'' @ rvf_Path f) = Some x"
    "\<forall>q. q \<notin> {ro_Target opts @ ''/'' @ f | f. late_file f} \<longrightarrow> file_at s' q = file_at s1 q"
    using Run_ok [OF assms] by blast
  have "\<exists>x. ?R codec f = Some x \<and> (\<not> late_file (rvf_Path f) \<longrightarrow> file_at s' (ro_Target opts @ ''/'' @ rvf_Path f) = Some x)"
    if f: "f \<in> set files" for f
  proof -
    obtain x where x: "?R codec f = Some x" "file_at s1 (ro_Target opts @ ''/'' @ rvf_Path f) = Some x" using 1(5) f by blast
    have "file_at s' (ro_Target opts @ ''/'' @ rvf_Path f) = Some x" if "\<not> late_file (rvf_Path f)"
    proof -
      have "ro_Target opts @ ''/'' @ rvf_Path f \<notin> {ro_Target opts @ ''/'' @ f | f. late_file f}" using that by auto
      with 1(6) x(2) show ?thesis by simp
    qed
    with x(1) show ?thesis by blast
  qed
  with 1(1-4) show ?thesis by blast
qed


text \<open>C9: a successful restore leaves the target ready for recovery. The signal file is there and empty,
  \<open>postgresql.auto.conf\<close> is what the backup held with the restore command (unless it has one) and the lines of the recovery
  target, and every segment below \<open>wal\<close> is in \<open>pg_wal\<close> under its bare name with the bytes of one of its stored copies.\<close>

theorem Run_prepares_recovery:
  assumes "\<forall>ids. fails_through (fx_Decrypt fx ids)" "\<forall>c. fails_through (fx_NewReader fx c)" "restorable r s opts sc files"
    "\<forall>fs. mset (ord fs) = mset fs" "Run fx ord (pfs_host h) (posix_backend r) opts s = (Inr res, s')"
  shows "file_at s' (ro_Target opts @ ''/'' @ signal_file opts) = Some [] \<and>
    (\<forall>codec c. restore_codec sc = Inr codec \<and> ''postgresql.auto.conf'' \<in> rvf_Path ` set files \<and>
       restored fx codec (ro_Identities opts) (posix_view r s) (ro_BackupID opts) ''postgresql.auto.conf'' = Some c \<longrightarrow>
       file_at s' (ro_Target opts @ ''/postgresql.auto.conf'') = Some (auto_conf opts c)) \<and>
    (\<forall>k g. posix_view r s k \<noteq> None \<and> listed ''wal'' k \<and> wal_name k = Some g \<longrightarrow>
       (\<exists>k'. listed ''wal'' k' \<and> wal_name k' = Some g \<and> posix_view r s k' \<noteq> None \<and> file_at s' (ro_Target opts @ ''/pg_wal/'' @ g) = posix_view r s k'))"
proof -
  let ?R = "\<lambda>codec p. restored fx codec (ro_Identities opts) (posix_view r s) (ro_BackupID opts) p"
  let ?a = "ro_Target opts @ ''/postgresql.auto.conf''"
  obtain codec s1 where 1: "restore_codec sc = Inr codec"
    "\<forall>f \<in> set files. \<exists>x. ?R codec (rvf_Path f) = Some x \<and> file_at s1 (ro_Target opts @ ''/'' @ rvf_Path f) = Some x"
    "file_at s' (ro_Target opts @ ''/'' @ signal_file opts) = Some []"
    "file_at s' ?a = Some (auto_conf opts (case file_at s1 ?a of Some c \<Rightarrow> c | None \<Rightarrow> []))"
    "\<forall>k g. posix_view r s k \<noteq> None \<and> listed ''wal'' k \<and> wal_name k = Some g \<longrightarrow>
       (\<exists>k'. listed ''wal'' k' \<and> wal_name k' = Some g \<and> posix_view r s k' \<noteq> None \<and> file_at s' (ro_Target opts @ ''/pg_wal/'' @ g) = posix_view r s k')"
    using Run_ok [OF assms] by blast
  have "file_at s' ?a = Some (auto_conf opts c)"
    if h: "restore_codec sc = Inr codec'" "''postgresql.auto.conf'' \<in> rvf_Path ` set files" "?R codec' ''postgresql.auto.conf'' = Some c" for codec' c
  proof -
    obtain f where f: "f \<in> set files" "rvf_Path f = ''postgresql.auto.conf''" using h(2) by auto
    then have "file_at s1 ?a = Some c" using 1(1,2) h(1,3) by fastforce
    then show ?thesis using 1(4) by simp
  qed
  with 1(3,5) show ?thesis by blast
qed


section \<open>An example\<close>

definition example_restore_options :: "string Restore_Options" where
  "example_restore_options = \<lparr>ro_Target = ''/t'', ro_Identities = [''key''], ro_BackupID = ''aF'', ro_TablespaceRemap = [], ro_StandbyMode = False,
     ro_RestoreCommand = [], ro_TargetTime = None, ro_TargetXID = Some 7, ro_TargetLSN = None, ro_TargetName = [], ro_TargetAction = ''promote''\<rparr>"

definition example_sidecar_text :: bytes where
  "example_sidecar_text = ''{'' @ quoted ''version'' @ '':3,'' @ quoted ''compression'' @ '':'' @ quoted ''zstd:3'' @ '',''
     @ quoted ''directories'' @ '':['' @ quoted ''base'' @ ''],'' @ quoted ''type'' @ '':'' @ quoted ''full'' @ ''}''"

definition example_full_sidecar :: Sidecar where
  "example_full_sidecar = zero_Sidecar\<lparr>sc_Version := 3, sc_Compression := ''zstd:3'', sc_Directories := Some [''base''], sc_Type := ''full''\<rparr>"

definition example_manifest_text :: bytes where
  "example_manifest_text = ''{'' @ quoted ''Files'' @ '':[{'' @ quoted ''Path'' @ '':'' @ quoted ''base/1'' @ '',''  @ quoted ''Size'' @ '':2},{''
     @ quoted ''Path'' @ '':'' @ quoted ''postgresql.auto.conf'' @ ''}]}''"

definition example_listed :: "rawVerifyFile list" where
  "example_listed = [\<lparr>rvf_Path = ''base/1'', rvf_Size = 2, rvf_Checksum = []\<rparr>, \<lparr>rvf_Path = ''postgresql.auto.conf'', rvf_Size = 0, rvf_Checksum = []\<rparr>]"

definition example_wal_key :: string where
  "example_wal_key = ''wal/00000001/000000010000000000000002-'' @ replicate 64 (CHR ''a'')"

definition example_contents :: "(string \<times> bytes) list" where
  "example_contents = [(''aF/Storage-Metadata.json'', example_sidecar_text), (''aF/backup_manifest'', example_manifest_text),
     (''aF/base/1'', ''agez17''), (''aF/postgresql.auto.conf'', ''agez#''), (example_wal_key, ''wal'')]"

definition example_restore_store :: pfs where
  "example_restore_store = store_fs [''aF'', ''aF/base'', ''wal'', ''wal/00000001''] example_contents"

lemma example_texts:
  "UnmarshalSidecar example_sidecar_text = Inr example_full_sidecar" "restore_parseManifestFiles example_manifest_text = Inr example_listed"
  "restore_codec example_full_sidecar = Inr ''zstd''" "wal_name example_wal_key = Some ''000000010000000000000002''" "posix_key example_wal_key"
  "store_ok [''aF'', ''aF/base'', ''wal'', ''wal/00000001''] (map fst example_contents)"
  by code_simp+

lemma example_paths_restore:
  "path_Join [''aF'', ''Storage-Metadata.json''] = ''aF/Storage-Metadata.json''" "path_Join [''aF'', ''backup_manifest''] = ''aF/backup_manifest''"
  "path_Join [''aF'', ''base/1''] = ''aF/base/1''" "path_Join [''aF'', ''postgresql.auto.conf''] = ''aF/postgresql.auto.conf''"
  "list_all posix_key [''aF/Storage-Metadata.json'', ''aF/backup_manifest'', ''aF/base/1'', ''aF/postgresql.auto.conf'']"
  "list_all clean_rel [''aF'', ''base'', ''base/1'', ''postgresql.auto.conf'']" "clean_abs ''/t''"
  "restore_dirs ''/t'' [''base''] [''base/1'', ''postgresql.auto.conf''] = [''/t'', ''/t'', ''/t/pg_wal'', ''/t'', ''/t/base'', ''/t'', ''/t/base'', ''/t'']"
  by code_simp+

lemma example_restore_view:
  "posix_inv example_root example_restore_store" "healthy example_restore_store"
  "posix_view example_root example_restore_store k = (if posix_key k then map_of example_contents k else None)"
  using store_fs_inv [OF example_texts(6)] store_fs_view [OF example_texts(6)] by (simp_all add: example_restore_store_def)

lemma example_restorable: "restorable example_root example_restore_store example_restore_options example_full_sidecar example_listed"
proof -
  let ?v = "posix_view example_root example_restore_store"
  have "?v ''aF/Storage-Metadata.json'' = Some example_sidecar_text" "?v ''aF/backup_manifest'' = Some example_manifest_text"
    using example_paths_restore(5) by (simp_all add: example_restore_view example_contents_def)
  moreover have "apart example_root ''/t''" using example_paths_restore(7) by (simp add: apart_def example_root_def)
  moreover have "clean_rel ''aF''" "clean_rel ''base''" "clean_rel ''base/1''" "clean_rel ''postgresql.auto.conf''"
    "posix_key ''aF/base/1''" "posix_key ''aF/postgresql.auto.conf''" using example_paths_restore(5,6) by simp_all
  ultimately show ?thesis
    using example_restore_view(1) example_texts(1,2) unfolding restorable_def
    by (simp add: example_restore_options_def example_paths_restore example_full_sidecar_def example_listed_def BackupTypeIncremental_def slice_list_def)
qed

lemma example_store_names:
  "file_at example_restore_store p \<noteq> None \<Longrightarrow> \<exists>x. p = ''/r/'' @ x" "p \<in> dirs example_restore_store \<Longrightarrow> p = ''/r'' \<or> (\<exists>x. p = ''/r/'' @ x)"
  "''/r'' \<in> dirs example_restore_store"
proof -
  note n = store_names_of [OF example_texts(6)]
  have now: "fs_now example_restore_store = store_names [''aF'', ''aF/base'', ''wal'', ''wal/00000001''] (map fst example_contents)"
    by (simp add: example_restore_store_def store_fs_def)
  show "\<exists>x. p = ''/r/'' @ x" if f: "file_at example_restore_store p \<noteq> None"
  proof -
    obtain i where "map_of (fs_now example_restore_store) p = Some (NFile i)" using f by (auto simp: file_at_def split: option.splits node.splits)
    then show ?thesis unfolding now n(2) by blast
  qed
  show "p = ''/r'' \<or> (\<exists>x. p = ''/r/'' @ x)" if "p \<in> dirs example_restore_store" using that unfolding dirs_def now by (auto simp: n(3))
  show "''/r'' \<in> dirs example_restore_store" unfolding dirs_def now by (simp add: n(3))
qed

lemma example_ready:
  "restore_ready example_filters example_root example_restore_store example_restore_options example_full_sidecar example_listed ''zstd''"
proof -
  let ?v = "posix_view example_root example_restore_store"
  let ?T = "restore_targets ?v ''/t'' [''base/1'', ''postgresql.auto.conf'']"
  have v: "?v ''aF/base/1'' = Some ''agez17''" "?v ''aF/postgresql.auto.conf'' = Some ''agez#''"
    using example_paths_restore(5) by (simp_all add: example_restore_view example_contents_def)
  have f: "fx_Decrypt example_filters i = example_unstage ''age''" "fx_NewReader example_filters y = example_unstage ''z''" for i y
    by (simp_all add: example_filters_def)
  have r: "restored example_filters ''zstd'' [''key''] ?v ''aF'' x \<noteq> None" if "x \<in> {''base/1'', ''postgresql.auto.conf''}" for x
    using that v by (auto simp: restored_def example_paths_restore Unwrap_def compression_Get_def encryption_NewReader_def f example_unstage_def)
  have T: "\<exists>x. p = ''/t/'' @ x" if "p \<in> ?T" for p using that by (auto simp: restore_targets_def)
  have "file_at example_restore_store p = None" if "\<exists>x. p = ''/t'' @ x" for p using that example_store_names(1) [of p] by fastforce
  moreover have "p \<notin> ?T" if "p \<in> {''/t'', ''/t/pg_wal'', ''/t/base''}" for p using that by (auto simp: restore_targets_def)
  moreover have "p \<notin> dirs example_restore_store" if "p \<in> ?T" for p using T [OF that] example_store_names(2) [of p] by auto
  ultimately show ?thesis
    using r example_restore_view(2) example_store_names(3) example_texts(3) unfolding restore_ready_def
    by (simp add: example_restore_options_def example_full_sidecar_def example_listed_def validatePITRExclusive_def slice_list_def
        example_paths_restore(8) example_root_def)
qed

lemma example_fails_through:
  "\<forall>ids. fails_through (fx_Decrypt example_filters ids)" "\<forall>c. fails_through (fx_NewReader example_filters c)"
  by (simp_all add: fails_through_def example_filters_def example_unstage_def)

definition example_host :: "(pfs, nat) Host" where
  "example_host = \<lparr>h_os = pfs_os, o_Stat = pfs_stat, o_Remove = os_Remove, o_Symlink = (\<lambda>_ _ s. (Inl (errors_New ''symlink''), s)),
     o_MkdirTemp = (\<lambda>_ _ s. (Inl (errors_New ''mkdir''), s)), o_RemoveAll = (\<lambda>_ s. (Inl (errors_New ''remove''), s)),
     o_LookPath = (\<lambda>_ s. (Inl (errors_New ''not found''), s)), o_Command = (\<lambda>_ _ s. (Inl (errors_New ''not found''), s)), o_Getenv = (\<lambda>_. [])\<rparr>"

theorem Run_succeeds_witness:
  "\<exists>res s'. Run example_filters rev (pfs_host example_host) (posix_backend example_root) example_restore_options example_restore_store = (Inr res, s')"
  using Run_succeeds [OF example_fails_through example_restorable _ example_ready, of rev example_host] by simp

theorem Run_restores_files_witness:
  "\<exists>res s'. Run example_filters rev (pfs_host example_host) (posix_backend example_root) example_restore_options example_restore_store = (Inr res, s') \<and>
     rr_Files res = 2 \<and> file_at s' ''/t/base/1'' = Some ''17''"
proof -
  have m: "\<forall>fs :: rawVerifyFile list. mset (rev fs) = mset fs" by simp
  obtain res s' where run: "Run example_filters rev (pfs_host example_host) (posix_backend example_root) example_restore_options example_restore_store = (Inr res, s')"
    using Run_works [OF example_fails_through example_restorable m example_ready] by blast
  have v: "posix_view example_root example_restore_store ''aF/base/1'' = Some ''agez17''"
    using example_paths_restore(5) by (simp add: example_restore_view example_contents_def)
  have f: "fx_Decrypt example_filters i = example_unstage ''age''" "fx_NewReader example_filters y = example_unstage ''z''" for i y
    by (simp_all add: example_filters_def)
  from Run_restores_files [OF example_fails_through example_restorable m run] obtain codec x where
    1: "restore_codec example_full_sidecar = Inr codec" "rr_Files res = length example_listed"
      "restored example_filters codec [''key''] (posix_view example_root example_restore_store) ''aF'' ''base/1'' = Some x"
      "\<not> late_file ''base/1'' \<longrightarrow> file_at s' (''/t'' @ ''/'' @ ''base/1'') = Some x"
    by (auto simp: example_listed_def example_restore_options_def)
  have c: "codec = ''zstd''" using 1(1) example_texts(3) by simp
  have "x = ''17''" using v 1(3) unfolding c
    by (simp add: restored_def example_paths_restore Unwrap_def compression_Get_def encryption_NewReader_def f example_unstage_def)
  then show ?thesis using run 1(2,4) by (simp add: example_listed_def late_file_def)
qed

theorem Run_prepares_recovery_witness:
  "\<exists>res s'. Run example_filters rev (pfs_host example_host) (posix_backend example_root) example_restore_options example_restore_store = (Inr res, s') \<and>
     file_at s' ''/t/recovery.signal'' = Some [] \<and> file_at s' ''/t/postgresql.auto.conf'' = Some (auto_conf example_restore_options ''#'') \<and>
     file_at s' ''/t/pg_wal/000000010000000000000002'' \<noteq> None"
proof -
  have m: "\<forall>fs :: rawVerifyFile list. mset (rev fs) = mset fs" by simp
  obtain res s' where run: "Run example_filters rev (pfs_host example_host) (posix_backend example_root) example_restore_options example_restore_store = (Inr res, s')"
    using Run_works [OF example_fails_through example_restorable m example_ready] by blast
  note p = Run_prepares_recovery [OF example_fails_through example_restorable m run]
  have v: "posix_view example_root example_restore_store ''aF/postgresql.auto.conf'' = Some ''agez#''"
    "posix_view example_root example_restore_store example_wal_key = Some ''wal''"
    using example_paths_restore(5) example_texts(5) by (simp_all add: example_restore_view example_contents_def example_wal_key_def)
  have f: "fx_Decrypt example_filters i = example_unstage ''age''" "fx_NewReader example_filters y = example_unstage ''z''" for i y
    by (simp_all add: example_filters_def)
  have "restored example_filters ''zstd'' [''key''] (posix_view example_root example_restore_store) ''aF'' ''postgresql.auto.conf'' = Some ''#''"
    using v(1) by (simp add: restored_def example_paths_restore Unwrap_def compression_Get_def encryption_NewReader_def f example_unstage_def)
  then have a: "file_at s' ''/t/postgresql.auto.conf'' = Some (auto_conf example_restore_options ''#'')"
    using p example_texts(3) by (simp add: example_restore_options_def example_listed_def)
  have "listed ''wal'' example_wal_key" by (simp add: listed_def example_wal_key_def)
  then obtain k' where "posix_view example_root example_restore_store k' \<noteq> None"
    "file_at s' (ro_Target example_restore_options @ ''/pg_wal/'' @ ''000000010000000000000002'') = posix_view example_root example_restore_store k'"
    using p v(2) example_texts(4) by blast
  then have "file_at s' ''/t/pg_wal/000000010000000000000002'' \<noteq> None" by (simp add: example_restore_options_def)
  then show ?thesis using run a p by (simp add: example_restore_options_def signal_file_def)
qed

end
