(* ===== verification/Restore_Chain.thy ===== *)
theory Restore_Chain
  imports Restore
begin

text \<open>
  What \<open>buildChain\<close> finds: the chain of parents that the sidecars describe, from the full backup to the leaf.
\<close>

definition sidecar_of :: "(string \<Rightarrow> bytes option) \<Rightarrow> string \<Rightarrow> Sidecar option" where
  "sidecar_of v d =
     (case v (path_Join [d, ''Storage-Metadata.json'']) of
        None \<Rightarrow> None
      | Some b \<Rightarrow> (case UnmarshalSidecar b of Inl _ \<Rightarrow> None | Inr sc \<Rightarrow> Some sc))"

text \<open>\<open>chain_to v d ch\<close>: \<open>ch\<close> leads from a full backup to \<open>d\<close>, every other member an incremental of the one before.\<close>

inductive chain_to :: "(string \<Rightarrow> bytes option) \<Rightarrow> string \<Rightarrow> string list \<Rightarrow> bool" for v where
  root: "sidecar_of v d = Some sc \<Longrightarrow> sc_Type sc = BackupTypeFull \<or> sc_Type sc = [] \<Longrightarrow> chain_to v d [d]"
| step: "sidecar_of v d = Some sc \<Longrightarrow> sc_Type sc = BackupTypeIncremental \<Longrightarrow> sc_ParentBackupID sc \<noteq> [] \<Longrightarrow>
    chain_to v (sc_ParentBackupID sc) ch \<Longrightarrow> chain_to v d (ch @ [d])"

lemma types_differ: "BackupTypeFull \<noteq> BackupTypeIncremental" "BackupTypeIncremental \<noteq> []" "BackupTypeFull \<noteq> []"
  by (simp_all add: BackupTypeFull_def BackupTypeIncremental_def)

lemma chain_to_cases:
  "chain_to v d ch \<longleftrightarrow>
     (\<exists>sc. sidecar_of v d = Some sc \<and>
        (if sc_Type sc = BackupTypeFull \<or> sc_Type sc = [] then ch = [d]
         else sc_Type sc = BackupTypeIncremental \<and> sc_ParentBackupID sc \<noteq> [] \<and> (\<exists>ch'. ch = ch' @ [d] \<and> chain_to v (sc_ParentBackupID sc) ch')))"
proof (cases "sidecar_of v d")
  case None
  then show ?thesis by (subst chain_to.simps) simp
next
  case (Some sc)
  then show ?thesis using types_differ by (subst chain_to.simps) (cases "sc_Type sc = BackupTypeFull \<or> sc_Type sc = []"; auto)
qed

lemma chain_to_det: "chain_to v d ch \<Longrightarrow> chain_to v d ch' \<Longrightarrow> ch = ch'"
proof (induction arbitrary: ch' rule: chain_to.induct)
  case (root d sc)
  from root.prems show ?case
  proof cases
    case (step sc' ch'')
    then show ?thesis using root.hyps types_differ by simp
  qed simp
next
  case (step d sc ch)
  from step.prems show ?case
  proof cases
    case (root sc')
    then show ?thesis using step.hyps types_differ by simp
  next
    case (step sc' ch'')
    then have "sc' = sc" using step.hyps(1) \<open>sidecar_of v d = Some sc\<close> by simp
    then show ?thesis using step \<open>\<And>ch'. chain_to v (sc_ParentBackupID sc) ch' \<Longrightarrow> ch = ch'\<close> by simp
  qed
qed

text \<open>Every prefix of a chain is the chain of its last member, so no backup occurs twice.\<close>

lemma chain_to_prefix: "chain_to v d ch \<Longrightarrow> i < length ch \<Longrightarrow> chain_to v (ch ! i) (take (Suc i) ch)"
proof (induction arbitrary: i rule: chain_to.induct)
  case (root d sc)
  then show ?case using chain_to.root [of v d sc] by simp
next
  case (step d sc ch)
  show ?case
  proof (cases "i < length ch")
    case True
    then show ?thesis using step.IH [of i] by (simp add: nth_append)
  next
    case False
    then have "i = length ch" using step.prems by simp
    then show ?thesis using chain_to.step [OF step.hyps] by simp
  qed
qed

lemma chain_to_distinct:
  assumes "chain_to v d ch"
  shows "distinct ch"
  unfolding distinct_conv_nth
proof (intro allI impI notI)
  fix i j assume ij: "i < length ch" "j < length ch" "i \<noteq> j" "ch ! i = ch ! j"
  then have "take (Suc i) ch = take (Suc j) ch"
    using chain_to_det [OF chain_to_prefix [OF assms ij(1)]] chain_to_prefix [OF assms ij(2)] by simp
  then have "length (take (Suc i) ch) = length (take (Suc j) ch)" by simp
  then show False using ij by simp
qed

definition parents_clean :: "(string \<Rightarrow> bytes option) \<Rightarrow> bool" where
  "parents_clean v \<longleftrightarrow> (\<forall>d sc. sidecar_of v d = Some sc \<and> sc_ParentBackupID sc \<noteq> [] \<longrightarrow> clean_rel (sc_ParentBackupID sc))"

lemma readSidecar_healthy:
  assumes "posix_inv r s" "healthy s" "clean_rel d"
  shows "\<exists>s'. posix_inv r s' \<and> healthy s' \<and> posix_view r s' = posix_view r s \<and>
    (case sidecar_of (posix_view r s) d of
       Some sc \<Rightarrow> restore_readSidecar (posix_backend r) d s = (Inr sc, s')
     | None \<Rightarrow> \<exists>e. restore_readSidecar (posix_backend r) d s = (Inl e, s'))"
proof -
  let ?k = "path_Join [d, ''Storage-Metadata.json'']"
  have c: "clean_rel ''Storage-Metadata.json''" "CHR ''/'' \<notin> set ''Storage-Metadata.json''" "\<not> strings_Contains ''Storage-Metadata.json'' ''.pgsafe-tmp''" by code_simp+
  have k: "?k = d @ CHR ''/'' # ''Storage-Metadata.json''" by (rule path_Join_rel [OF assms(3) c(1)])
  have "path_Base ?k = ''Storage-Metadata.json''" unfolding k by (rule path_Base_append [OF _ c(2)]) simp
  then have pk: "posix_key ?k" unfolding posix_key_def using k c assms(3) by (simp add: clean_rel_append)
  show ?thesis
  proof (cases "posix_view r s ?k")
    case (Some b)
    then show ?thesis using healthy_get [OF assms(1,2) Some] assms(1,2)
      by (intro exI [of _ "tick (tick s)"]) (auto simp: sidecar_of_def restore_readSidecar_def posix_backend_def io_ReadAll_def split: sum.splits)
  next
    case None
    then obtain e s' where g: "readBlob (posix_backend r) ?k s = (Inl e, s')" using healthy_get_none [OF assms(1,2) pk] by blast
    obtain rc where rc: "b_Get (posix_backend r) ?k s = (rc, s')" using g by (auto simp: readBlob_def split: sum.splits prod.splits)
    have "posix_inv r s' \<and> posix_view r s' = posix_view r s" by (rule pstore.get [OF assms(1) pk rc])
    moreover have "healthy s'" using rc assms(2)
      by (auto simp: posix_backend_def posix_Get_def os_Open_def healthy_def fault_now_def tick_def split: sum.splits prod.splits node.splits)
    moreover have "restore_readSidecar (posix_backend r) d s = (Inl e, s')"
      using g rc by (auto simp: readBlob_def restore_readSidecar_def split: sum.splits)
    ultimately show ?thesis using None by (auto simp: sidecar_of_def)
  qed
qed

lemma chain_walk_iff:
  assumes "parents_clean (posix_view r s0)"
  shows "posix_inv r s \<Longrightarrow> healthy s \<Longrightarrow> posix_view r s = posix_view r s0 \<Longrightarrow> clean_rel d \<Longrightarrow>
    fst (chain_walk (posix_backend r) n d acc s) = Inr c \<longleftrightarrow>
      (\<exists>ch. chain_to (posix_view r s0) d ch \<and> length ch \<le> n \<and> c = ch @ acc)"
proof (induction n arbitrary: d acc s)
  case 0
  then show ?case by (subst chain_to_cases) (auto split: if_splits)
next
  case (Suc n)
  obtain s' where s': "posix_inv r s'" "healthy s'" "posix_view r s' = posix_view r s0"
    "case sidecar_of (posix_view r s0) d of
       Some sc \<Rightarrow> restore_readSidecar (posix_backend r) d s = (Inr sc, s')
     | None \<Rightarrow> \<exists>e. restore_readSidecar (posix_backend r) d s = (Inl e, s')"
    using readSidecar_healthy [OF Suc.prems(1,2,4)] Suc.prems(3) by auto
  show ?case
  proof (cases "sidecar_of (posix_view r s0) d")
    case None
    then show ?thesis using s'(4) by (subst chain_to_cases) auto
  next
    case (Some sc)
    then have rd: "restore_readSidecar (posix_backend r) d s = (Inr sc, s')" using s'(4) by simp
    let ?p = "sc_ParentBackupID sc"
    consider "sc_Type sc = BackupTypeFull \<or> sc_Type sc = []" | "sc_Type sc = BackupTypeIncremental" "?p \<noteq> []"
      | "\<not> (sc_Type sc = BackupTypeFull \<or> sc_Type sc = [])" "\<not> (sc_Type sc = BackupTypeIncremental \<and> ?p \<noteq> [])" by blast
    then show ?thesis
    proof cases
      case 1
      then show ?thesis using rd Some by (subst chain_to_cases) auto
    next
      case 2
      then have cp: "clean_rel ?p" using assms Some by (auto simp: parents_clean_def)
      have "chain_walk (posix_backend r) (Suc n) d acc s = chain_walk (posix_backend r) n ?p (d # acc) s'"
        using rd 2 types_differ by auto
      then show ?thesis using Suc.IH [OF s'(1-3) cp, of "d # acc"] 2 Some types_differ by (subst chain_to_cases) auto
    next
      case 3
      then show ?thesis using rd Some by (subst chain_to_cases) auto
    qed
  qed
qed

text \<open>C10: on a storage without faults \<open>buildChain\<close> returns exactly the chain that the sidecars describe, full backup first and
  without repetition, if there is one of at most 64 backups; it fails otherwise, so also when the parents form a cycle.\<close>

theorem buildChain_finds_chain:
  assumes "posix_inv r s" "healthy s" "clean_rel leaf" "parents_clean (posix_view r s)"
  shows "(fst (buildChain (posix_backend r) leaf s) = Inr chain \<longleftrightarrow> chain_to (posix_view r s) leaf chain \<and> length chain \<le> 64) \<and>
    (chain_to (posix_view r s) leaf chain \<longrightarrow> distinct chain)"
  using chain_walk_iff [OF assms(4,1,2) refl assms(3), of 64 "[]" chain] chain_to_distinct [of "posix_view r s" leaf chain]
  by (auto simp: buildChain_def maxDepth_def)

definition incremental_text :: bytes where
  "incremental_text = ''{'' @ quoted ''type'' @ '':'' @ quoted ''incremental'' @ '',''  @ quoted ''parent_backup_id'' @ '':'' @ quoted ''aF'' @ ''}''"

definition example_chain_store :: pfs where
  "example_chain_store = store_fs [''aF'', ''bI''] [(''aF/Storage-Metadata.json'', ''{}''), (''bI/Storage-Metadata.json'', incremental_text)]"

theorem buildChain_finds_chain_witness:
  "fst (buildChain (posix_backend example_root) ''bI'' example_chain_store) = Inr [''aF'', ''bI'']"
proof -
  let ?v = "posix_view example_root example_chain_store"
  have ok: "store_ok [''aF'', ''bI''] (map fst [(''aF/Storage-Metadata.json'', ''{}''), (''bI/Storage-Metadata.json'', incremental_text)])" by code_simp
  have t: "UnmarshalSidecar ''{}'' = Inr zero_Sidecar"
    "UnmarshalSidecar incremental_text = Inr (zero_Sidecar\<lparr>sc_Type := ''incremental'', sc_ParentBackupID := ''aF''\<rparr>)" by code_simp+
  have k: "posix_key ''aF/Storage-Metadata.json''" "posix_key ''bI/Storage-Metadata.json''" "clean_rel ''aF''" "clean_rel ''bI''"
    "path_Join [''aF'', ''Storage-Metadata.json''] = ''aF/Storage-Metadata.json''" "path_Join [''bI'', ''Storage-Metadata.json''] = ''bI/Storage-Metadata.json''"
    by code_simp+
  have v: "?v x = (if posix_key x then map_of [(''aF/Storage-Metadata.json'', ''{}''), (''bI/Storage-Metadata.json'', incremental_text)] x else None)" for x
    unfolding example_chain_store_def by (rule store_fs_view [OF ok])
  have a: "sidecar_of ?v ''aF'' = Some zero_Sidecar" using t k by (simp add: sidecar_of_def v)
  have b: "sidecar_of ?v ''bI'' = Some (zero_Sidecar\<lparr>sc_Type := ''incremental'', sc_ParentBackupID := ''aF''\<rparr>)" using t k by (simp add: sidecar_of_def v)
  have "chain_to ?v ''aF'' [''aF'']" by (rule chain_to.root [OF a]) (simp add: zero_Sidecar_def)
  then have ch: "chain_to ?v ''bI'' ([''aF''] @ [''bI''])" by (intro chain_to.step [OF b]) (simp_all add: BackupTypeIncremental_def)
  have pc: "parents_clean ?v" using k(3) t unfolding parents_clean_def
    by (auto simp: sidecar_of_def v zero_Sidecar_def split: option.splits sum.splits if_splits)
  have inv: "posix_inv example_root example_chain_store" unfolding example_chain_store_def by (rule store_fs_inv [OF ok])
  have h: "healthy example_chain_store" by (simp add: example_chain_store_def)
  from buildChain_finds_chain [OF inv h k(4) pc, of "[''aF'', ''bI'']"] ch show ?thesis by simp
qed

end
