(* ===== verification/Configuration.thy ===== *)
theory Configuration
  imports Filter_Chain Posix
begin

text \<open>
  \<open>internal/config/config.go\<close>: the configuration of a server, its defaults and its validation. The YAML decoder
  and \<open>age.ParseX25519Recipient\<close> are third-party and parameters. A pointer is an option.
\<close>

record S3Config =
  s3_Bucket :: string
  s3_Region :: string
  s3_Endpoint :: string
  s3_UsePathStyle :: bool
  s3_AccessKeyID :: string
  s3_SecretAccessKey :: string
  s3_Prefix :: string

record AzureConfig =
  az_AccountName :: string
  az_Container :: string
  az_AccountKey :: string
  az_SASToken :: string
  az_ConnectionString :: string
  az_BlobEndpoint :: string
  az_Prefix :: string

record GCSConfig =
  gcs_Bucket :: string
  gcs_CredentialsFile :: string
  gcs_Endpoint :: string
  gcs_Prefix :: string

record SFTPConfig =
  sftp_Host :: string
  sftp_Port :: int
  sftp_Username :: string
  sftp_Password :: string
  sftp_PrivateKeyFile :: string
  sftp_BasePath :: string
  sftp_HostKey :: string
  sftp_InsecureIgnoreHostKey :: bool

record StorageConfig =
  sg_Type :: string
  sg_Path :: string
  sg_S3 :: "S3Config option"
  sg_Azure :: "AzureConfig option"
  sg_GCS :: "GCSConfig option"
  sg_SFTP :: "SFTPConfig option"

record PGConfig =
  pg_ConnString :: string
  pg_Version :: int
  pg_Host :: string
  pg_SSHExtraArgs :: string
  pg_StorageReach :: string

record CompressionConfig =
  cc_Codec :: string
  cc_Level :: int

record EncryptionConfig =
  ec_Recipients :: "string list"

record LogConfig =
  lc_Format :: string
  lc_Level :: string

record BackupConfig =
  bc_ArchiveTimeout :: duration
  bc_ScratchDir :: string
  bc_Resume :: "bool option"
  bc_ResumeCheckpointEveryN :: int
  bc_ResumeGracePeriod :: duration

record Config =
  cf_Server :: string
  cf_PG :: PGConfig
  cf_Storages :: "StorageConfig list"
  cf_Compression :: CompressionConfig
  cf_Encryption :: EncryptionConfig
  cf_Log :: LogConfig
  cf_Backup :: BackupConfig

text \<open>\<open>PrimaryStorage\<close> panics on an empty list.\<close>

definition PrimaryStorage :: "Config \<Rightarrow> StorageConfig option" where
  "PrimaryStorage c = (case cf_Storages c of [] \<Rightarrow> None | s # _ \<Rightarrow> Some s)"

definition validCodecs :: "string list" where "validCodecs = [''gzip'', ''lz4'', ''zstd'', ''bzip2'']"
definition validStorageTypes :: "string list" where "validStorageTypes = [''posix'', ''s3'', ''azure'', ''gcs'', ''sftp'']"
definition validPGVersions :: "int list" where "validPGVersions = [13, 14, 15, 16, 17, 18]"
definition validLogFormats :: "string list" where "validLogFormats = [''json'', ''text'']"
definition validLogLevels :: "string list" where "validLogLevels = [''debug'', ''info'', ''warn'', ''error'']"

fun join_comma :: "string list \<Rightarrow> string" where
  "join_comma [] = []"
| "join_comma [x] = x"
| "join_comma (x # y # xs) = x @ '', '' @ join_comma (y # xs)"

text \<open>The first failing test gives the error.\<close>

fun first_failing :: "(bool \<times> string) list \<Rightarrow> goerr option" where
  "first_failing [] = None"
| "first_failing ((bad, msg) # ts) = (if bad then Some (errors_New msg) else first_failing ts)"

definition mismatched :: "StorageConfig \<Rightarrow> string list" where
  "mismatched r =
     (if sg_Type r \<noteq> ''posix'' \<and> sg_Path r \<noteq> [] then [''path''] else [])
     @ (if sg_Type r \<noteq> ''s3'' \<and> sg_S3 r \<noteq> None then [''s3''] else [])
     @ (if sg_Type r \<noteq> ''azure'' \<and> sg_Azure r \<noteq> None then [''azure''] else [])
     @ (if sg_Type r \<noteq> ''gcs'' \<and> sg_GCS r \<noteq> None then [''gcs''] else [])
     @ (if sg_Type r \<noteq> ''sftp'' \<and> sg_SFTP r \<noteq> None then [''sftp''] else [])"

definition validate_posix :: "StorageConfig \<Rightarrow> goerr option" where
  "validate_posix r = first_failing
     [(sg_Path r = [], ''config: storage.path must be non-empty for type=posix''),
      (\<not> filepath_IsAbs (sg_Path r), ''config: storage.path = '' @ sg_Path r @ '' must be an absolute path'')]"

definition validate_s3 :: "S3Config option \<Rightarrow> goerr option" where
  "validate_s3 x =
     (case x of
        None \<Rightarrow> Some (errors_New ''config: storage.s3 section required for type=s3'')
      | Some s \<Rightarrow> first_failing
          [(s3_Bucket s = [], ''config: storage.s3.bucket must be non-empty''),
           (s3_Region s = [], ''config: storage.s3.region must be non-empty'')])"

definition validate_azure :: "AzureConfig option \<Rightarrow> goerr option" where
  "validate_azure x =
     (case x of
        None \<Rightarrow> Some (errors_New ''config: storage.azure section required for type=azure'')
      | Some a \<Rightarrow> first_failing
          [(az_AccountName a = [] \<and> az_ConnectionString a = [], ''config: storage.azure.account_name or connection_string required''),
           (az_Container a = [], ''config: storage.azure.container must be non-empty''),
           (az_AccountKey a = [] \<and> az_SASToken a = [] \<and> az_ConnectionString a = [],
              ''config: storage.azure requires one of account_key, sas_token, or connection_string'')])"

definition validate_gcs :: "GCSConfig option \<Rightarrow> goerr option" where
  "validate_gcs x =
     (case x of
        None \<Rightarrow> Some (errors_New ''config: storage.gcs section required for type=gcs'')
      | Some g \<Rightarrow> first_failing [(gcs_Bucket g = [], ''config: storage.gcs.bucket must be non-empty'')])"

definition validate_sftp :: "SFTPConfig option \<Rightarrow> goerr option" where
  "validate_sftp x =
     (case x of
        None \<Rightarrow> Some (errors_New ''config: storage.sftp section required for type=sftp'')
      | Some f \<Rightarrow> first_failing
          [(sftp_Host f = [], ''config: storage.sftp.host must be non-empty''),
           (sftp_Username f = [], ''config: storage.sftp.username must be non-empty''),
           (sftp_BasePath f = [], ''config: storage.sftp.base_path must be non-empty''),
           (sftp_Password f = [] \<and> sftp_PrivateKeyFile f = [], ''config: storage.sftp requires one of password or private_key_file''),
           (sftp_HostKey f = [] \<and> \<not> sftp_InsecureIgnoreHostKey f,
              ''config: storage.sftp requires host_key (recommended) or insecure_ignore_host_key=true'')])"

definition validateBackend :: "StorageConfig \<Rightarrow> goerr option" where
  "validateBackend r =
     (if mismatched r \<noteq> []
      then Some (errors_New (''config: storage.type = '' @ sg_Type r @ '' but unrelated section(s) present: '' @ join_comma (mismatched r)))
      else if sg_Type r = ''posix'' then validate_posix r
      else if sg_Type r = ''s3'' then validate_s3 (sg_S3 r)
      else if sg_Type r = ''azure'' then validate_azure (sg_Azure r)
      else if sg_Type r = ''gcs'' then validate_gcs (sg_GCS r)
      else if sg_Type r = ''sftp'' then validate_sftp (sg_SFTP r)
      else None)"

definition applyDefaults :: "Config \<Rightarrow> Config" where
  "applyDefaults c =
     c\<lparr>cf_Log := (cf_Log c)\<lparr>lc_Format := if lc_Format (cf_Log c) = [] then ''json'' else lc_Format (cf_Log c),
                            lc_Level := if lc_Level (cf_Log c) = [] then ''info'' else lc_Level (cf_Log c)\<rparr>,
       cf_Backup := (cf_Backup c)\<lparr>
         bc_ArchiveTimeout := if bc_ArchiveTimeout (cf_Backup c) = 0 then 30 * time_Minute else bc_ArchiveTimeout (cf_Backup c),
         bc_Resume := if bc_Resume (cf_Backup c) = None then Some True else bc_Resume (cf_Backup c),
         bc_ResumeGracePeriod := if bc_ResumeGracePeriod (cf_Backup c) = 0 then 24 * time_Hour else bc_ResumeGracePeriod (cf_Backup c)\<rparr>\<rparr>"

text \<open>\<open>Load\<close>, with the strict YAML decoder as \<open>decode\<close>.\<close>

definition Load :: "(bytes \<Rightarrow> Config res) \<Rightarrow> bytes \<Rightarrow> Config res" where
  "Load decode r = (case decode r of Inl e \<Rightarrow> Inl (wrapErr ''config: parse'' e) | Inr c \<Rightarrow> Inr (applyDefaults c))"

text \<open>The loop over the storages; \<open>n\<close> is their number and \<open>i\<close> the index of the first of the rest.\<close>

fun validate_storages :: "nat \<Rightarrow> nat \<Rightarrow> StorageConfig list \<Rightarrow> goerr option" where
  "validate_storages n i [] = None"
| "validate_storages n i (s # ss) =
     (if sg_Type s \<notin> set validStorageTypes
      then Some (errors_New (''config: storages['' @ fmt_d i @ ''].type = '' @ sg_Type s @ ''; valid: '' @ join_comma validStorageTypes))
      else case validateBackend s of
             Some e \<Rightarrow> Some (if n = 1 then e else wrapErr (''config: storages['' @ fmt_d i @ '']'') e)
           | None \<Rightarrow> validate_storages n (i + 1) ss)"

fun validate_recipients :: "(string \<Rightarrow> 'r res) \<Rightarrow> nat \<Rightarrow> string list \<Rightarrow> goerr option" where
  "validate_recipients parse i [] = None"
| "validate_recipients parse i (x # xs) =
     (case parse x of
        Inl e \<Rightarrow> Some (wrapErr (''config: encryption.recipients['' @ fmt_d i @ ''] = '' @ x) e)
      | Inr _ \<Rightarrow> validate_recipients parse (i + 1) xs)"

definition or_else :: "goerr option \<Rightarrow> goerr option \<Rightarrow> goerr option" where
  "or_else a b = (case a of Some e \<Rightarrow> Some e | None \<Rightarrow> b)"

definition Validate :: "(string \<Rightarrow> 'r res) \<Rightarrow> Config \<Rightarrow> goerr option" where
  "Validate parse c =
     or_else (first_failing
       [(cf_Server c = [], ''config: server must be non-empty''),
        (pg_ConnString (cf_PG c) = [], ''config: pg.conn_string must be non-empty''),
        (pg_Version (cf_PG c) \<notin> set validPGVersions, ''config: pg.version = '' @ fmt_int (pg_Version (cf_PG c)) @ ''; valid: [13 14 15 16 17 18]''),
        (pg_StorageReach (cf_PG c) \<notin> {[], ''auto'', ''native_only'', ''via_caller''},
           ''config: pg.storage_reach = '' @ pg_StorageReach (cf_PG c) @ ''; valid: auto, native_only, via_caller''),
        (cf_Storages c = [], ''config: at least one storage must be configured (use storage: or storages:)'')])
     (or_else (validate_storages (length (cf_Storages c)) 0 (cf_Storages c))
     (or_else (first_failing
       [(cc_Codec (cf_Compression c) \<notin> set validCodecs, ''config: compression.codec = '' @ cc_Codec (cf_Compression c) @ ''; valid: '' @ join_comma validCodecs),
        (cc_Level (cf_Compression c) < 0, ''config: compression.level = '' @ fmt_int (cc_Level (cf_Compression c)) @ '' must be non-negative''),
        (ec_Recipients (cf_Encryption c) = [], ''config: encryption.recipients must declare at least one age public key'')])
     (or_else (validate_recipients parse 0 (ec_Recipients (cf_Encryption c)))
       (first_failing
         [(lc_Format (cf_Log c) \<notin> set validLogFormats, ''config: log.format = '' @ lc_Format (cf_Log c) @ ''; valid: '' @ join_comma validLogFormats),
          (lc_Level (cf_Log c) \<notin> set validLogLevels, ''config: log.level = '' @ lc_Level (cf_Log c) @ ''; valid: '' @ join_comma validLogLevels)]))))"


section \<open>The types a valid configuration has\<close>

text \<open>A storage is one of five kinds with exactly the section of its kind.\<close>

datatype storage = PosixStorage string | S3Storage S3Config | AzureStorage AzureConfig | GCSStorage GCSConfig | SFTPStorage SFTPConfig

fun storage_ok :: "storage \<Rightarrow> bool" where
  "storage_ok (PosixStorage p) \<longleftrightarrow> filepath_IsAbs p"
| "storage_ok (S3Storage s) \<longleftrightarrow> s3_Bucket s \<noteq> [] \<and> s3_Region s \<noteq> []"
| "storage_ok (AzureStorage a) \<longleftrightarrow> az_Container a \<noteq> [] \<and>
     (az_ConnectionString a \<noteq> [] \<or> az_AccountName a \<noteq> [] \<and> (az_AccountKey a \<noteq> [] \<or> az_SASToken a \<noteq> []))"
| "storage_ok (GCSStorage g) \<longleftrightarrow> gcs_Bucket g \<noteq> []"
| "storage_ok (SFTPStorage f) \<longleftrightarrow> sftp_Host f \<noteq> [] \<and> sftp_Username f \<noteq> [] \<and> sftp_BasePath f \<noteq> [] \<and>
     (sftp_Password f \<noteq> [] \<or> sftp_PrivateKeyFile f \<noteq> []) \<and> (sftp_HostKey f \<noteq> [] \<or> sftp_InsecureIgnoreHostKey f)"

fun storage_config :: "storage \<Rightarrow> StorageConfig" where
  "storage_config (PosixStorage p) = \<lparr>sg_Type = ''posix'', sg_Path = p, sg_S3 = None, sg_Azure = None, sg_GCS = None, sg_SFTP = None\<rparr>"
| "storage_config (S3Storage s) = \<lparr>sg_Type = ''s3'', sg_Path = [], sg_S3 = Some s, sg_Azure = None, sg_GCS = None, sg_SFTP = None\<rparr>"
| "storage_config (AzureStorage a) = \<lparr>sg_Type = ''azure'', sg_Path = [], sg_S3 = None, sg_Azure = Some a, sg_GCS = None, sg_SFTP = None\<rparr>"
| "storage_config (GCSStorage g) = \<lparr>sg_Type = ''gcs'', sg_Path = [], sg_S3 = None, sg_Azure = None, sg_GCS = Some g, sg_SFTP = None\<rparr>"
| "storage_config (SFTPStorage f) = \<lparr>sg_Type = ''sftp'', sg_Path = [], sg_S3 = None, sg_Azure = None, sg_GCS = None, sg_SFTP = Some f\<rparr>"

lemma IsAbs_nonempty: "filepath_IsAbs p \<Longrightarrow> p \<noteq> []"
  by (auto simp: filepath_IsAbs_def)

lemma first_failing_None: "first_failing ts = None \<longleftrightarrow> (\<forall>(bad, _) \<in> set ts. \<not> bad)"
  by (induction ts rule: first_failing.induct) auto

lemma or_else_None [simp]: "or_else a b = None \<longleftrightarrow> a = None \<and> b = None"
  by (simp add: or_else_def split: option.splits)

lemma mismatched_Nil:
  "mismatched r = [] \<longleftrightarrow> (sg_Type r \<noteq> ''posix'' \<longrightarrow> sg_Path r = []) \<and> (sg_Type r \<noteq> ''s3'' \<longrightarrow> sg_S3 r = None) \<and>
     (sg_Type r \<noteq> ''azure'' \<longrightarrow> sg_Azure r = None) \<and> (sg_Type r \<noteq> ''gcs'' \<longrightarrow> sg_GCS r = None) \<and> (sg_Type r \<noteq> ''sftp'' \<longrightarrow> sg_SFTP r = None)"
  by (auto simp: mismatched_def)

lemma section_ok:
  "validate_posix r = None \<longleftrightarrow> filepath_IsAbs (sg_Path r)"
  "validate_s3 x = None \<longleftrightarrow> (\<exists>s. x = Some s \<and> storage_ok (S3Storage s))"
  "validate_azure y = None \<longleftrightarrow> (\<exists>a. y = Some a \<and> storage_ok (AzureStorage a))"
  "validate_gcs z = None \<longleftrightarrow> (\<exists>g. z = Some g \<and> storage_ok (GCSStorage g))"
  "validate_sftp w = None \<longleftrightarrow> (\<exists>f. w = Some f \<and> storage_ok (SFTPStorage f))"
  using IsAbs_nonempty
  by (auto simp: validate_posix_def validate_s3_def validate_azure_def validate_gcs_def validate_sftp_def first_failing_None split: option.splits)

lemma storage_valid:
  "sg_Type r \<in> set validStorageTypes \<and> validateBackend r = None \<longleftrightarrow> (\<exists>t. storage_ok t \<and> r = storage_config t)"
proof
  assume a: "sg_Type r \<in> set validStorageTypes \<and> validateBackend r = None"
  then have m: "mismatched r = []" by (auto simp: validateBackend_def split: if_splits)
  from a consider "sg_Type r = ''posix''" | "sg_Type r = ''s3''" | "sg_Type r = ''azure''" | "sg_Type r = ''gcs''" | "sg_Type r = ''sftp''"
    by (auto simp: validStorageTypes_def)
  then show "\<exists>t. storage_ok t \<and> r = storage_config t"
  proof cases
    case 1
    then have "filepath_IsAbs (sg_Path r)" using a m section_ok(1) by (simp add: validateBackend_def)
    then show ?thesis using 1 m by (intro exI [of _ "PosixStorage (sg_Path r)"]) (cases r, simp add: mismatched_Nil)
  next
    case 2
    then obtain s where "sg_S3 r = Some s" "storage_ok (S3Storage s)" using a m section_ok(2) by (auto simp: validateBackend_def)
    then show ?thesis using 2 m by (intro exI [of _ "S3Storage s"]) (cases r, simp add: mismatched_Nil)
  next
    case 3
    then obtain s where "sg_Azure r = Some s" "storage_ok (AzureStorage s)" using a m section_ok(3) by (auto simp: validateBackend_def)
    then show ?thesis using 3 m by (intro exI [of _ "AzureStorage s"]) (cases r, simp add: mismatched_Nil)
  next
    case 4
    then obtain s where "sg_GCS r = Some s" "storage_ok (GCSStorage s)" using a m section_ok(4) by (auto simp: validateBackend_def)
    then show ?thesis using 4 m by (intro exI [of _ "GCSStorage s"]) (cases r, simp add: mismatched_Nil)
  next
    case 5
    then obtain s where "sg_SFTP r = Some s" "storage_ok (SFTPStorage s)" using a m section_ok(5) by (auto simp: validateBackend_def)
    then show ?thesis using 5 m by (intro exI [of _ "SFTPStorage s"]) (cases r, simp add: mismatched_Nil)
  qed
next
  assume "\<exists>t. storage_ok t \<and> r = storage_config t"
  then obtain t where t: "storage_ok t" "r = storage_config t" by blast
  have m: "mismatched r = []" unfolding t(2) by (cases t) (simp_all add: mismatched_Nil)
  then show "sg_Type r \<in> set validStorageTypes \<and> validateBackend r = None"
    using t section_ok by (cases t) (simp_all add: validateBackend_def validStorageTypes_def)
qed

lemma validate_storages_None:
  "validate_storages n i ss = None \<longleftrightarrow> (\<forall>s \<in> set ss. sg_Type s \<in> set validStorageTypes \<and> validateBackend s = None)"
  by (induction ss arbitrary: i) (auto split: option.splits)

lemma validate_recipients_None: "validate_recipients parse i xs = None \<longleftrightarrow> (\<forall>x \<in> set xs. \<exists>y. parse x = Inr y)"
  by (induction xs arbitrary: i) (auto split: sum.splits)

definition config_typed :: "(string \<Rightarrow> 'r res) \<Rightarrow> Config \<Rightarrow> bool" where
  "config_typed parse c \<longleftrightarrow>
     cf_Server c \<noteq> [] \<and> pg_ConnString (cf_PG c) \<noteq> [] \<and> 13 \<le> pg_Version (cf_PG c) \<and> pg_Version (cf_PG c) \<le> 18 \<and>
     pg_StorageReach (cf_PG c) \<in> {[], ''auto'', ''native_only'', ''via_caller''} \<and>
     (\<exists>ts. ts \<noteq> [] \<and> list_all storage_ok ts \<and> cf_Storages c = map storage_config ts) \<and>
     (\<exists>rs. rs \<noteq> [] \<and> map parse (ec_Recipients (cf_Encryption c)) = map Inr rs \<and>
        (\<exists>ch. NewChain \<lparr>fo_Codec = cc_Codec (cf_Compression c), fo_Level = cc_Level (cf_Compression c), fo_Recipients = rs\<rparr> = Inr ch)) \<and>
     0 \<le> cc_Level (cf_Compression c) \<and>
     lc_Format (cf_Log c) \<in> {''json'', ''text''} \<and> lc_Level (cf_Log c) \<in> {''debug'', ''info'', ''warn'', ''error''}"

lemma storages_typed:
  "(\<forall>s \<in> set ss. sg_Type s \<in> set validStorageTypes \<and> validateBackend s = None) \<longleftrightarrow> (\<exists>ts. list_all storage_ok ts \<and> ss = map storage_config ts)"
proof (induction ss)
  case (Cons s ss)
  show ?case
  proof
    assume "\<forall>x \<in> set (s # ss). sg_Type x \<in> set validStorageTypes \<and> validateBackend x = None"
    then obtain t ts where "storage_ok t" "s = storage_config t" "list_all storage_ok ts" "ss = map storage_config ts"
      using storage_valid [of s] Cons.IH by auto
    then show "\<exists>ts. list_all storage_ok ts \<and> s # ss = map storage_config ts" by (intro exI [of _ "t # ts"]) simp
  next
    assume "\<exists>ts. list_all storage_ok ts \<and> s # ss = map storage_config ts"
    then obtain t ts where "storage_ok t" "s = storage_config t" "list_all storage_ok ts" "ss = map storage_config ts" by (auto simp: Cons_eq_map_conv)
    then show "\<forall>x \<in> set (s # ss). sg_Type x \<in> set validStorageTypes \<and> validateBackend x = None"
      using storage_valid [of s] Cons.IH by auto
  qed
qed simp

lemma recipients_typed: "(\<forall>x \<in> set xs. \<exists>y. parse x = Inr y) \<longleftrightarrow> (\<exists>rs. map parse xs = map Inr rs)"
proof (induction xs)
  case (Cons x xs)
  then show ?case by (auto simp: Cons_eq_map_conv)
qed simp

lemma NewChain_ok:
  "rs \<noteq> [] \<Longrightarrow> (\<exists>ch. NewChain \<lparr>fo_Codec = k, fo_Level = l, fo_Recipients = rs\<rparr> = Inr ch) \<longleftrightarrow> k \<in> set validCodecs"
  by (auto simp: NewChain_def compression_Get_def validCodecs_def split: if_splits)

lemma versions: "v \<in> set validPGVersions \<longleftrightarrow> 13 \<le> v \<and> v \<le> 18"
  by (auto simp: validPGVersions_def)

text \<open>C16: \<open>Validate\<close> accepts exactly the well-typed configurations: every storage is one of the five kinds with the section of its
  kind, complete, and no other; the codec and the recipients make a filter chain; every enumerated setting is one of its values.\<close>

theorem Validate_typed: "Validate parse c = None \<longleftrightarrow> config_typed parse c"
proof -
  let ?rs = "ec_Recipients (cf_Encryption c)"
  have s: "cf_Storages c \<noteq> [] \<and> validate_storages (length (cf_Storages c)) 0 (cf_Storages c) = None \<longleftrightarrow>
      (\<exists>ts. ts \<noteq> [] \<and> list_all storage_ok ts \<and> cf_Storages c = map storage_config ts)"
    unfolding validate_storages_None storages_typed by auto
  have r: "?rs \<noteq> [] \<and> validate_recipients parse 0 ?rs = None \<and> cc_Codec (cf_Compression c) \<in> set validCodecs \<longleftrightarrow>
      (\<exists>rs. rs \<noteq> [] \<and> map parse ?rs = map Inr rs \<and>
        (\<exists>ch. NewChain \<lparr>fo_Codec = cc_Codec (cf_Compression c), fo_Level = cc_Level (cf_Compression c), fo_Recipients = rs\<rparr> = Inr ch))"
    unfolding validate_recipients_None recipients_typed
    by (metis (no_types, lifting) NewChain_ok list.map_disc_iff)
  show ?thesis
    unfolding config_typed_def s [symmetric] r [symmetric]
    by (auto simp: Validate_def first_failing_None versions validLogFormats_def validLogLevels_def)
qed

end
