(* ===== verification/Lock.thy ===== *)
theory Lock
  imports Go_Fmt Go_Time
begin

text \<open>
  \<open>internal/lock\<close>: the lock that keeps \<open>prune\<close> and \<open>backup\<close> apart. Any number of callers, each a
  \<open>PosixLock\<close> in a process of its own, share one lock file. The kernel keeps the table of \<open>flock(2)\<close> locks, one
  per open file description. The body of \<open>Acquire\<close> is cut where other processes can come in between: opening
  the file, each attempt to lock it, each wait. A process may die at any moment; the kernel then closes its files.
\<close>

section \<open>The package\<close>

type_synonym Mode = int

definition Shared :: Mode where "Shared = 0"
definition Exclusive :: Mode where "Exclusive = 1"

definition Mode_String :: "Mode \<Rightarrow> string" where
  "Mode_String m = (if m = Shared then ''shared'' else if m = Exclusive then ''exclusive'' else ''unknown'')"

definition errLockTimeout :: goerr where
  "errLockTimeout = GoErr ErrLockTimeout ''lock: acquisition timed out''"

record PosixLock =
  pl_path :: string
  pl_fd :: "nat option"
  pl_heldMode :: Mode
  pl_released :: bool

definition NewPosix :: "string \<Rightarrow> PosixLock" where
  "NewPosix lockPath = \<lparr>pl_path = lockPath, pl_fd = None, pl_heldMode = 0, pl_released = False\<rparr>"

text \<open>The lock file in the kernel: who holds it (\<open>True\<close> for an exclusive lock), its content, the next description.\<close>

record lock_file =
  lf_locks :: "(nat \<times> bool) list"
  lf_body :: bytes
  lf_next :: nat

definition flock_NB :: "nat \<Rightarrow> bool \<Rightarrow> (nat \<times> bool) list \<Rightarrow> (nat \<times> bool) list option" where
  "flock_NB fd ex locks =
     (if list_ex (\<lambda>(f, x). f \<noteq> fd \<and> (ex \<or> x)) locks then None
      else Some ((fd, ex) # filter (\<lambda>(f, _). f \<noteq> fd) locks))"

definition flock_UN :: "nat \<Rightarrow> lock_file \<Rightarrow> lock_file" where
  "flock_UN fd k = k\<lparr>lf_locks := filter (\<lambda>(f, _). f \<noteq> fd) (lf_locks k)\<rparr>"

text \<open>
  Where a caller stands: between two calls, before an attempt, or waiting after a failed one, with the descriptor, the mode, the
  timeout and the deadline of the running \<open>Acquire\<close>. The mutex of the lock is held during a call, so a caller has one call
  at a time. \<open>ca_last\<close> is the result of the last call; \<open>ca_holds\<close> the mode between a successful
  \<open>Acquire\<close> and the next call of \<open>Release\<close>.
\<close>

datatype phase = Idle | Trying nat Mode duration gotime | Waiting nat Mode duration gotime

record caller =
  ca_lock :: PosixLock
  ca_phase :: phase
  ca_last :: "goerr option option"
  ca_holds :: "Mode option"

definition returns :: "goerr option \<Rightarrow> caller \<Rightarrow> caller" where
  "returns r c = c\<lparr>ca_phase := Idle, ca_last := Some r\<rparr>"

definition Acquire_begin :: "Mode \<Rightarrow> duration \<Rightarrow> gotime \<Rightarrow> goerr option \<Rightarrow> goerr option \<Rightarrow> lock_file \<times> caller \<Rightarrow> lock_file \<times> caller" where
  "Acquire_begin mode timeout now mkdirErr openErr kc =
     (case kc of (k, c) \<Rightarrow>
        if pl_fd (ca_lock c) \<noteq> None then (k, returns (Some (errors_New ''lock: already held'')) c)
        else case mkdirErr of
               Some e \<Rightarrow> (k, returns (Some (wrapErr ''lock: mkdir parent'' e)) c)
             | None \<Rightarrow>
                 (case openErr of
                    Some e \<Rightarrow> (k, returns (Some (wrapErr (''lock: open '' @ pl_path (ca_lock c)) e)) c)
                  | None \<Rightarrow> (k\<lparr>lf_next := Suc (lf_next k)\<rparr>,
                             c\<lparr>ca_phase := Trying (lf_next k) mode timeout (if 0 < timeout then now + timeout else 0)\<rparr>)))"

definition lock_body :: "string \<Rightarrow> nat \<Rightarrow> Mode \<Rightarrow> gotime \<Rightarrow> bytes" where
  "lock_body hostname pid mode now =
     hostname @ '':'' @ fmt_d pid @ '':'' @ Mode_String mode @ '':'' @ fmt_int (now div time_Second - 62135596800) @ [CHR 0x0A]"

text \<open>What \<open>Truncate\<close> and \<open>WriteAt\<close> at 0 leave, when the one may fail and the other stop after \<open>wrote\<close> bytes.\<close>

definition write_identity :: "bool \<Rightarrow> nat \<Rightarrow> bytes \<Rightarrow> bytes \<Rightarrow> bytes" where
  "write_identity truncated wrote body old =
     take wrote body @ (if truncated then [] else drop (min wrote (length body)) old)"

text \<open>One attempt, with the identity of the process and the fate of the two diagnostic calls.\<close>

record attempt_env =
  ae_hostname :: string
  ae_pid :: nat
  ae_truncated :: bool
  ae_wrote :: nat

definition Acquire_try :: "goerr option \<Rightarrow> attempt_env \<Rightarrow> gotime \<Rightarrow> lock_file \<times> caller \<Rightarrow> lock_file \<times> caller" where
  "Acquire_try flockErr e now kc =
     (case kc of (k, c) \<Rightarrow>
        (case ca_phase c of
           Trying fd mode timeout deadline \<Rightarrow>
             (case flockErr of
                Some err \<Rightarrow> (flock_UN fd k, returns (Some (wrapErr ''lock: flock'' err)) c)
              | None \<Rightarrow>
                  (case flock_NB fd (mode \<noteq> Shared) (lf_locks k) of
                     None \<Rightarrow> (k, c\<lparr>ca_phase := Waiting fd mode timeout deadline\<rparr>)
                   | Some l \<Rightarrow>
                       (k\<lparr>lf_locks := l,
                          lf_body := write_identity (ae_truncated e) (ae_wrote e) (lock_body (ae_hostname e) (ae_pid e) mode now) (lf_body k)\<rparr>,
                        returns None (c\<lparr>ca_lock := (ca_lock c)\<lparr>pl_fd := Some fd, pl_heldMode := mode, pl_released := False\<rparr>,
                                        ca_holds := Some mode\<rparr>))))
         | _ \<Rightarrow> (k, c)))"

definition Acquire_wait :: "goerr option \<Rightarrow> gotime \<Rightarrow> lock_file \<times> caller \<Rightarrow> lock_file \<times> caller" where
  "Acquire_wait ctxErr now kc =
     (case kc of (k, c) \<Rightarrow>
        (case ca_phase c of
           Waiting fd mode timeout deadline \<Rightarrow>
             (case ctxErr of
                Some e \<Rightarrow> (flock_UN fd k, returns (Some (wrapErr ''lock'' e)) c)
              | None \<Rightarrow>
                  if 0 < timeout \<and> deadline < now then (flock_UN fd k, returns (Some errLockTimeout) c)
                  else (k, c\<lparr>ca_phase := Trying fd mode timeout deadline\<rparr>))
         | _ \<Rightarrow> (k, c)))"

definition Release :: "goerr option \<Rightarrow> lock_file \<times> caller \<Rightarrow> lock_file \<times> caller" where
  "Release closeErr kc =
     (case kc of (k, c) \<Rightarrow>
        (case pl_fd (ca_lock c) of
           None \<Rightarrow> (k, returns None (c\<lparr>ca_holds := None\<rparr>))
         | Some fd \<Rightarrow>
             if pl_released (ca_lock c) then (k, returns None (c\<lparr>ca_holds := None\<rparr>))
             else case closeErr of
                    Some e \<Rightarrow> (flock_UN fd k, returns (Some (wrapErr ''lock: close'' e)) (c\<lparr>ca_holds := None\<rparr>))
                  | None \<Rightarrow> (flock_UN fd k, returns None (c\<lparr>ca_holds := None, ca_lock := (ca_lock c)\<lparr>pl_fd := None, pl_released := True\<rparr>\<rparr>))))"

text \<open>The end of a process: the kernel closes its descriptors. A new process starts with a new lock.\<close>

definition caller_fds :: "caller \<Rightarrow> nat set" where
  "caller_fds c = set_option (pl_fd (ca_lock c)) \<union> (case ca_phase c of Idle \<Rightarrow> {} | Trying fd _ _ _ \<Rightarrow> {fd} | Waiting fd _ _ _ \<Rightarrow> {fd})"

definition fresh_caller :: "string \<Rightarrow> caller" where
  "fresh_caller p = \<lparr>ca_lock = NewPosix p, ca_phase = Idle, ca_last = None, ca_holds = None\<rparr>"

definition die :: "lock_file \<times> caller \<Rightarrow> lock_file \<times> caller" where
  "die kc = (case kc of (k, c) \<Rightarrow>
     (k\<lparr>lf_locks := filter (\<lambda>(f, _). f \<notin> caller_fds c) (lf_locks k)\<rparr>, fresh_caller (pl_path (ca_lock c))))"


section \<open>All interleavings\<close>

record lock_world =
  lw_file :: lock_file
  lw_now :: gotime
  lw_callers :: "nat \<Rightarrow> caller"

definition act :: "nat \<Rightarrow> (lock_file \<times> caller \<Rightarrow> lock_file \<times> caller) \<Rightarrow> lock_world \<Rightarrow> lock_world" where
  "act i f w = (case f (lw_file w, lw_callers w i) of (k, c) \<Rightarrow> w\<lparr>lw_file := k, lw_callers := (lw_callers w)(i := c)\<rparr>)"

inductive lock_step :: "lock_world \<Rightarrow> lock_world \<Rightarrow> bool" where
  acquire: "ca_phase (lw_callers w i) = Idle \<Longrightarrow> lock_step w (act i (Acquire_begin mode timeout (lw_now w) mkdirErr openErr) w)"
| attempt: "lock_step w (act i (Acquire_try flockErr e (lw_now w)) w)"
| wait: "lock_step w (act i (Acquire_wait ctxErr (lw_now w)) w)"
| release: "ca_phase (lw_callers w i) = Idle \<Longrightarrow> lock_step w (act i (Release closeErr) w)"
| death: "lock_step w (act i die w)"
| time: "lw_now w \<le> t \<Longrightarrow> lock_step w (w\<lparr>lw_now := t\<rparr>)"

definition lock_start :: "string \<Rightarrow> lock_world" where
  "lock_start p = \<lparr>lw_file = \<lparr>lf_locks = [], lf_body = [], lf_next = 0\<rparr>, lw_now = 0, lw_callers = (\<lambda>_. fresh_caller p)\<rparr>"


section \<open>The invariant\<close>

text \<open>A caller that holds the lock by the descriptor \<open>f\<close>, exclusively if \<open>x\<close>.\<close>

definition held :: "caller \<Rightarrow> nat \<Rightarrow> bool \<Rightarrow> bool" where
  "held c f x \<longleftrightarrow> ca_phase c = Idle \<and> pl_fd (ca_lock c) = Some f \<and> (\<exists>m. ca_holds c = Some m \<and> x = (m \<noteq> Shared))"

definition caller_ok :: "(nat \<times> bool) list \<Rightarrow> caller \<Rightarrow> bool" where
  "caller_ok locks c \<longleftrightarrow>
     (ca_phase c \<noteq> Idle \<longrightarrow> pl_fd (ca_lock c) = None) \<and>
     (pl_released (ca_lock c) \<longrightarrow> pl_fd (ca_lock c) = None) \<and>
     (\<forall>m. ca_holds c = Some m \<longrightarrow> (\<exists>f. held c f (m \<noteq> Shared) \<and> (f, m \<noteq> Shared) \<in> set locks))"

definition compatible :: "(nat \<times> bool) list \<Rightarrow> bool" where
  "compatible locks \<longleftrightarrow> (\<forall>(f, x) \<in> set locks. \<forall>(g, y) \<in> set locks. f \<noteq> g \<longrightarrow> \<not> x \<and> \<not> y)"

definition lock_inv :: "lock_world \<Rightarrow> bool" where
  "lock_inv w \<longleftrightarrow>
     (\<forall>i. caller_ok (lf_locks (lw_file w)) (lw_callers w i)) \<and>
     (\<forall>i. \<forall>f \<in> caller_fds (lw_callers w i). f < lf_next (lw_file w)) \<and>
     (\<forall>i j. i \<noteq> j \<longrightarrow> caller_fds (lw_callers w i) \<inter> caller_fds (lw_callers w j) = {}) \<and>
     (\<forall>(f, x) \<in> set (lf_locks (lw_file w)). \<exists>i. held (lw_callers w i) f x) \<and>
     compatible (lf_locks (lw_file w))"

lemma held_fds: "held c f x \<Longrightarrow> f \<in> caller_fds c"
  by (auto simp: held_def caller_fds_def)

text \<open>
  What a step of one caller may do to the lock file: it brings only new descriptors, leaves the locks of the other
  descriptors as they are, and what it has itself in the table is what it holds.
\<close>

definition local_step :: "lock_file \<Rightarrow> caller \<Rightarrow> lock_file \<Rightarrow> caller \<Rightarrow> bool" where
  "local_step k c k' c' \<longleftrightarrow>
     lf_next k \<le> lf_next k' \<and>
     (\<forall>f \<in> caller_fds c'. f \<in> caller_fds c \<or> lf_next k \<le> f \<and> f < lf_next k') \<and>
     (\<forall>f x. f \<notin> caller_fds c \<longrightarrow> ((f, x) \<in> set (lf_locks k') \<longleftrightarrow> (f, x) \<in> set (lf_locks k))) \<and>
     (\<forall>f x. f \<in> caller_fds c \<and> (f, x) \<in> set (lf_locks k') \<longrightarrow> held c' f x) \<and>
     caller_ok (lf_locks k') c' \<and> compatible (lf_locks k')"

lemma lock_inv_act:
  assumes inv: "lock_inv w" and f: "F (lw_file w, lw_callers w i) = (k', c')"
    and loc: "local_step (lw_file w) (lw_callers w i) k' c'"
  shows "lock_inv (act i F w)"
proof -
  let ?k = "lw_file w" and ?c = "lw_callers w"
  have ok: "\<And>j. caller_ok (lf_locks ?k) (?c j)" and lt: "\<And>j f. f \<in> caller_fds (?c j) \<Longrightarrow> f < lf_next ?k"
    and dj: "\<And>j l. j \<noteq> l \<Longrightarrow> caller_fds (?c j) \<inter> caller_fds (?c l) = {}"
    and tab: "\<And>f x. (f, x) \<in> set (lf_locks ?k) \<Longrightarrow> \<exists>j. held (?c j) f x"
    using inv unfolding lock_inv_def by blast+
  have new: "\<And>f. f \<in> caller_fds c' \<Longrightarrow> f \<in> caller_fds (?c i) \<or> lf_next ?k \<le> f \<and> f < lf_next k'"
    and nx: "lf_next ?k \<le> lf_next k'"
    and oth: "\<And>f x. f \<notin> caller_fds (?c i) \<Longrightarrow> (f, x) \<in> set (lf_locks k') \<longleftrightarrow> (f, x) \<in> set (lf_locks ?k)"
    and own: "\<And>f x. f \<in> caller_fds (?c i) \<Longrightarrow> (f, x) \<in> set (lf_locks k') \<Longrightarrow> held c' f x"
    and ok': "caller_ok (lf_locks k') c'" and cp: "compatible (lf_locks k')"
    using loc unfolding local_step_def by blast+
  have w': "act i F w = w\<lparr>lw_file := k', lw_callers := (?c)(i := c')\<rparr>" by (simp add: act_def f)
  have okj: "caller_ok (lf_locks k') (?c j)" if j: "j \<noteq> i" for j
  proof -
    have "\<exists>f. held (?c j) f (m \<noteq> Shared) \<and> (f, m \<noteq> Shared) \<in> set (lf_locks k')" if h: "ca_holds (?c j) = Some m" for m
    proof -
      obtain f where "held (?c j) f (m \<noteq> Shared)" "(f, m \<noteq> Shared) \<in> set (lf_locks ?k)"
        using ok [of j] h unfolding caller_ok_def by blast
      moreover have "f \<notin> caller_fds (?c i)" using held_fds [OF calculation(1)] dj [OF j] by blast
      ultimately show ?thesis using oth by blast
    qed
    then show ?thesis using ok [of j] unfolding caller_ok_def by blast
  qed
  have tab': "\<exists>j. held (((?c)(i := c')) j) f x" if h: "(f, x) \<in> set (lf_locks k')" for f x
  proof (cases "f \<in> caller_fds (?c i)")
    case True then show ?thesis using own [OF _ h] by (intro exI [of _ i]) simp
  next
    case False
    obtain j where j: "held (?c j) f x" using tab oth [OF False] h by blast
    moreover have "j \<noteq> i" using held_fds [OF j] False by blast
    ultimately show ?thesis by (intro exI [of _ j]) simp
  qed
  have djn: "caller_fds c' \<inter> caller_fds (?c j) = {}" if j: "j \<noteq> i" for j
    using new lt [of _ j] dj [OF j] by (metis disjoint_iff leD)
  have "\<forall>j. caller_ok (lf_locks k') (((?c)(i := c')) j)" using okj ok' by simp
  moreover have "\<forall>j. \<forall>f \<in> caller_fds (((?c)(i := c')) j). f < lf_next k'" using lt new nx by (auto intro: order_less_le_trans)
  moreover have "\<forall>j l. j \<noteq> l \<longrightarrow> caller_fds (((?c)(i := c')) j) \<inter> caller_fds (((?c)(i := c')) l) = {}"
    using dj djn by (simp add: Int_commute)
  moreover have "\<forall>(f, x) \<in> set (lf_locks k'). \<exists>j. held (((?c)(i := c')) j) f x" using tab' by blast
  ultimately show ?thesis using cp by (simp add: lock_inv_def w' del: fun_upd_apply)
qed

text \<open>A caller of the invariant has in the table what it holds, and nothing else.\<close>

definition caller_inv :: "lock_file \<Rightarrow> caller \<Rightarrow> bool" where
  "caller_inv k c \<longleftrightarrow> caller_ok (lf_locks k) c \<and> compatible (lf_locks k) \<and> (\<forall>f \<in> caller_fds c. f < lf_next k) \<and>
     (\<forall>f x. f \<in> caller_fds c \<and> (f, x) \<in> set (lf_locks k) \<longrightarrow> held c f x)"

lemma lock_inv_caller:
  assumes "lock_inv w"
  shows "caller_inv (lw_file w) (lw_callers w i)"
proof -
  have "held (lw_callers w i) f x" if h: "f \<in> caller_fds (lw_callers w i)" "(f, x) \<in> set (lf_locks (lw_file w))" for f x
  proof -
    obtain j where j: "held (lw_callers w j) f x" using assms h(2) unfolding lock_inv_def by blast
    then have "j = i" using held_fds [OF j] h(1) assms unfolding lock_inv_def by blast
    with j show ?thesis by simp
  qed
  then show ?thesis using assms unfolding lock_inv_def caller_inv_def by blast
qed

lemma compatible_filter: "compatible l \<Longrightarrow> compatible (filter P l)"
  unfolding compatible_def by auto

lemma local_step_id: "caller_inv k c \<Longrightarrow> local_step k c k c"
  by (simp add: caller_inv_def local_step_def)

text \<open>Giving up every descriptor, or ending a call: a caller that holds nothing has nothing in the table.\<close>

lemma local_step_drop:
  assumes inv: "caller_inv k c" and fds: "caller_fds c' \<subseteq> caller_fds c" and h: "ca_holds c' = None"
    and ph: "ca_phase c' \<noteq> Idle \<longrightarrow> pl_fd (ca_lock c') = None" and re: "pl_released (ca_lock c') \<longrightarrow> pl_fd (ca_lock c') = None"
    and l: "lf_locks k' = filter (\<lambda>(f, _). f \<notin> caller_fds c) (lf_locks k)" and nx: "lf_next k' = lf_next k"
  shows "local_step k c k' c'"
proof -
  have "caller_ok (lf_locks k') c'" using h ph re by (simp add: caller_ok_def)
  moreover have "compatible (lf_locks k')" unfolding l by (rule compatible_filter) (use inv in \<open>simp add: caller_inv_def\<close>)
  ultimately show ?thesis using fds nx unfolding local_step_def l by auto
qed

text \<open>A caller that holds nothing has nothing in the table, so leaving the table alone is giving up everything.\<close>

lemma holds_nothing:
  assumes "caller_inv k c" "ca_holds c = None"
  shows "filter (\<lambda>(f, _). f \<notin> caller_fds c) (lf_locks k) = lf_locks k"
  using assms by (auto simp: filter_id_conv caller_inv_def held_def)

lemma busy_holds_nothing: "caller_inv k c \<Longrightarrow> pl_fd (ca_lock c) = None \<or> ca_phase c \<noteq> Idle \<Longrightarrow> ca_holds c = None"
  by (cases "ca_holds c") (auto simp: caller_inv_def caller_ok_def held_def)

lemma busy_no_fd: "caller_inv k c \<Longrightarrow> ca_phase c \<noteq> Idle \<Longrightarrow> pl_fd (ca_lock c) = None"
  by (simp add: caller_inv_def caller_ok_def)

lemma flock_UN_fields [simp]:
  "lf_locks (flock_UN fd k) = filter (\<lambda>(f, _). f \<noteq> fd) (lf_locks k)" "lf_next (flock_UN fd k) = lf_next k"
  by (simp_all add: flock_UN_def)

lemma returns_fields [simp]:
  "ca_phase (returns r c) = Idle" "ca_lock (returns r c) = ca_lock c" "ca_holds (returns r c) = ca_holds c" "ca_last (returns r c) = Some r"
  by (simp_all add: returns_def)

text \<open>An idle caller that only reports a result.\<close>

lemma local_step_returns:
  assumes "caller_inv k c" "ca_phase c = Idle"
  shows "local_step k c k (returns r c)"
proof -
  have "caller_fds (returns r c) = caller_fds c" "held (returns r c) = held c" "caller_ok l (returns r c) = caller_ok l c" for l
    using assms(2) by (auto simp: caller_fds_def held_def fun_eq_iff caller_ok_def)
  with assms(1) show ?thesis by (simp add: local_step_def caller_inv_def)
qed

lemma local_step_open:
  assumes inv: "caller_inv k c" and id: "ca_phase c = Idle" and fd: "pl_fd (ca_lock c) = None"
  shows "local_step k c (k\<lparr>lf_next := Suc (lf_next k)\<rparr>) (c\<lparr>ca_phase := Trying (lf_next k) m t d\<rparr>)"
proof -
  have "caller_fds c = {}" using id fd by (simp add: caller_fds_def)
  moreover have "caller_fds (c\<lparr>ca_phase := Trying (lf_next k) m t d\<rparr>) = {lf_next k}" using fd by (simp add: caller_fds_def)
  moreover have "caller_ok (lf_locks k) (c\<lparr>ca_phase := Trying (lf_next k) m t d\<rparr>)"
    using busy_holds_nothing [OF inv] fd by (simp add: caller_ok_def)
  ultimately show ?thesis using inv by (simp add: local_step_def caller_inv_def)
qed

lemma local_step_begin:
  assumes "caller_inv k c" "ca_phase c = Idle" "Acquire_begin mode timeout now mkdirErr openErr (k, c) = (k', c')"
  shows "local_step k c k' c'"
  using assms local_step_returns [OF assms(1,2)] local_step_open [OF assms(1,2)]
  by (auto simp: Acquire_begin_def split: if_splits option.splits)

text \<open>Ending a running call without the lock: its descriptor is closed.\<close>

lemma local_step_fail:
  assumes inv: "caller_inv k c" and ph: "ca_phase c = Trying fd m t d \<or> ca_phase c = Waiting fd m t d"
  shows "local_step k c (flock_UN fd k) (returns r c)"
proof (rule local_step_drop [OF inv])
  have n: "pl_fd (ca_lock c) = None" "ca_holds c = None"
    using busy_no_fd [OF inv] busy_holds_nothing [OF inv] ph by auto
  have f: "caller_fds c = {fd}" using n ph by (auto simp: caller_fds_def)
  show "caller_fds (returns r c) \<subseteq> caller_fds c" using n by (simp add: caller_fds_def)
  show "lf_locks (flock_UN fd k) = filter (\<lambda>(f, _). f \<notin> caller_fds c) (lf_locks k)" by (simp add: f)
  show "ca_holds (returns r c) = None" "pl_released (ca_lock (returns r c)) \<longrightarrow> pl_fd (ca_lock (returns r c)) = None" using n by simp_all
qed simp_all

text \<open>Moving between an attempt and a wait keeps the descriptor.\<close>

lemma local_step_phase:
  assumes inv: "caller_inv k c" and ph: "ca_phase c = Trying fd m t d \<or> ca_phase c = Waiting fd m t d"
    and ph': "p = Trying fd m t d \<or> p = Waiting fd m t d"
  shows "local_step k c k (c\<lparr>ca_phase := p\<rparr>)"
proof (rule local_step_drop [OF inv])
  have n: "pl_fd (ca_lock c) = None" "ca_holds c = None"
    using busy_no_fd [OF inv] busy_holds_nothing [OF inv] ph by auto
  show "caller_fds (c\<lparr>ca_phase := p\<rparr>) \<subseteq> caller_fds c" using n ph ph' by (auto simp: caller_fds_def)
  show "lf_locks k = filter (\<lambda>(f, _). f \<notin> caller_fds c) (lf_locks k)" using holds_nothing [OF inv n(2)] by simp
qed (use busy_no_fd [OF inv] busy_holds_nothing [OF inv] ph in auto)

text \<open>\<open>flock\<close> grants a lock when no other descriptor has an incompatible one.\<close>

lemma flock_NB_Some:
  "flock_NB fd ex l = Some l' \<longleftrightarrow>
     (\<forall>(f, x) \<in> set l. f \<noteq> fd \<longrightarrow> \<not> ex \<and> \<not> x) \<and> l' = (fd, ex) # filter (\<lambda>(f, _). f \<noteq> fd) l"
  by (auto simp: flock_NB_def list_ex_iff)

lemma compatible_grant:
  assumes "compatible l" "flock_NB fd ex l = Some l'"
  shows "compatible l'"
  using assms unfolding flock_NB_Some compatible_def by (auto split: prod.splits)

lemma local_step_grant:
  assumes inv: "caller_inv k c" and ph: "ca_phase c = Trying fd m t d" and l: "flock_NB fd (m \<noteq> Shared) (lf_locks k) = Some l"
    and k': "lf_locks k' = l" "lf_next k' = lf_next k"
    and c': "ca_phase c' = Idle" "ca_holds c' = Some m" "pl_fd (ca_lock c') = Some fd" "\<not> pl_released (ca_lock c')"
  shows "local_step k c k' c'"
proof -
  have f: "caller_fds c = {fd}" using busy_no_fd [OF inv] ph by (simp add: caller_fds_def)
  have l': "l = (fd, m \<noteq> Shared) # filter (\<lambda>(f, _). f \<noteq> fd) (lf_locks k)" using l by (simp add: flock_NB_Some)
  have h: "held c' fd (m \<noteq> Shared)" using c' by (simp add: held_def)
  have "compatible l" using compatible_grant [OF _ l] inv by (simp add: caller_inv_def)
  moreover have "caller_ok l c'" using c' h by (simp add: caller_ok_def l') blast
  moreover have "caller_fds c' = {fd}" using c' by (simp add: caller_fds_def)
  ultimately show ?thesis using h unfolding local_step_def f k' by (auto simp: l')
qed

lemma local_step_try:
  assumes inv: "caller_inv k c" and st: "Acquire_try flockErr e now (k, c) = (k', c')"
  shows "local_step k c k' c'"
proof (cases "ca_phase c")
  case (Trying fd m t d)
  show ?thesis
  proof (cases flockErr)
    case None
    show ?thesis
    proof (cases "flock_NB fd (m \<noteq> Shared) (lf_locks k)")
      case None
      with st Trying \<open>flockErr = None\<close> show ?thesis
        using local_step_phase [OF inv disjI1 [OF Trying] disjI2 [OF refl]] by (auto simp: Acquire_try_def)
    next
      case (Some l)
      show ?thesis by (rule local_step_grant [OF inv Trying Some]) (use st Trying \<open>flockErr = None\<close> Some in \<open>auto simp: Acquire_try_def\<close>)
    qed
  qed (use st Trying local_step_fail [OF inv disjI1 [OF Trying]] in \<open>auto simp: Acquire_try_def\<close>)
qed (use st local_step_id [OF inv] in \<open>auto simp: Acquire_try_def\<close>)

lemma local_step_wait:
  assumes inv: "caller_inv k c" and st: "Acquire_wait ctxErr now (k, c) = (k', c')"
  shows "local_step k c k' c'"
proof (cases "ca_phase c")
  case (Waiting fd m t d)
  show ?thesis
    using st Waiting local_step_fail [OF inv disjI2 [OF Waiting]] local_step_phase [OF inv disjI2 [OF Waiting] disjI1 [OF refl]]
    by (auto simp: Acquire_wait_def split: option.splits if_splits)
qed (use st local_step_id [OF inv] in \<open>auto simp: Acquire_wait_def\<close>)

lemma local_step_release:
  assumes inv: "caller_inv k c" and id: "ca_phase c = Idle" and st: "Release closeErr (k, c) = (k', c')"
  shows "local_step k c k' c'"
proof (rule local_step_drop [OF inv])
  have r: "pl_released (ca_lock c) \<Longrightarrow> pl_fd (ca_lock c) = None" using inv by (simp add: caller_inv_def caller_ok_def)
  show "caller_fds c' \<subseteq> caller_fds c" "ca_holds c' = None" "ca_phase c' \<noteq> Idle \<longrightarrow> pl_fd (ca_lock c') = None"
    "pl_released (ca_lock c') \<longrightarrow> pl_fd (ca_lock c') = None" "lf_next k' = lf_next k"
    using st r id by (auto simp: Release_def caller_fds_def split: option.splits if_splits)
  show "lf_locks k' = filter (\<lambda>(f, _). f \<notin> caller_fds c) (lf_locks k)"
    using st r id by (auto simp: Release_def caller_fds_def split: option.splits if_splits intro!: filter_cong)
qed

lemma local_step_die:
  assumes inv: "caller_inv k c"
  shows "local_step k c (fst (die (k, c))) (snd (die (k, c)))"
  by (rule local_step_drop [OF inv]) (simp_all add: die_def fresh_caller_def caller_fds_def NewPosix_def)

lemma lock_step_inv: "lock_step w w' \<Longrightarrow> lock_inv w \<Longrightarrow> lock_inv w'"
proof (induction rule: lock_step.induct)
  case (time w t)
  then show ?case by (simp add: lock_inv_def)
qed (metis lock_inv_act lock_inv_caller local_step_begin local_step_try local_step_wait local_step_release local_step_die prod.collapse)+

lemma lock_start_inv: "lock_inv (lock_start p)"
  by (simp add: lock_inv_def lock_start_def fresh_caller_def NewPosix_def caller_ok_def caller_fds_def compatible_def)

lemma lock_reachable_inv: "rtranclp lock_step (lock_start p) w \<Longrightarrow> lock_inv w"
  by (induction rule: rtranclp_induct) (auto intro: lock_start_inv lock_step_inv)

lemma lock_inv_holds:
  assumes "lock_inv w" "ca_holds (lw_callers w i) = Some m"
  obtains f where "held (lw_callers w i) f (m \<noteq> Shared)" "(f, m \<noteq> Shared) \<in> set (lf_locks (lw_file w))"
  using assms unfolding lock_inv_def caller_ok_def by meson

lemma lock_inv_exclusive:
  assumes inv: "lock_inv w" and ij: "i \<noteq> j" and i: "ca_holds (lw_callers w i) = Some m" and j: "ca_holds (lw_callers w j) = Some m'"
  shows "m = Shared \<and> m' = Shared"
proof -
  obtain f where f: "held (lw_callers w i) f (m \<noteq> Shared)" "(f, m \<noteq> Shared) \<in> set (lf_locks (lw_file w))"
    by (rule lock_inv_holds [OF inv i])
  obtain g where g: "held (lw_callers w j) g (m' \<noteq> Shared)" "(g, m' \<noteq> Shared) \<in> set (lf_locks (lw_file w))"
    by (rule lock_inv_holds [OF inv j])
  have "f \<noteq> g" using held_fds [OF f(1)] held_fds [OF g(1)] ij inv unfolding lock_inv_def by blast
  then show ?thesis using f(2) g(2) inv unfolding lock_inv_def compatible_def by blast
qed

text \<open>An attempt is granted exactly when every other holder is compatible.\<close>

lemma lock_inv_granted:
  assumes inv: "lock_inv w" and ph: "ca_phase (lw_callers w i) = Trying fd m t d"
  shows "flock_NB fd (m \<noteq> Shared) (lf_locks (lw_file w)) \<noteq> None \<longleftrightarrow>
    (\<forall>j m'. j \<noteq> i \<and> ca_holds (lw_callers w j) = Some m' \<longrightarrow> m = Shared \<and> m' = Shared)"
    (is "?G \<longleftrightarrow> ?A")
proof
  have mine: "fd \<in> caller_fds (lw_callers w i)" using ph by (simp add: caller_fds_def)
  show ?A if g: ?G
  proof (intro allI impI)
    fix j m' assume j: "j \<noteq> i \<and> ca_holds (lw_callers w j) = Some m'"
    obtain f where f: "held (lw_callers w j) f (m' \<noteq> Shared)" "(f, m' \<noteq> Shared) \<in> set (lf_locks (lw_file w))"
      by (rule lock_inv_holds [OF inv conjunct2 [OF j]])
    have "f \<noteq> fd" using held_fds [OF f(1)] mine j inv unfolding lock_inv_def by blast
    then show "m = Shared \<and> m' = Shared" using g f(2) by (auto simp: flock_NB_Some)
  qed
  show ?G if a: ?A
  proof -
    have "m = Shared \<and> \<not> x" if h: "(f, x) \<in> set (lf_locks (lw_file w))" for f x
    proof -
      obtain j where j: "held (lw_callers w j) f x" using inv h unfolding lock_inv_def by blast
      then have "j \<noteq> i" using ph by (auto simp: held_def)
      with j a show ?thesis by (auto simp: held_def)
    qed
    then show ?thesis by (auto simp: flock_NB_def list_ex_iff)
  qed
qed

lemma Acquire_try_granted:
  assumes "ca_phase (lw_callers w i) = Trying fd m t d" "ca_holds (lw_callers w i) = None"
  shows "ca_holds (lw_callers (act i (Acquire_try None e now) w) i) = Some m \<longleftrightarrow> flock_NB fd (m \<noteq> Shared) (lf_locks (lw_file w)) \<noteq> None"
  using assms by (auto simp: act_def Acquire_try_def split: option.splits)


section \<open>The property\<close>

text \<open>C8: The lock excludes, whatever the interleaving of the callers and whichever of them die. In every state that
  any number of callers can reach by \<open>Acquire\<close>, its attempts and waits, \<open>Release\<close> and process death, two callers that hold the lock at once
  both hold it shared: an exclusive holder (a backup, a prune) is alone. And the lock is not stuck: an attempt of \<open>Acquire\<close> takes it exactly when no other
  caller holds it in a conflicting mode.\<close>

theorem lock_excludes:
  assumes "rtranclp lock_step (lock_start p) w"
  shows "(\<forall>i j m m'. i \<noteq> j \<and> ca_holds (lw_callers w i) = Some m \<and> ca_holds (lw_callers w j) = Some m' \<longrightarrow> m = Shared \<and> m' = Shared) \<and>
    (\<forall>i fd m t d e. ca_phase (lw_callers w i) = Trying fd m t d \<longrightarrow>
       (ca_holds (lw_callers (act i (Acquire_try None e (lw_now w)) w) i) = Some m \<longleftrightarrow>
        (\<forall>j m'. j \<noteq> i \<and> ca_holds (lw_callers w j) = Some m' \<longrightarrow> m = Shared \<and> m' = Shared)))"
proof (intro conjI allI impI)
  have inv: "lock_inv w" by (rule lock_reachable_inv [OF assms])
  show "m = Shared" "m' = Shared" if "i \<noteq> j \<and> ca_holds (lw_callers w i) = Some m \<and> ca_holds (lw_callers w j) = Some m'" for i j m m'
    using lock_inv_exclusive [OF inv] that by blast+
  fix i fd m t d e assume ph: "ca_phase (lw_callers w i) = Trying fd m t d"
  have "ca_holds (lw_callers w i) = None" using busy_holds_nothing [OF lock_inv_caller [OF inv]] ph by simp
  then show "ca_holds (lw_callers (act i (Acquire_try None e (lw_now w)) w) i) = Some m \<longleftrightarrow>
      (\<forall>j m'. j \<noteq> i \<and> ca_holds (lw_callers w j) = Some m' \<longrightarrow> m = Shared \<and> m' = Shared)"
    using Acquire_try_granted [OF ph] lock_inv_granted [OF inv ph] by simp
qed

text \<open>A verify (caller 0) has the lock shared when a prune (caller 1) asks for it.\<close>

definition host_env :: attempt_env where
  "host_env = \<lparr>ae_hostname = ''db1'', ae_pid = 7, ae_truncated = True, ae_wrote = 100\<rparr>"

definition verify_then_prune :: lock_world where
  "verify_then_prune = act 1 (Acquire_begin Exclusive 0 0 None None)
     (act 0 (Acquire_try None host_env 0) (act 0 (Acquire_begin Shared 0 0 None None) (lock_start ''/b/lock'')))"

lemmas lock_run = verify_then_prune_def act_def Acquire_begin_def Acquire_try_def Release_def lock_start_def fresh_caller_def NewPosix_def
  flock_NB_def returns_def Shared_def Exclusive_def

lemma verify_then_prune_reachable: "rtranclp lock_step (lock_start ''/b/lock'') verify_then_prune"
proof -
  let ?w1 = "act 0 (Acquire_begin Shared 0 0 None None) (lock_start ''/b/lock'')"
  let ?w2 = "act 0 (Acquire_try None host_env 0) ?w1"
  have 1: "lock_step (lock_start ''/b/lock'') ?w1"
    using lock_step.acquire [of "lock_start ''/b/lock''" 0 Shared 0 None None] by (simp add: lock_start_def fresh_caller_def)
  have 2: "lock_step ?w1 ?w2" using lock_step.attempt [of ?w1 0 None host_env] by (simp add: lock_run)
  have 3: "lock_step ?w2 verify_then_prune"
    using lock_step.acquire [of ?w2 1 Exclusive 0 None None] by (simp add: lock_run)
  show ?thesis using 1 2 3 by (meson r_into_rtranclp rtranclp.rtrancl_into_rtrancl)
qed

theorem lock_excludes_witness:
  "ca_holds (lw_callers verify_then_prune 0) = Some Shared \<and>
   ca_holds (lw_callers (act 1 (Acquire_try None host_env 0) verify_then_prune) 1) \<noteq> Some Exclusive"
proof -
  have h: "ca_holds (lw_callers verify_then_prune 0) = Some Shared" by (simp add: lock_run)
  have p: "ca_phase (lw_callers verify_then_prune 1) = Trying 1 Exclusive 0 0" "lw_now verify_then_prune = 0" by (simp_all add: lock_run)
  have "\<not> (\<forall>j m'. j \<noteq> 1 \<and> ca_holds (lw_callers verify_then_prune j) = Some m' \<longrightarrow> Exclusive = Shared \<and> m' = Shared)"
    using h by (auto simp: Exclusive_def Shared_def intro!: exI [of _ 0])
  then show ?thesis using conjunct2 [OF lock_excludes [OF verify_then_prune_reachable], rule_format, OF p(1), of host_env] h p(2) by metis
qed

end
