(* ===== verification/Page_Checksum.thy ===== *)
theory Page_Checksum
  imports Go_Fmt
begin

text \<open>
  \<open>internal/filter/pagechecksum\<close>: the validator that a worker and the remote-parallel backup put around the
  reader of a data file. The bytes come in pieces of any length, as the reader underneath returns them; a full page is checked as
  soon as its last byte is there. Words are kept at their width.
\<close>

unbundle bit_operations_syntax

definition PageSize :: nat where "PageSize = 8192"
definition pdChecksumOffset :: nat where "pdChecksumOffset = 8"

datatype PageMode = ModeOff | ModeStrict | ModeLax

record Validator =
  va_mode :: PageMode
  va_pageSize :: nat
  va_rel :: string
  va_buf :: bytes
  va_page :: nat

definition New_Validator :: "PageMode \<Rightarrow> int \<Rightarrow> string \<Rightarrow> Validator" where
  "New_Validator mode pageSize rel =
     \<lparr>va_mode = mode, va_pageSize = (if pageSize \<le> 0 then PageSize else nat pageSize), va_rel = rel, va_buf = [], va_page = 0\<rparr>"


section \<open>The checksum of a page\<close>

definition page_nSums :: nat where "page_nSums = 32"
definition fnvPrime :: u32 where "fnvPrime = 16777619"

definition page_sums :: "u32 list" where
  "page_sums =
     [0x5B1F36E9, 0xB8525960, 0x02AB50AA, 0x1DE66D2A,
      0x79F69E38, 0xD3125981, 0x6F03892E, 0xCDC9F0CC,
      0x88FB22B8, 0x21C18988, 0x2D02E5C8, 0x99025930,
      0xA146C8C0, 0x3E59BFC2, 0x49C1F2BE, 0x9559E40D,
      0x4A11D5D7, 0xCE6E0066, 0xC52E50CB, 0x70CC67E1,
      0x5C92AB78, 0x32E08C7F, 0xE0AAEFE0, 0x99853D2F,
      0x812DD8E2, 0xCC2B252A, 0xCA1C53FB, 0xCC2D8569,
      0x07AAB95B, 0x0FA2DEB6, 0xCBC11FE9, 0xCD83BAB8]"

definition page_work :: "bytes \<Rightarrow> bytes" where
  "page_work page = page[pdChecksumOffset := CHR 0x00, pdChecksumOffset + 1 := CHR 0x00]"

definition page_word :: "bytes \<Rightarrow> nat \<Rightarrow> u32" where
  "page_word work n = LittleEndian_Uint32 (take 4 (drop (n * 4) work))"

definition lane_pass :: "bytes \<Rightarrow> u32 list \<Rightarrow> nat \<Rightarrow> u32 list" where
  "lane_pass work sums i =
     map (\<lambda>j. let tmp = sums ! j XOR page_word work (i + j) in (tmp * fnvPrime) XOR drop_bit 17 tmp) [0..<page_nSums]"

definition computePageChecksum :: "bytes \<Rightarrow> u32 \<Rightarrow> u16" where
  "computePageChecksum page blkNo =
     (if length page \<noteq> PageSize then 0
      else let work = page_work page;
               sums = foldl (lane_pass work) page_sums (map (\<lambda>k. k * page_nSums) [0..<PageSize div 4 div page_nSums]);
               mixed = map (\<lambda>s. (s * fnvPrime) XOR drop_bit 17 s) sums;
               result = foldl (\<lambda>r s. r XOR s) 0 mixed XOR blkNo
           in ucast (result mod 65535) + 1)"


section \<open>The validator\<close>

definition fmt_04x :: "u16 \<Rightarrow> string" where
  "fmt_04x w = map hexL (fixed_digits 16 4 (unat w))"

definition errChecksumMismatch :: goerr where
  "errChecksumMismatch = GoErr ErrChecksumMismatch ''page checksum mismatch''"

definition page_stored :: "bytes \<Rightarrow> u16" where
  "page_stored page = LittleEndian_Uint16 (take 2 (drop pdChecksumOffset page))"

definition validatePage :: "Validator \<Rightarrow> bytes \<Rightarrow> goerr option" where
  "validatePage v page =
     (let stored = page_stored page;
          got = computePageChecksum page (of_nat (va_page v))
      in if stored = 0 then None
         else if got \<noteq> stored
         then Some (wrapErr (''pagechecksum: '' @ va_rel v @ '': page '' @ fmt_d (va_page v) @ '': stored='' @ fmt_04x stored
                             @ '' computed='' @ fmt_04x got) errChecksumMismatch)
         else None)"

text \<open>The loop over the full pages of the buffer. It ends because a page has at least one byte.\<close>

function validate_pages :: "Validator \<Rightarrow> goerr option \<times> Validator" where
  "validate_pages v =
     (if va_pageSize v = 0 \<or> length (va_buf v) < va_pageSize v then (None, v)
      else case validatePage v (take (va_pageSize v) (va_buf v)) of
             Some e \<Rightarrow> (Some e, v)
           | None \<Rightarrow> validate_pages (v\<lparr>va_buf := drop (va_pageSize v) (va_buf v), va_page := va_page v + 1\<rparr>))"
  by pat_completeness auto
termination by (relation "measure (\<lambda>v. length (va_buf v))") auto

declare validate_pages.simps [simp del]

text \<open>\<open>Read\<close>, given what the reader underneath returned: the bytes \<open>p[:n]\<close> and its error.\<close>

definition Validator_Read :: "bytes \<Rightarrow> goerr option \<Rightarrow> Validator \<Rightarrow> (nat \<times> goerr option) \<times> Validator" where
  "Validator_Read p err v =
     (if va_mode v \<noteq> ModeOff \<and> p \<noteq> []
      then case validate_pages (v\<lparr>va_buf := va_buf v @ p\<rparr>) of
             (Some cerr, v') \<Rightarrow> ((length p, Some cerr), v')
           | (None, v') \<Rightarrow> ((length p, err), v')
      else ((length p, err), v))"

text \<open>A caller that reads piece after piece until there is an error.\<close>

fun read_pieces :: "bytes list \<Rightarrow> Validator \<Rightarrow> goerr option" where
  "read_pieces [] v = None"
| "read_pieces (p # ps) v =
     (case Validator_Read p None v of
        ((_, Some e), _) \<Rightarrow> Some e
      | ((_, None), v') \<Rightarrow> read_pieces ps v')"


section \<open>The verdict on a file\<close>

text \<open>The reference: the first full page of the file that is wrong, each page taken at its own place.\<close>

definition page_of :: "nat \<Rightarrow> bytes \<Rightarrow> bytes" where
  "page_of i data = take PageSize (drop (i * PageSize) data)"

definition page_wrong :: "nat \<Rightarrow> bytes \<Rightarrow> bool" where
  "page_wrong i page \<longleftrightarrow> page_stored page \<noteq> 0 \<and> computePageChecksum page (of_nat i) \<noteq> page_stored page"

definition page_error :: "string \<Rightarrow> nat \<Rightarrow> bytes \<Rightarrow> goerr" where
  "page_error rel i page =
     GoErr ErrChecksumMismatch (''pagechecksum: '' @ rel @ '': page '' @ fmt_d i @ '': stored='' @ fmt_04x (page_stored page)
       @ '' computed='' @ fmt_04x (computePageChecksum page (of_nat i)) @ '': page checksum mismatch'')"

definition file_verdict :: "string \<Rightarrow> nat \<Rightarrow> bytes \<Rightarrow> goerr option" where
  "file_verdict rel from data =
     map_option (\<lambda>i. page_error rel (from + i) (page_of i data))
       (List.find (\<lambda>i. page_wrong (from + i) (page_of i data)) [0..<length data div PageSize])"

lemma validatePage_wrong: "validatePage v page = (if page_wrong (va_page v) page then Some (page_error (va_rel v) (va_page v) page) else None)"
  by (simp add: validatePage_def page_wrong_def page_error_def Let_def wrapErr_def errChecksumMismatch_def)

lemma file_verdict_short: "length data < PageSize \<Longrightarrow> file_verdict rel from data = None"
  by (simp add: file_verdict_def)

lemma find_upt_Suc: "List.find P [0..<Suc n] = (if P 0 then Some 0 else map_option Suc (List.find (\<lambda>i. P (Suc i)) [0..<n]))"
proof -
  have "List.find P (map Suc xs) = map_option Suc (List.find (\<lambda>i. P (Suc i)) xs)" for xs by (induction xs) auto
  moreover have "[0..<Suc n] = 0 # map Suc [0..<n]" by (simp add: map_Suc_upt upt_conv_Cons del: upt_Suc)
  ultimately show ?thesis by simp
qed

lemma file_verdict_page:
  assumes "PageSize \<le> length data"
  shows "file_verdict rel from data =
    (if page_wrong from (take PageSize data) then Some (page_error rel from (take PageSize data)) else file_verdict rel (Suc from) (drop PageSize data))"
proof -
  have "length data div PageSize = Suc (length (drop PageSize data) div PageSize)"
    using assms le_div_geq [of PageSize "length data"] by (simp add: PageSize_def)
  moreover have "page_of 0 data = take PageSize data" "page_of (Suc i) data = page_of i (drop PageSize data)" for i
    by (simp_all add: page_of_def add.commute)
  ultimately show ?thesis by (simp add: file_verdict_def find_upt_Suc option.map_comp o_def del: upt_Suc)
qed


lemma validate_pages_verdict:
  assumes "va_pageSize v = PageSize"
  shows "case validate_pages v of
      (Some e, v') \<Rightarrow> file_verdict (va_rel v) (va_page v) (va_buf v @ rest) = Some e
    | (None, v') \<Rightarrow> va_pageSize v' = PageSize \<and> va_mode v' = va_mode v \<and> va_rel v' = va_rel v \<and> length (va_buf v') < PageSize \<and>
        file_verdict (va_rel v) (va_page v) (va_buf v @ rest) = file_verdict (va_rel v') (va_page v') (va_buf v' @ rest)"
  using assms
proof (induction v rule: validate_pages.induct)
  case (1 v)
  have ps: "PageSize \<noteq> 0" by (simp add: PageSize_def)
  show ?case
  proof (cases "length (va_buf v) < PageSize")
    case True
    then show ?thesis using 1(2) by (simp add: validate_pages.simps [of v])
  next
    case False
    note step = file_verdict_page [of "va_buf v @ rest" "va_rel v" "va_page v"]
    show ?thesis
    proof (cases "page_wrong (va_page v) (take PageSize (va_buf v))")
      case True
      then show ?thesis using False 1(2) ps step by (simp add: validate_pages.simps [of v] validatePage_wrong)
    next
      case ok: False
      let ?v' = "v\<lparr>va_buf := drop PageSize (va_buf v), va_page := va_page v + 1\<rparr>"
      have vp: "validatePage v (take (va_pageSize v) (va_buf v)) = None" using ok 1(2) by (simp add: validatePage_wrong)
      have "validate_pages v = validate_pages ?v'"
        using False 1(2) ps vp by (simp add: validate_pages.simps [of v])
      moreover have "file_verdict (va_rel v) (va_page v) (va_buf v @ rest) = file_verdict (va_rel ?v') (va_page ?v') (va_buf ?v' @ rest)"
        using False ok step by simp
      ultimately show ?thesis using 1(1) [OF _ vp] False 1(2) ps by (simp split: prod.splits option.splits)
    qed
  qed
qed

lemma read_pieces_verdict:
  assumes "va_pageSize v = PageSize" "va_mode v \<noteq> ModeOff" "length (va_buf v) < PageSize"
  shows "read_pieces ps v = file_verdict (va_rel v) (va_page v) (va_buf v @ concat ps)"
  using assms
proof (induction ps arbitrary: v)
  case (Cons p ps)
  show ?case
  proof (cases "p = []")
    case True
    then show ?thesis using Cons by (simp add: Validator_Read_def)
  next
    case False
    obtain r v' where r: "validate_pages (v\<lparr>va_buf := va_buf v @ p\<rparr>) = (r, v')" by (cases "validate_pages (v\<lparr>va_buf := va_buf v @ p\<rparr>)")
    show ?thesis
      using validate_pages_verdict [of "v\<lparr>va_buf := va_buf v @ p\<rparr>" "concat ps"] Cons.IH [of v'] Cons.prems False r
      by (cases r) (simp_all add: Validator_Read_def)
  qed
qed (simp add: file_verdict_short)


section \<open>Pages that carry their checksum\<close>

definition stamp_page :: "bytes \<Rightarrow> nat \<Rightarrow> bytes" where
  "stamp_page page i =
     (let c = rev (be_bytes 2 (unat (computePageChecksum page (of_nat i))))
      in page[pdChecksumOffset := c ! 0, pdChecksumOffset + 1 := c ! 1])"

lemma computePageChecksum_nonzero:
  assumes "length page = PageSize"
  shows "computePageChecksum page b \<noteq> 0"
proof -
  have "ucast (r mod 65535) + 1 \<noteq> (0 :: u16)" for r :: u32
  proof
    assume a: "ucast (r mod 65535) + 1 = (0 :: u16)"
    have lt: "unat (r mod 65535) < 65535" by (simp add: unat_mod_distrib)
    have "unat (ucast (r mod 65535) + 1 :: u16) = unat (r mod 65535) + 1"
      using lt by (simp add: unat_word_ariths unsigned_ucast_eq take_bit_eq_mod)
    with a show False by simp
  qed
  then show ?thesis using assms by (simp add: computePageChecksum_def Let_def)
qed

lemma two_elements:
  assumes "length xs = 2"
  obtains x y where "xs = [x, y]"
  using assms by (cases xs; cases "tl xs") auto

lemma page_stored_stamp:
  assumes "length page = PageSize"
  shows "page_stored (stamp_page page i) = computePageChecksum page (of_nat i)"
proof -
  let ?c = "rev (be_bytes 2 (unat (computePageChecksum page (of_nat i))))"
  have "length ?c = 2" by simp
  then obtain x y where c: "?c = [x, y]" by (rule two_elements)
  have "Suc (Suc 0) \<le> length (drop 8 page)" using assms by (simp add: PageSize_def)
  then obtain p q r where "drop 8 page = p # q # r" by (metis Suc_le_length_iff)
  then have "take 2 (drop 8 (page[8 := x, 9 := y])) = [x, y]" by (simp add: drop_update_swap)
  moreover have "be_num (rev ?c) = unat (computePageChecksum page (of_nat i))"
    using be_num_be_bytes [of "unat (computePageChecksum page (of_nat i))" 2] unsigned_less [of "computePageChecksum page (of_nat i)"] by simp
  ultimately show ?thesis by (simp add: page_stored_def stamp_page_def pdChecksumOffset_def Let_def c LittleEndian_Uint16_def)
qed

lemma computePageChecksum_stamp: "computePageChecksum (stamp_page page i) b = computePageChecksum page b"
proof -
  have "length (stamp_page page i) = length page" by (simp add: stamp_page_def Let_def)
  moreover have "page_work (stamp_page page i) = page_work page"
    by (simp add: page_work_def stamp_page_def Let_def pdChecksumOffset_def list_update_swap)
  ultimately show ?thesis by (simp add: computePageChecksum_def)
qed


section \<open>The property\<close>



end
