(* ===== verification/Resume.thy ===== *)
theory Resume
  imports Info Go_Calendar
begin

text \<open>
  \<open>internal/backup/resume.go\<close> and \<open>internal/manifest/resume.go\<close>: the checkpoint that a running backup leaves in
  \<open>backup_manifest.copy\<close>, the search of the next run for one it can resume (which deletes abandoned attempts as it goes), the check of the files it names, and
  the branch of the backup loop that reuses them. Times are instants, printed in UTC; log lines are left out.
\<close>


section \<open>The checkpoint\<close>

record ResumeFileEntry =
  re_Path :: string
  re_Size :: int
  re_SHA256 :: bytes
  re_ModTime :: gotime
  re_RepoSize :: int
  re_RepoSHA256 :: bytes

record ResumeCheckpoint =
  cp_Version :: int
  cp_PgsafeVersion :: string
  cp_BackupID :: string
  cp_BackupType :: string
  cp_ParentBackupID :: string
  cp_Compression :: string
  cp_EncryptionRecipients :: "string slice"
  cp_SystemIdentifier :: nat
  cp_Timeline :: nat
  cp_StartLSN :: nat
  cp_StartTime :: gotime
  cp_CheckpointedAt :: gotime
  cp_Files :: "ResumeFileEntry slice"

definition ResumeCheckpointVersion :: int where "ResumeCheckpointVersion = 1"

definition AccumulatedFiles :: "Builder \<Rightarrow> ResumeFileEntry list" where
  "AccumulatedFiles b =
     map (\<lambda>f. \<lparr>re_Path = fr_path f, re_Size = fr_size f, re_SHA256 = fr_sha256 f, re_ModTime = fr_modTime f,
               re_RepoSize = fr_repoSize f, re_RepoSHA256 = fr_repoSHA256 f\<rparr>) (bu_files b)"

text \<open>\<open>time.Time\<close> as JSON: RFC 3339 with the nanoseconds without trailing zeros, for a year of four digits.\<close>

definition json_fraction :: "int \<Rightarrow> string" where
  "json_fraction ns = (if ns = 0 then [] else CHR ''.'' # rev (dropWhile (\<lambda>c. c = CHR ''0'') (rev (appendInt 9 ns))))"

definition json_time :: "gotime \<Rightarrow> json" where
  "json_time t = JStr (butlast (format_rfc3339_utc t) @ json_fraction (t mod time_Second) @ ''Z'')"

definition time_in_range :: "gotime \<Rightarrow> bool" where
  "time_in_range t \<longleftrightarrow> 0 \<le> Year t \<and> Year t \<le> 9999"

definition json_ResumeFileEntry :: "ResumeFileEntry \<Rightarrow> json" where
  "json_ResumeFileEntry f =
     JObj ([(''path'', JStr (re_Path f)), (''size'', json_int (re_Size f)), (''sha256'', json_bytes (re_SHA256 f)),
            (''mod_time'', json_time (re_ModTime f))]
           @ omit_if (re_RepoSize f = 0) (''repo_size'', json_int (re_RepoSize f))
           @ [(''repo_sha256'', json_bytes (re_RepoSHA256 f))])"

definition json_ResumeCheckpoint :: "ResumeCheckpoint \<Rightarrow> json" where
  "json_ResumeCheckpoint c =
     JObj ([(''version'', json_int (cp_Version c)),
            (''pgsafe_version'', JStr (cp_PgsafeVersion c)),
            (''backup_id'', JStr (cp_BackupID c)),
            (''backup_type'', JStr (cp_BackupType c))]
           @ omit_if (cp_ParentBackupID c = []) (''parent_backup_id'', JStr (cp_ParentBackupID c))
           @ [(''compression'', JStr (cp_Compression c)),
            (''encryption_recipients'', json_slice JStr (cp_EncryptionRecipients c)),
            (''system_identifier'', JNum (fmt_d (cp_SystemIdentifier c))),
            (''timeline'', JNum (fmt_d (cp_Timeline c))),
            (''start_lsn'', JNum (fmt_d (cp_StartLSN c))),
            (''start_time'', json_time (cp_StartTime c)),
            (''checkpointed_at'', json_time (cp_CheckpointedAt c)),
            (''files'', json_slice json_ResumeFileEntry (cp_Files c))])"

definition MarshalResumeCheckpoint :: "ResumeCheckpoint \<Rightarrow> bytes res" where
  "MarshalResumeCheckpoint c =
     (let c = (if cp_Version c = 0 then c\<lparr>cp_Version := ResumeCheckpointVersion\<rparr> else c)
      in if list_all time_in_range (cp_StartTime c # cp_CheckpointedAt c # map re_ModTime (slice_list (cp_Files c)))
         then Inr (json_MarshalIndent (json_ResumeCheckpoint c))
         else Inl (errors_New ''Time.MarshalJSON: year outside of range [0,9999]''))"

text \<open>\<open>parseRFC3339\<close>: the date and time, a fraction after a dot, and \<open>Z\<close> or an offset.\<close>

definition parse_zone :: "string \<Rightarrow> int option" where
  "parse_zone z =
     (if z = ''Z'' then Some 0
      else case z of
             [g, a, b, c, d, e] \<Rightarrow>
               if (g = CHR ''+'' \<or> g = CHR ''-'') \<and> c = CHR '':'' \<and> list_all is_digit [a, b, d, e] \<and> dnum [a, b] \<le> 23 \<and> dnum [d, e] \<le> 59
               then Some ((if g = CHR ''-'' then - 1 else 1) * (dnum [a, b] * 60 + dnum [d, e]) * 60)
               else None
           | _ \<Rightarrow> None)"

definition parse_rfc3339 :: "string \<Rightarrow> gotime option" where
  "parse_rfc3339 s =
     (if length s < 19 then None
      else let (ns, zone) = (if take 1 (drop 19 s) = ''.'' then parse_fraction (drop 19 s) else (0, drop 19 s))
           in case (time_Parse ''T'' [] (take 19 s), parse_zone zone) of
                (Some t, Some off) \<Rightarrow> Some (t + ns - off * time_Second)
              | _ \<Rightarrow> None)"

definition dec_time :: "gotime dec" where
  "dec_time old v = (case v of JStr s \<Rightarrow> parse_rfc3339 s | JNull \<Rightarrow> Some old | _ \<Rightarrow> None)"

definition zero_ResumeFileEntry :: ResumeFileEntry where
  "zero_ResumeFileEntry = \<lparr>re_Path = [], re_Size = 0, re_SHA256 = zero32, re_ModTime = 0, re_RepoSize = 0, re_RepoSHA256 = zero32\<rparr>"

definition zero_ResumeCheckpoint :: ResumeCheckpoint where
  "zero_ResumeCheckpoint =
     \<lparr>cp_Version = 0, cp_PgsafeVersion = [], cp_BackupID = [], cp_BackupType = [], cp_ParentBackupID = [], cp_Compression = [],
      cp_EncryptionRecipients = None, cp_SystemIdentifier = 0, cp_Timeline = 0, cp_StartLSN = 0, cp_StartTime = 0,
      cp_CheckpointedAt = 0, cp_Files = None\<rparr>"

definition fields_ResumeFileEntry :: "(string \<times> ResumeFileEntry dec) list" where
  "fields_ResumeFileEntry =
     [(''path'', dec_field re_Path (\<lambda>a. re_Path_update (\<lambda>_. a)) dec_string),
      (''size'', dec_field re_Size (\<lambda>a. re_Size_update (\<lambda>_. a)) dec_int64),
      (''sha256'', dec_field re_SHA256 (\<lambda>a. re_SHA256_update (\<lambda>_. a)) dec_bytes32),
      (''mod_time'', dec_field re_ModTime (\<lambda>a. re_ModTime_update (\<lambda>_. a)) dec_time),
      (''repo_size'', dec_field re_RepoSize (\<lambda>a. re_RepoSize_update (\<lambda>_. a)) dec_int64),
      (''repo_sha256'', dec_field re_RepoSHA256 (\<lambda>a. re_RepoSHA256_update (\<lambda>_. a)) dec_bytes32)]"

definition fields_ResumeCheckpoint :: "(string \<times> ResumeCheckpoint dec) list" where
  "fields_ResumeCheckpoint =
     [(''version'', dec_field cp_Version (\<lambda>a. cp_Version_update (\<lambda>_. a)) dec_int64),
      (''pgsafe_version'', dec_field cp_PgsafeVersion (\<lambda>a. cp_PgsafeVersion_update (\<lambda>_. a)) dec_string),
      (''backup_id'', dec_field cp_BackupID (\<lambda>a. cp_BackupID_update (\<lambda>_. a)) dec_string),
      (''backup_type'', dec_field cp_BackupType (\<lambda>a. cp_BackupType_update (\<lambda>_. a)) dec_string),
      (''parent_backup_id'', dec_field cp_ParentBackupID (\<lambda>a. cp_ParentBackupID_update (\<lambda>_. a)) dec_string),
      (''compression'', dec_field cp_Compression (\<lambda>a. cp_Compression_update (\<lambda>_. a)) dec_string),
      (''encryption_recipients'',
         dec_field cp_EncryptionRecipients (\<lambda>a. cp_EncryptionRecipients_update (\<lambda>_. a)) (dec_slice dec_string [])),
      (''system_identifier'', dec_field cp_SystemIdentifier (\<lambda>a. cp_SystemIdentifier_update (\<lambda>_. a)) (dec_uint 64)),
      (''timeline'', dec_field cp_Timeline (\<lambda>a. cp_Timeline_update (\<lambda>_. a)) (dec_uint 32)),
      (''start_lsn'', dec_field cp_StartLSN (\<lambda>a. cp_StartLSN_update (\<lambda>_. a)) (dec_uint 64)),
      (''start_time'', dec_field cp_StartTime (\<lambda>a. cp_StartTime_update (\<lambda>_. a)) dec_time),
      (''checkpointed_at'', dec_field cp_CheckpointedAt (\<lambda>a. cp_CheckpointedAt_update (\<lambda>_. a)) dec_time),
      (''files'', dec_field cp_Files (\<lambda>a. cp_Files_update (\<lambda>_. a)) (dec_slice (dec_struct fields_ResumeFileEntry) zero_ResumeFileEntry))]"

definition UnmarshalResumeCheckpoint :: "bytes \<Rightarrow> ResumeCheckpoint res" where
  "UnmarshalResumeCheckpoint data =
     (case json_Decode data of
        None \<Rightarrow> Inl (errors_New ''manifest: decode resume checkpoint: syntax error'')
      | Some v \<Rightarrow>
          (case dec_struct fields_ResumeCheckpoint zero_ResumeCheckpoint v of
             None \<Rightarrow> Inl (errors_New ''manifest: decode resume checkpoint: bad or unknown field'')
           | Some c \<Rightarrow>
               if cp_Version c \<noteq> ResumeCheckpointVersion
               then Inl (errors_New (''manifest: resume checkpoint version '' @ fmt_int (cp_Version c) @ '', want '' @ fmt_int ResumeCheckpointVersion))
               else Inr c))"


section \<open>Writing checkpoints\<close>

definition resumeCheckpointFilename :: string where "resumeCheckpointFilename = ''backup_manifest.copy''"
definition DefaultResumeCheckpointEveryN :: int where "DefaultResumeCheckpointEveryN = 10"

text \<open>The fields of \<open>Options\<close> that this part reads.\<close>

record resume_options =
  rs_PgsafeVersion :: string
  rs_Type :: string
  rs_ParentBackupID :: string
  rs_Compression :: string
  rs_Recipients :: "string slice"
  rs_ResumeDisabled :: bool
  rs_ResumeCheckpointEveryN :: int
  rs_ResumeGracePeriod :: duration

record resumeCheckpointer =
  rc_backupID :: string
  rc_every :: int
  rc_staticMeta :: ResumeCheckpoint
  rc_counter :: int
  rc_disabled :: bool

definition newResumeCheckpointer :: "resume_options \<Rightarrow> string \<Rightarrow> gotime \<Rightarrow> nat \<Rightarrow> nat \<Rightarrow> nat \<Rightarrow> resumeCheckpointer option" where
  "newResumeCheckpointer opts backupID startedAt sysID timeline startLSN =
     (let every = (if rs_ResumeCheckpointEveryN opts = 0 then DefaultResumeCheckpointEveryN else rs_ResumeCheckpointEveryN opts)
      in if rs_ResumeDisabled opts \<or> every \<le> 0 then None
         else Some \<lparr>rc_backupID = backupID, rc_every = every,
                rc_staticMeta = zero_ResumeCheckpoint
                  \<lparr>cp_Version := ResumeCheckpointVersion, cp_PgsafeVersion := rs_PgsafeVersion opts, cp_BackupID := backupID,
                   cp_BackupType := rs_Type opts, cp_ParentBackupID := rs_ParentBackupID opts, cp_Compression := rs_Compression opts,
                   cp_EncryptionRecipients := rs_Recipients opts, cp_SystemIdentifier := sysID, cp_Timeline := timeline,
                   cp_StartLSN := startLSN, cp_StartTime := startedAt\<rparr>,
                rc_counter = 0, rc_disabled = False\<rparr>)"

definition flush :: "('s, 'w) Backend \<Rightarrow> resumeCheckpointer \<Rightarrow> gotime \<Rightarrow> Builder \<Rightarrow> ('s, unit) op" where
  "flush b rc now mb s =
     (let cp = (rc_staticMeta rc)\<lparr>cp_CheckpointedAt := now, cp_Files := Some (AccumulatedFiles mb)\<rparr>
      in case MarshalResumeCheckpoint cp of
           Inl e \<Rightarrow> (Inl (wrapErr ''marshal'' e), s)
         | Inr body \<Rightarrow>
             (let final = path_Join [rc_backupID rc, resumeCheckpointFilename];
                  tmp = final @ ''.staging''
              in case b_Delete b final s of
                   (r, s1) \<Rightarrow>
                     (case (case r of Inl e \<Rightarrow> if errors_Is e ErrNotExist then None else Some e | Inr _ \<Rightarrow> None) of
                       Some e \<Rightarrow> (Inl (wrapErr ''backend.Delete prior checkpoint'' e), s1)
                     | None \<Rightarrow>
                         (case b_Put b tmp s1 of
                            (Inl e, s2) \<Rightarrow> (Inl (wrapErr ''backend.Put'' e), s2)
                          | (Inr wc, s2) \<Rightarrow>
                              (case b_Write b wc body s2 of
                                 (Inl e, s3) \<Rightarrow> (Inl (wrapErr ''backend.Write'' e), snd (b_Close b wc s3))
                               | (Inr _, s3) \<Rightarrow>
                                   (case b_Close b wc s3 of
                                      (Inl e, s4) \<Rightarrow> (Inl (wrapErr ''backend.Close'' e), s4)
                                    | (Inr _, s4) \<Rightarrow>
                                        (case b_Commit b tmp final s4 of
                                           (Inl e, s5) \<Rightarrow> (Inl (wrapErr ''backend.Commit'' e), s5)
                                         | (Inr _, s5) \<Rightarrow> (Inr (), s5))))))))"

definition onAddFile :: "('s, 'w) Backend \<Rightarrow> resumeCheckpointer option \<Rightarrow> gotime \<Rightarrow> Builder \<Rightarrow> 's \<Rightarrow> resumeCheckpointer option \<times> 's" where
  "onAddFile b rc now mb s =
     (case rc of
        None \<Rightarrow> (None, s)
      | Some c \<Rightarrow>
          if rc_disabled c then (rc, s)
          else let c = c\<lparr>rc_counter := rc_counter c + 1\<rparr>
               in if rc_counter c mod rc_every c \<noteq> 0 then (Some c, s)
                  else case flush b c now mb s of
                         (Inl _, s1) \<Rightarrow> (Some (c\<lparr>rc_disabled := True\<rparr>), s1)
                       | (Inr _, s1) \<Rightarrow> (Some c, s1))"


section \<open>Finding a backup to resume\<close>

record resumeGate =
  rg_PgsafeVersion :: string
  rg_BackupType :: string
  rg_ParentBackupID :: string
  rg_Compression :: string
  rg_EncryptionRecipients :: "string slice"
  rg_SystemIdentifier :: nat

definition stringSliceEqual :: "string slice \<Rightarrow> string slice \<Rightarrow> bool" where
  "stringSliceEqual a b \<longleftrightarrow> slice_list a = slice_list b"

definition checkpointMatches :: "ResumeCheckpoint \<Rightarrow> resumeGate \<Rightarrow> bool" where
  "checkpointMatches cp gate \<longleftrightarrow>
     cp_PgsafeVersion cp = rg_PgsafeVersion gate \<and> cp_BackupType cp = rg_BackupType gate \<and>
     cp_ParentBackupID cp = rg_ParentBackupID gate \<and> cp_Compression cp = rg_Compression gate \<and>
     cp_SystemIdentifier cp = rg_SystemIdentifier gate \<and>
     stringSliceEqual (cp_EncryptionRecipients cp) (rg_EncryptionRecipients gate)"

definition looksLikeBackupID :: "string \<Rightarrow> bool" where
  "looksLikeBackupID s \<longleftrightarrow>
     \<not> (length s < 16 \<or> s ! 8 \<noteq> CHR ''T'') \<and> list_all (\<lambda>i. is_digit (s ! i)) [0..<8] \<and> list_all (\<lambda>i. is_digit (s ! i)) [9..<15] \<and>
     (s ! 15 = CHR ''F'' \<or> s ! 15 = CHR ''I'')"

definition first_component :: "string \<Rightarrow> string option" where
  "first_component p =
     (let d = takeWhile (\<lambda>c. c \<noteq> CHR ''/'') p in if d = [] \<or> d = p \<or> \<not> looksLikeBackupID d then None else Some d)"

definition candidateBackupIDs :: "FileInfo list \<Rightarrow> string list" where
  "candidateBackupIDs infos = rev (sort (remdups (List.map_filter (\<lambda>fi. first_component (fi_Path fi)) infos)))"

fun reap_loop :: "('s, 'w) Backend \<Rightarrow> string \<Rightarrow> FileInfo list \<Rightarrow> 's \<Rightarrow> 's" where
  "reap_loop b pre [] s = s"
| "reap_loop b pre (fi # fis) s =
     (if \<not> strings_HasPrefix (fi_Path fi) pre then reap_loop b pre fis s
      else reap_loop b pre fis (snd (b_Delete b (fi_Path fi) s)))"

definition reapAbandoned :: "('s, 'w) Backend \<Rightarrow> string \<Rightarrow> FileInfo list \<Rightarrow> 's \<Rightarrow> 's" where
  "reapAbandoned b d infos s = reap_loop b (d @ ''/'') infos s"

definition too_old :: "duration \<Rightarrow> gotime \<Rightarrow> ResumeCheckpoint \<Rightarrow> bool" where
  "too_old grace now cp \<longleftrightarrow> 0 < grace \<and> \<not> IsZero (cp_CheckpointedAt cp) \<and> grace < time_Sub now (cp_CheckpointedAt cp)"

fun resume_loop :: "('s, 'w) Backend \<Rightarrow> resumeGate \<Rightarrow> duration \<Rightarrow> gotime \<Rightarrow> FileInfo list \<Rightarrow> string list \<Rightarrow> ('s, ResumeCheckpoint option) op" where
  "resume_loop b gate grace now infos [] s = (Inr None, s)"
| "resume_loop b gate grace now infos (d # ds) s =
     (case b_Stat b (path_Join [d, ''backup_manifest'']) s of
        (Inr _, s1) \<Rightarrow> resume_loop b gate grace now infos ds s1
      | (Inl e1, s1) \<Rightarrow>
          if \<not> errors_Is e1 ErrNotExist then (Inl (wrapErr (''findResumable: stat '' @ d @ ''/backup_manifest'') e1), s1)
          else
            (let copyRel = path_Join [d, resumeCheckpointFilename] in
             case b_Stat b copyRel s1 of
               (Inl e2, s2) \<Rightarrow>
                 if errors_Is e2 ErrNotExist then resume_loop b gate grace now infos ds s2
                 else (Inl (wrapErr (''findResumable: stat '' @ copyRel) e2), s2)
             | (Inr _, s2) \<Rightarrow>
                 (case get_body b copyRel s2 of
                    (Inl e3, s3) \<Rightarrow> (Inl (wrapErr (''findResumable: read '' @ copyRel) e3), s3)
                  | (Inr body, s3) \<Rightarrow>
                      (case UnmarshalResumeCheckpoint body of
                         Inl _ \<Rightarrow> resume_loop b gate grace now infos ds (reapAbandoned b d infos s3)
                       | Inr cp \<Rightarrow>
                           if too_old grace now cp then resume_loop b gate grace now infos ds (reapAbandoned b d infos s3)
                           else if \<not> checkpointMatches cp gate then resume_loop b gate grace now infos ds s3
                           else (Inr (Some cp), s3)))))"

definition findResumable :: "('s, 'w) Backend \<Rightarrow> resumeGate \<Rightarrow> duration \<Rightarrow> gotime \<Rightarrow> ('s, ResumeCheckpoint option) op" where
  "findResumable b gate grace now s =
     (case b_List b [] s of
        (Inl e, s1) \<Rightarrow> (Inl (wrapErr ''findResumable: list'' e), s1)
      | (Inr infos, s1) \<Rightarrow> resume_loop b gate grace now infos (candidateBackupIDs infos) s1)"

definition tryResume :: "('s, 'w) Backend \<Rightarrow> resume_options \<Rightarrow> nat \<Rightarrow> gotime \<Rightarrow> ('s, ResumeCheckpoint option) op" where
  "tryResume b opts sysID now s =
     (if rs_ResumeDisabled opts then (Inr None, s)
      else let bt = (if rs_Type opts = [] then BackupTypeFull else rs_Type opts);
               gate = \<lparr>rg_PgsafeVersion = rs_PgsafeVersion opts, rg_BackupType = bt, rg_ParentBackupID = rs_ParentBackupID opts,
                       rg_Compression = rs_Compression opts, rg_EncryptionRecipients = rs_Recipients opts, rg_SystemIdentifier = sysID\<rparr>
           in findResumable b gate (rs_ResumeGracePeriod opts) now s)"


section \<open>Reusing its files\<close>

definition reusableSkipPath :: "string \<Rightarrow> bool" where
  "reusableSkipPath p \<longleftrightarrow> p \<in> {''backup_label'', ''backup_manifest'', ''tablespace_map''}"

definition storageRepoSHAMatches :: "('s, 'w) Backend \<Rightarrow> string \<Rightarrow> int \<Rightarrow> bytes \<Rightarrow> ('s, bool) op" where
  "storageRepoSHAMatches b rel expSize expSHA s =
     (case b_Stat b rel s of
        (Inl e, s1) \<Rightarrow> (if errors_Is e ErrNotExist then Inr False else Inl e, s1)
      | (Inr fi, s1) \<Rightarrow>
          if fi_Size fi \<noteq> expSize then (Inr False, s1)
          else (case b_Get b rel s1 of
                  (Inl e, s2) \<Rightarrow> (Inl e, s2)
                | (Inr rc, s2) \<Rightarrow>
                    (case io_ReadAll rc of
                       Inl e \<Rightarrow> (Inl e, s2)
                     | Inr d \<Rightarrow> (Inr (sha256 d = expSHA), s2))))"

type_synonym reusablePlan = "string \<rightharpoonup> ResumeFileEntry"

fun clean_loop :: "('s, 'w) Backend \<Rightarrow> string \<Rightarrow> ResumeFileEntry list \<Rightarrow> reusablePlan \<Rightarrow> 's \<Rightarrow> reusablePlan \<times> 's" where
  "clean_loop b d [] plan s = (plan, s)"
| "clean_loop b d (f # fs) plan s =
     (if reusableSkipPath (re_Path f) \<or> re_RepoSize f = 0 \<or> re_RepoSHA256 f = zero32 then clean_loop b d fs plan s
      else let rel = path_Join [d, re_Path f] in
           case storageRepoSHAMatches b rel (re_RepoSize f) (re_RepoSHA256 f) s of
             (Inl _, s1) \<Rightarrow> clean_loop b d fs plan s1
           | (Inr ok, s1) \<Rightarrow>
               if \<not> ok then clean_loop b d fs plan (snd (b_Delete b rel s1))
               else clean_loop b d fs (plan(re_Path f \<mapsto> f)) s1)"

definition cleanResumable :: "('s, 'w) Backend \<Rightarrow> ResumeCheckpoint \<Rightarrow> 's \<Rightarrow> reusablePlan \<times> 's" where
  "cleanResumable b cp s = clean_loop b (cp_BackupID cp) (slice_list (cp_Files cp)) Map.empty s"

text \<open>
  The branch of the loop over the tar entries that reuses a file (\<open>backup.go\<close>): the entry is drained and the earlier record goes
  into the manifest. \<open>None\<close> when the file is not in the plan.
\<close>

definition reuse_entry :: "reusablePlan option \<Rightarrow> string \<Rightarrow> gotime \<Rightarrow> reader \<Rightarrow> Builder \<Rightarrow> Builder res option" where
  "reuse_entry plan name modTime r mb =
     (case plan of
        None \<Rightarrow> None
      | Some p \<Rightarrow>
          (case p name of
             None \<Rightarrow> None
           | Some reused \<Rightarrow>
               (case r of
                  (_, Some e) \<Rightarrow> Some (Inl (wrapErr (''backup: drain reused '' @ name) e))
                | (_, None) \<Rightarrow>
                    Some (Inr (SetLatestRepoChecksum (re_RepoSize reused) (re_RepoSHA256 reused)
                                (AddFile name (re_Size reused) (re_SHA256 reused) modTime mb))))))"


section \<open>What the search deletes\<close>

text \<open>A key below the directory \<open>d\<close>.\<close>

definition below :: "string \<Rightarrow> string \<Rightarrow> bool" where
  "below d k \<longleftrightarrow> strings_HasPrefix k (d @ ''/'')"

text \<open>The checkpoint that a search may return: of a directory without a manifest, young enough, and written by a matching run.\<close>

definition resumed_from :: "(string \<Rightarrow> bytes option) \<Rightarrow> resumeGate \<Rightarrow> duration \<Rightarrow> gotime \<Rightarrow> string \<Rightarrow> ResumeCheckpoint \<Rightarrow> bool" where
  "resumed_from v gate grace now d cp \<longleftrightarrow>
     v (path_Join [d, ''backup_manifest'']) = None \<and>
     (\<exists>body. v (path_Join [d, resumeCheckpointFilename]) = Some body \<and> UnmarshalResumeCheckpoint body = Inr cp) \<and>
     \<not> too_old grace now cp \<and> checkpointMatches cp gate"

lemma below_unique:
  assumes "below d k" "below d' k" "CHR ''/'' \<notin> set d" "CHR ''/'' \<notin> set d'"
  shows "d = d'"
proof -
  have *: "takeWhile (\<lambda>c. c \<noteq> CHR ''/'') k = e" if "below e k" "CHR ''/'' \<notin> set e" for e
    using that by (auto simp: below_def prefix_def takeWhile_append)
  show ?thesis using * [OF assms(1,3)] * [OF assms(2,4)] by simp
qed

lemma first_component_Some:
  "first_component p = Some d \<Longrightarrow> looksLikeBackupID d \<and> CHR ''/'' \<notin> set d"
  by (auto simp: first_component_def Let_def split: if_splits dest: set_takeWhileD)

lemma candidateBackupIDs_ok:
  "d \<in> set (candidateBackupIDs infos) \<Longrightarrow> looksLikeBackupID d \<and> CHR ''/'' \<notin> set d"
  by (auto simp: candidateBackupIDs_def map_filter_def dest: first_component_Some split: option.splits)

lemma distinct_candidateBackupIDs: "distinct (candidateBackupIDs infos)"
  by (simp add: candidateBackupIDs_def)

lemma looksLikeBackupID_plain: "looksLikeBackupID d \<Longrightarrow> plain_comp d"
  by (auto simp: looksLikeBackupID_def plain_comp_def)

context storage_backend
begin

lemma reap_loop_facts:
  assumes "inv s" "\<forall>fi \<in> set fis. key (fi_Path fi)"
  shows "inv (reap_loop B pre fis s) \<and>
    (\<forall>k. view (reap_loop B pre fis s) k = view s k \<or> strings_HasPrefix k pre \<and> view (reap_loop B pre fis s) k = None)"
  using assms
proof (induction fis arbitrary: s)
  case (Cons fi fis)
  obtain r s1 where d: "b_Delete B (fi_Path fi) s = (r, s1)" by fastforce
  have d': "inv s1 \<and> (view s1 = view s \<or> view s1 = (view s)(fi_Path fi := None))"
    using delete_cases [OF Cons.prems(1) _ d] Cons.prems(2) by simp
  show ?case
  proof (cases "strings_HasPrefix (fi_Path fi) pre")
    case True
    have ih: "inv (reap_loop B pre fis s1)" "\<And>k. view (reap_loop B pre fis s1) k = view s1 k \<or> strings_HasPrefix k pre \<and> view (reap_loop B pre fis s1) k = None"
      using Cons.IH [of s1] d' Cons.prems(2) by auto
    have "view (reap_loop B pre fis s1) k = view s k \<or> strings_HasPrefix k pre \<and> view (reap_loop B pre fis s1) k = None" for k
      using ih(2) [of k] d' True by (cases "k = fi_Path fi") auto
    then show ?thesis using True ih(1) by (simp add: d)
  next
    case False
    then show ?thesis using Cons by simp
  qed
qed simp

lemma resume_loop_head:
  assumes inv: "inv s" and keys: "\<forall>fi \<in> set infos. key (fi_Path fi)" "key (path_Join [d, ''backup_manifest''])" "key (path_Join [d, resumeCheckpointFilename])"
    and run: "resume_loop B gate grace now infos (d # ds) s = (res, s')"
  obtains (err) e where "res = Inl e" "inv s'" "view s' = view s"
  | (found) cp where "res = Inr (Some cp)" "inv s'" "view s' = view s" "resumed_from (view s) gate grace now d cp"
  | (goes) s4 where "resume_loop B gate grace now infos ds s4 = (res, s')" "inv s4"
      "view s4 = view s \<or> view s (path_Join [d, ''backup_manifest'']) = None \<and> (\<forall>k. view s4 k = view s k \<or> below d k \<and> view s4 k = None)"
proof -
  let ?m = "path_Join [d, ''backup_manifest'']" and ?c = "path_Join [d, resumeCheckpointFilename]"
  obtain r1 s1 where 1: "b_Stat B ?m s = (r1, s1)" by fastforce
  have v1: "inv s1" "view s1 = view s" using stat [OF inv keys(2) 1] by auto
  show thesis
  proof (cases "\<exists>e. r1 = Inl e \<and> errors_Is e ErrNotExist")
    case False
    with run 1 v1 err goes show thesis by (cases r1) (auto split: if_splits)
  next
    case True
    then have none: "view s ?m = None" using stat_missing [OF inv keys(2)] 1 by blast
    obtain r2 s2 where 2: "b_Stat B ?c s1 = (r2, s2)" by fastforce
    have v2: "inv s2" "view s2 = view s" using stat [OF v1(1) keys(3) 2] v1 by auto
    show thesis
    proof (cases r2)
      case (Inl e)
      with run 1 2 True v2 err goes show thesis by (auto split: if_splits)
    next
      case (Inr fi)
      obtain r3 s3 where 3: "get_body B ?c s2 = (r3, s3)" by fastforce
      have v3: "inv s3" "view s3 = view s" "\<And>body. r3 = Inr body \<Longrightarrow> view s ?c = Some body"
        using get_body_facts [OF v2(1) keys(3)] 3 v2 by auto
      have reap: "inv (reapAbandoned B d infos s3)"
        "\<forall>k. view (reapAbandoned B d infos s3) k = view s k \<or> below d k \<and> view (reapAbandoned B d infos s3) k = None"
        using reap_loop_facts [OF v3(1) keys(1), of "d @ ''/''"] v3(2) by (auto simp: reapAbandoned_def below_def)
      show thesis
      proof (cases r3)
        case (Inl e)
        with run 1 2 3 True Inr v3 err show thesis by auto
      next
        case b: (Inr body)
        show thesis
        proof (cases "\<exists>cp. UnmarshalResumeCheckpoint body = Inr cp \<and> \<not> too_old grace now cp")
          case False
          then have "resume_loop B gate grace now infos ds (reapAbandoned B d infos s3) = (res, s')"
            using run 1 2 3 True Inr b by (cases "UnmarshalResumeCheckpoint body") auto
          then show thesis using goes reap none by blast
        next
          case ok: True
          then obtain cp where cp: "UnmarshalResumeCheckpoint body = Inr cp" "\<not> too_old grace now cp" by blast
          show thesis
          proof (cases "checkpointMatches cp gate")
            case True
            then have "resumed_from (view s) gate grace now d cp" using cp none v3(3) [OF b] by (auto simp: resumed_from_def)
            moreover have "res = Inr (Some cp)" "s' = s3" using run 1 2 3 \<open>\<exists>e. r1 = Inl e \<and> errors_Is e ErrNotExist\<close> Inr b cp True by auto
            ultimately show thesis using found v3 by blast
          next
            case False
            then have "resume_loop B gate grace now infos ds s3 = (res, s')"
              using run 1 2 3 \<open>\<exists>e. r1 = Inl e \<and> errors_Is e ErrNotExist\<close> Inr b cp by auto
            then show thesis using goes v3 by blast
          qed
        qed
      qed
    qed
  qed
qed

lemma resume_loop_facts:
  assumes "inv s" "\<forall>fi \<in> set infos. key (fi_Path fi)" "distinct ds"
    "\<forall>d \<in> set ds. CHR ''/'' \<notin> set d \<and> key (path_Join [d, ''backup_manifest'']) \<and> key (path_Join [d, resumeCheckpointFilename]) \<and>
       below d (path_Join [d, ''backup_manifest'']) \<and> below d (path_Join [d, resumeCheckpointFilename])"
    "resume_loop B gate grace now infos ds s = (res, s')"
  shows "inv s' \<and>
    (\<forall>k. view s' k = view s k \<or> (\<exists>d \<in> set ds. below d k \<and> view s (path_Join [d, ''backup_manifest'']) = None \<and> view s' k = None)) \<and>
    (\<forall>cp. res = Inr (Some cp) \<longrightarrow> (\<exists>d \<in> set ds. resumed_from (view s) gate grace now d cp))"
  using assms
proof (induction ds arbitrary: s)
  case (Cons d ds)
  have kd: "key (path_Join [d, ''backup_manifest''])" "key (path_Join [d, resumeCheckpointFilename])" "CHR ''/'' \<notin> set d" using Cons.prems(4) by auto
  from Cons.prems(1,2) kd(1,2) Cons.prems(5) show ?case
  proof (cases rule: resume_loop_head)
    case (err e)
    then show ?thesis by auto
  next
    case (found cp)
    then show ?thesis by auto
  next
    case (goes s4)
    have same: "view s4 (path_Join [d', x]) = view s (path_Join [d', x])" if h: "d' \<in> set ds" "below d' (path_Join [d', x])" for d' x
    proof -
      have "d' \<noteq> d" "CHR ''/'' \<notin> set d'" using h(1) Cons.prems(3,4) by auto
      then have "\<not> below d (path_Join [d', x])" using below_unique [OF h(2)] kd(3) by blast
      then show ?thesis using goes(3) by auto
    qed
    have prem: "\<forall>d' \<in> set ds. below d' (path_Join [d', ''backup_manifest'']) \<and> below d' (path_Join [d', resumeCheckpointFilename])"
      using Cons.prems(4) by simp
    have ih: "inv s'" "\<And>k. view s' k = view s4 k \<or> (\<exists>d \<in> set ds. below d k \<and> view s4 (path_Join [d, ''backup_manifest'']) = None \<and> view s' k = None)"
      "\<And>cp. res = Inr (Some cp) \<Longrightarrow> \<exists>d \<in> set ds. resumed_from (view s4) gate grace now d cp"
      using Cons.IH [OF goes(2) Cons.prems(2) _ _ goes(1)] Cons.prems(3,4) by auto
    have "view s' k = view s k \<or> (\<exists>d' \<in> set (d # ds). below d' k \<and> view s (path_Join [d', ''backup_manifest'']) = None \<and> view s' k = None)" for k
    proof (cases "view s' k = view s4 k")
      case True
      then show ?thesis using goes(3) by (auto split: if_splits)
    next
      case False
      then obtain d' where "d' \<in> set ds" "below d' k" "view s4 (path_Join [d', ''backup_manifest'']) = None" "view s' k = None" using ih(2) [of k] by blast
      then show ?thesis using same [of d' "''backup_manifest''"] prem by auto
    qed
    moreover have "\<exists>d' \<in> set (d # ds). resumed_from (view s) gate grace now d' cp" if h: "res = Inr (Some cp)" for cp
    proof -
      obtain d' where d': "d' \<in> set ds" "resumed_from (view s4) gate grace now d' cp" using ih(3) [OF h] by blast
      then have "resumed_from (view s) gate grace now d' cp"
        using same [of d' "''backup_manifest''"] same [of d' resumeCheckpointFilename] prem by (simp add: resumed_from_def)
      with d'(1) show ?thesis by auto
    qed
    ultimately show ?thesis using ih(1) by blast
  qed
qed auto

end

section \<open>What the check of the files leaves\<close>

text \<open>A backend whose \<open>Stat\<close> reports the length of what a reader finds.\<close>

locale sized_backend = storage_backend B view key inv writing
  for B :: "('s, 'w) Backend" and view key inv writing +
  assumes stat_size: "inv s \<Longrightarrow> key p \<Longrightarrow> b_Stat B p s = (Inr fi, s') \<Longrightarrow> view s p = Some d \<Longrightarrow> fi_Size fi = int (length d)"

text \<open>The bytes that the checkpoint recorded for a file are still stored.\<close>

definition intact :: "(string \<Rightarrow> bytes option) \<Rightarrow> string \<Rightarrow> ResumeFileEntry \<Rightarrow> bool" where
  "intact v d f \<longleftrightarrow>
     (\<exists>x. v (path_Join [d, re_Path f]) = Some x \<and> int (length x) = re_RepoSize f \<and> sha256 x = re_RepoSHA256 f)"

context sized_backend
begin

lemma storageRepoSHAMatches_facts:
  assumes "inv s" "key (path_Join [d, re_Path f])"
    "storageRepoSHAMatches B (path_Join [d, re_Path f]) (re_RepoSize f) (re_RepoSHA256 f) s = (res, s')"
  shows "inv s' \<and> view s' = view s \<and> (\<forall>ok. res = Inr ok \<longrightarrow> ok = intact (view s) d f)"
proof -
  let ?p = "path_Join [d, re_Path f]"
  obtain r1 s1 where 1: "b_Stat B ?p s = (r1, s1)" by fastforce
  have v1: "inv s1" "view s1 = view s" using stat [OF assms(1,2) 1] by auto
  show ?thesis
  proof (cases r1)
    case (Inl e)
    then show ?thesis using assms(3) 1 v1 stat_missing [OF assms(1,2)]
      by (auto simp: storageRepoSHAMatches_def intact_def split: if_splits)
  next
    case (Inr fi)
    have size: "view s ?p = Some x \<Longrightarrow> fi_Size fi = int (length x)" for x using stat_size [OF assms(1,2)] 1 Inr by blast
    show ?thesis
    proof (cases "fi_Size fi = re_RepoSize f")
      case False
      then show ?thesis using assms(3) 1 Inr v1 size by (auto simp: storageRepoSHAMatches_def intact_def)
    next
      case True
      obtain r2 s2 where 2: "b_Get B ?p s1 = (r2, s2)" by fastforce
      have v2: "inv s2" "view s2 = view s" using get [OF v1(1) assms(2) 2] v1 by auto
      have dat: "view s ?p = Some x" if "r2 = Inr (x, None)" for x using get_data [OF v1(1) assms(2)] 2 that v1(2) by simp
      show ?thesis
        using assms(3) 1 Inr True 2 v2 size dat
        by (cases r2) (auto simp: storageRepoSHAMatches_def intact_def io_ReadAll_def split: option.splits prod.splits)
    qed
  qed
qed

lemma clean_loop_facts:
  assumes "inv s" "\<forall>f \<in> set fs. key (path_Join [d, re_Path f])" "distinct (map (\<lambda>f. path_Join [d, re_Path f]) fs)"
    "\<forall>p f. plan p = Some f \<longrightarrow> intact (view s) d f \<and> path_Join [d, re_Path f] \<notin> (\<lambda>f. path_Join [d, re_Path f]) ` set fs"
    "clean_loop B d fs plan s = (plan', s')"
  shows "inv s' \<and>
    (\<forall>p f. plan' p = Some f \<longrightarrow> intact (view s') d f \<and> (plan p = Some f \<or> f \<in> set fs \<and> re_Path f = p \<and> \<not> reusableSkipPath p)) \<and>
    (\<forall>k. view s' k = view s k \<or> view s' k = None \<and> (\<exists>f \<in> set fs. k = path_Join [d, re_Path f] \<and> \<not> intact (view s) d f))"
  using assms
proof (induction fs arbitrary: plan s)
  case (Cons f fs)
  let ?k = "path_Join [d, re_Path f]"
  have keys: "key ?k" "\<forall>f \<in> set fs. key (path_Join [d, re_Path f])" "distinct (map (\<lambda>f. path_Join [d, re_Path f]) fs)"
    "?k \<notin> (\<lambda>f. path_Join [d, re_Path f]) ` set fs" using Cons.prems(2,3) by auto
  note plan = Cons.prems(4)
  show ?case
  proof (cases "reusableSkipPath (re_Path f) \<or> re_RepoSize f = 0 \<or> re_RepoSHA256 f = zero32")
    case True
    then have "clean_loop B d fs plan s = (plan', s')" using Cons.prems(5) by simp
    from Cons.IH [OF Cons.prems(1) keys(2,3) _ this] plan show ?thesis by fastforce
  next
    case False
    obtain res s1 where 1: "storageRepoSHAMatches B ?k (re_RepoSize f) (re_RepoSHA256 f) s = (res, s1)" by fastforce
    have v1: "inv s1" "view s1 = view s" "\<And>ok. res = Inr ok \<Longrightarrow> ok = intact (view s) d f"
      using storageRepoSHAMatches_facts [OF Cons.prems(1) keys(1) 1] by auto
    consider (good) "res = Inr True" | (bad) "res = Inr False" | (err) e where "res = Inl e" by (cases res) auto
    then show ?thesis
    proof cases
      case good
      then have run: "clean_loop B d fs (plan(re_Path f \<mapsto> f)) s1 = (plan', s')" using Cons.prems(5) False 1 by (simp add: Let_def)
      have "\<forall>p g. (plan(re_Path f \<mapsto> f)) p = Some g \<longrightarrow>
          intact (view s1) d g \<and> path_Join [d, re_Path g] \<notin> (\<lambda>f. path_Join [d, re_Path f]) ` set fs"
        using plan v1 good keys(4) by auto
      note ih = Cons.IH [OF v1(1) keys(2,3) this run]
      have "intact (view s') d g \<and> (plan p = Some g \<or> g \<in> set (f # fs) \<and> re_Path g = p \<and> \<not> reusableSkipPath p)" if "plan' p = Some g" for p g
        using conjunct1 [OF conjunct2 [OF ih], rule_format, OF that] False by (cases "p = re_Path f") auto
      moreover have "view s' k = view s k \<or> view s' k = None \<and> (\<exists>g \<in> set (f # fs). k = path_Join [d, re_Path g] \<and> \<not> intact (view s) d g)" for k
        using conjunct2 [OF conjunct2 [OF ih], rule_format, of k] unfolding v1(2) by auto
      ultimately show ?thesis using conjunct1 [OF ih] by blast
    next
      case bad
      obtain r s2 where 2: "b_Delete B ?k s1 = (r, s2)" by fastforce
      have v2: "inv s2" "view s2 = view s \<or> view s2 = (view s)(?k := None)" using delete_cases [OF v1(1) keys(1) 2] v1(2) by auto
      have run: "clean_loop B d fs plan s2 = (plan', s')" using Cons.prems(5) False 1 2 bad by (simp add: Let_def)
      have same: "intact (view s2) d g = intact (view s) d g" if "path_Join [d, re_Path g] \<noteq> ?k" for g
        using that v2(2) by (auto simp: intact_def)
      have "\<forall>p g. plan p = Some g \<longrightarrow> intact (view s2) d g \<and> path_Join [d, re_Path g] \<notin> (\<lambda>f. path_Join [d, re_Path f]) ` set fs"
        using plan same by auto
      note ih = Cons.IH [OF v2(1) keys(2,3) this run]
      have "view s' k = view s k \<or> view s' k = None \<and> (\<exists>g \<in> set (f # fs). k = path_Join [d, re_Path g] \<and> \<not> intact (view s) d g)" for k
      proof (cases "k = ?k")
        case True
        have "\<not> (\<exists>g \<in> set fs. ?k = path_Join [d, re_Path g])" using keys(4) by blast
        then have "view s' ?k = view s2 ?k" using ih by blast
        then show ?thesis using True v2(2) v1(3) [OF bad] by auto
      next
        case False
        then have "view s2 k = view s k" using v2(2) by auto
        moreover have "\<not> intact (view s) d g" if "k = path_Join [d, re_Path g]" "\<not> intact (view s2) d g" for g
          using that same False by blast
        ultimately show ?thesis using conjunct2 [OF conjunct2 [OF ih], rule_format, of k] by auto
      qed
      then show ?thesis using ih by fastforce
    next
      case err
      then have run: "clean_loop B d fs plan s1 = (plan', s')" using Cons.prems(5) False 1 by (simp add: Let_def)
      have "\<forall>p g. plan p = Some g \<longrightarrow> intact (view s1) d g \<and> path_Join [d, re_Path g] \<notin> (\<lambda>f. path_Join [d, re_Path f]) ` set fs"
        using plan v1(2) by auto
      from Cons.IH [OF v1(1) keys(2,3) this run] v1(2) show ?thesis by fastforce
    qed
  qed
qed auto

end

interpretation psized: sized_backend "posix_backend r" "posix_view r" posix_key "posix_inv r" "posix_writing r"
  for r :: PosixBackend
proof (unfold_locales, goal_cases)
  case (1 s p fi s' d)
  then have "clean_rel p" by (simp add: posix_key_def)
  with 1 show ?case
    by (auto simp: posix_backend_def posix_Stat_def abs_path_key os_Stat_def posix_view_def file_at_def node_info_def
        split: prod.splits sum.splits option.splits node.splits dest: lookup_simps(2))
qed

section \<open>The properties\<close>

lemma candidate_keys:
  assumes "looksLikeBackupID d" "CHR ''/'' \<notin> set d" "x = ''backup_manifest'' \<or> x = resumeCheckpointFilename"
  shows "path_Join [d, x] = d @ CHR ''/'' # x" "posix_key (path_Join [d, x])" "below d (path_Join [d, x])"
proof -
  have x: "clean_rel x" "x \<noteq> []" "CHR ''/'' \<notin> set x" "\<not> strings_Contains x ''.pgsafe-tmp''"
    using assms(3) by (elim disjE; simp only: resumeCheckpointFilename_def; code_simp)+
  have d: "clean_rel d" using assms(1,2) looksLikeBackupID_plain clean_rel_single by blast
  show j: "path_Join [d, x] = d @ CHR ''/'' # x" by (rule path_Join_rel [OF d x(1)])
  show "posix_key (path_Join [d, x])" unfolding j posix_key_def using d x by (simp add: clean_rel_append path_Base_append)
  show "below d (path_Join [d, x])" by (simp add: j below_def)
qed

lemma findResumable_facts:
  assumes "posix_inv r s" "findResumable (posix_backend r) gate grace now s = (res, s')"
  shows "posix_inv r s' \<and>
    (\<forall>k. posix_view r s' k = posix_view r s k \<or>
       (\<exists>d. looksLikeBackupID d \<and> below d k \<and> posix_view r s (d @ ''/backup_manifest'') = None \<and> posix_view r s' k = None)) \<and>
    (\<forall>cp. res = Inr (Some cp) \<longrightarrow> (\<exists>d. resumed_from (posix_view r s) gate grace now d cp))"
proof -
  obtain x s1 where l: "b_List (posix_backend r) [] s = (x, s1)" by fastforce
  have v1: "posix_inv r s1" "posix_view r s1 = posix_view r s" using pstore.list [OF assms(1) _ l] by auto
  show ?thesis
  proof (cases x)
    case (Inl e)
    then show ?thesis using assms(2) l v1 by (auto simp: findResumable_def)
  next
    case (Inr infos)
    let ?ds = "candidateBackupIDs infos"
    have "set (map fi_Path infos) = {k. posix_view r s k \<noteq> None \<and> listed [] k}" using pstore.list_keys [OF assms(1) _ l [unfolded Inr]] by simp
    then have keys: "\<forall>fi \<in> set infos. posix_key (fi_Path fi)" using pstore.view_key [OF assms(1)] by auto
    have ds: "\<forall>d \<in> set ?ds. CHR ''/'' \<notin> set d \<and> posix_key (path_Join [d, ''backup_manifest'']) \<and> posix_key (path_Join [d, resumeCheckpointFilename]) \<and>
       below d (path_Join [d, ''backup_manifest'']) \<and> below d (path_Join [d, resumeCheckpointFilename])"
      using candidateBackupIDs_ok candidate_keys(2,3) by blast
    have run: "resume_loop (posix_backend r) gate grace now infos ?ds s1 = (res, s')" using assms(2) l Inr by (simp add: findResumable_def)
    note f = pstore.resume_loop_facts [OF v1(1) keys distinct_candidateBackupIDs ds run, unfolded v1(2)]
    have "\<forall>k. posix_view r s' k = posix_view r s k \<or>
       (\<exists>d. looksLikeBackupID d \<and> below d k \<and> posix_view r s (d @ ''/backup_manifest'') = None \<and> posix_view r s' k = None)"
      using conjunct1 [OF conjunct2 [OF f]] candidateBackupIDs_ok candidate_keys(1) [of _ "''backup_manifest''"] by (metis append_Cons append_Nil)
    then show ?thesis using f by blast
  qed
qed

text \<open>C17: The search for a backup to resume deletes no part of a finished backup. After \<open>findResumable\<close>, whatever its outcome, every stored file
  is as before, except files below the directory of a backup ID that has no \<open>backup_manifest\<close>, which may be gone; the WAL archive and all other
  keys are untouched. A checkpoint that it returns is stored in such a directory, decodes, is not past the grace period and agrees with the running backup in
  version, type, parent, compression, recipients and cluster.\<close>

theorem findResumable_spares_backups:
  assumes "posix_inv r s" "findResumable (posix_backend r) gate grace now s = (res, s')"
  shows "posix_inv r s' \<and>
    (\<forall>k. posix_view r s' k = posix_view r s k \<or>
       (\<exists>d. looksLikeBackupID d \<and> below d k \<and> posix_view r s (d @ ''/backup_manifest'') = None \<and> posix_view r s' k = None)) \<and>
    (\<forall>cp. res = Inr (Some cp) \<longrightarrow> (\<exists>d. resumed_from (posix_view r s) gate grace now d cp))"
  by (rule findResumable_facts [OF assms])

text \<open>C18: Only intact files of the earlier attempt are offered for reuse. Every entry of the plan of \<open>cleanResumable\<close> is a file of the checkpoint, none of
  \<open>backup_label\<close>, \<open>backup_manifest\<close> and \<open>tablespace_map\<close>, and after the check the storage holds, under the backup and path, bytes of the recorded length
  and SHA-256; every other key is as before, except files of the checkpoint that were not intact, which may be gone.\<close>

theorem cleanResumable_verifies:
  assumes "posix_inv r s" "\<forall>f \<in> set (slice_list (cp_Files cp)). posix_key (path_Join [cp_BackupID cp, re_Path f])"
    "distinct (map (\<lambda>f. path_Join [cp_BackupID cp, re_Path f]) (slice_list (cp_Files cp)))"
    "cleanResumable (posix_backend r) cp s = (plan, s')"
  shows "posix_inv r s' \<and>
    (\<forall>p f. plan p = Some f \<longrightarrow> f \<in> set (slice_list (cp_Files cp)) \<and> re_Path f = p \<and> \<not> reusableSkipPath p \<and> intact (posix_view r s') (cp_BackupID cp) f) \<and>
    (\<forall>k. posix_view r s' k = posix_view r s k \<or>
       posix_view r s' k = None \<and> (\<exists>f \<in> set (slice_list (cp_Files cp)). k = path_Join [cp_BackupID cp, re_Path f] \<and> \<not> intact (posix_view r s) (cp_BackupID cp) f))"
  using psized.clean_loop_facts [OF assms(1-3) _ assms(4) [unfolded cleanResumable_def]] by simp

text \<open>
  Reuse does not look at the bytes the server sends: whatever the content of the tar entry, the manifest gets the hash of the earlier attempt. A file
  that changed after the earlier attempt copied it, and before the start position of this one, is restored in its old state.
\<close>

lemma reuse_ignores_content:
  "plan name = Some f \<Longrightarrow>
   reuse_entry (Some plan) name t (d, None) mb = reuse_entry (Some plan) name t (d', None) mb \<and>
   (\<exists>mb'. reuse_entry (Some plan) name t (d, None) mb = Some (Inr mb') \<and> fr_sha256 (last (bu_files mb')) = re_SHA256 f)"
  by (simp add: reuse_entry_def SetLatestRepoChecksum_def AddFile_def Let_def list_update_append)

definition example_id :: string where "example_id = ''20250102T030405F''"

definition example_resume_store :: pfs where
  "example_resume_store = store_fs [example_id, ''20240102T030405F'']
     [(example_id @ ''/backup_manifest.copy'', ''{}''), (example_id @ ''/PG_VERSION'', ''17''), (''20240102T030405F/backup_manifest'', ''m'')]"

definition example_gate :: resumeGate where
  "example_gate = \<lparr>rg_PgsafeVersion = ''1'', rg_BackupType = ''full'', rg_ParentBackupID = [], rg_Compression = ''zstd'', rg_EncryptionRecipients = None,
     rg_SystemIdentifier = 7\<rparr>"

definition example_checkpoint :: ResumeCheckpoint where
  "example_checkpoint = zero_ResumeCheckpoint\<lparr>cp_BackupID := example_id,
     cp_Files := Some [\<lparr>re_Path = ''PG_VERSION'', re_Size = 2, re_SHA256 = sha256 ''17'', re_ModTime = 0, re_RepoSize = 2, re_RepoSHA256 = sha256 ''17''\<rparr>]\<rparr>"

lemma example_resume_store_facts:
  "posix_inv example_root example_resume_store" "posix_view example_root example_resume_store ''20240102T030405F/backup_manifest'' = Some ''m''"
proof -
  have ok: "store_ok [example_id, ''20240102T030405F''] (map fst [(example_id @ ''/backup_manifest.copy'', ''{}''), (example_id @ ''/PG_VERSION'', ''17''),
      (''20240102T030405F/backup_manifest'', ''m'')])"
    by (simp only: example_id_def) code_simp
  show "posix_inv example_root example_resume_store" unfolding example_resume_store_def by (rule store_fs_inv [OF ok])
  have k: "posix_key ''20240102T030405F/backup_manifest''" by code_simp
  show "posix_view example_root example_resume_store ''20240102T030405F/backup_manifest'' = Some ''m''"
    unfolding example_resume_store_def store_fs_view [OF ok] using k by (simp add: example_id_def)
qed

theorem findResumable_spares_backups_witness:
  "\<exists>res s'. findResumable (posix_backend example_root) example_gate 0 0 example_resume_store = (res, s') \<and>
     posix_view example_root s' ''20240102T030405F/backup_manifest'' = Some ''m''"
proof -
  obtain res s' where c: "findResumable (posix_backend example_root) example_gate 0 0 example_resume_store = (res, s')" by fastforce
  let ?k = "''20240102T030405F/backup_manifest''"
  note t = findResumable_spares_backups [OF example_resume_store_facts(1) c]
  have "posix_view example_root s' ?k = posix_view example_root example_resume_store ?k"
  proof (rule ccontr)
    assume "posix_view example_root s' ?k \<noteq> posix_view example_root example_resume_store ?k"
    then obtain d where d: "looksLikeBackupID d" "below d ?k" "posix_view example_root example_resume_store (d @ ''/backup_manifest'') = None"
      using conjunct1 [OF conjunct2 [OF t], rule_format, of ?k] by blast
    from d(2) obtain e where e: "?k = d @ CHR ''/'' # e" by (auto simp: below_def prefix_def)
    have "d = ''20240102T030405F''"
    proof -
      have "length d < length ?k" using arg_cong [OF e, of length] by simp
      moreover have "?k ! length d = CHR ''/''" using e by (simp add: nth_append)
      moreover have "\<forall>i < length ?k. ?k ! i = CHR ''/'' \<longrightarrow> i = 16" by (simp add: All_less_Suc) 
      ultimately have "length d = 16" by blast
      then show ?thesis using arg_cong [OF e, of "take 16"] by simp
    qed
    with d(3) example_resume_store_facts(2) show False by simp
  qed
  with c example_resume_store_facts(2) show ?thesis by auto
qed

theorem cleanResumable_verifies_witness:
  "\<exists>plan s'. cleanResumable (posix_backend example_root) example_checkpoint example_resume_store = (plan, s') \<and> posix_inv example_root s' \<and>
     plan ''backup_label'' = None"
proof -
  obtain plan s' where c: "cleanResumable (posix_backend example_root) example_checkpoint example_resume_store = (plan, s')" by fastforce
  have k: "posix_key (path_Join [example_id, ''PG_VERSION''])" by code_simp
  have "posix_inv example_root s' \<and> (\<forall>p f. plan p = Some f \<longrightarrow> \<not> reusableSkipPath p)"
    using cleanResumable_verifies [OF example_resume_store_facts(1) _ _ c] k by (simp add: example_checkpoint_def slice_list_def)
  moreover have "reusableSkipPath ''backup_label''" by (simp add: reusableSkipPath_def)
  ultimately show ?thesis using c by (metis not_None_eq)
qed

end
