(* ===== verification/Spec2Isabelle.thy ===== *)
theory Spec2Isabelle
  imports Posix_Crash Wal_Wait Multi_State Prune Restore_Total Restore_Chain Configuration Lock Page_Checksum Resume
begin

text \<open>
  pgSafe, a backup tool for PostgreSQL written in Go: a verification library.

  \<^bold>\<open>The program.\<close> A backup streams the files of a server through a filter chain (hash, compress, encrypt) into a storage, adds
  a PostgreSQL backup manifest and a JSON sidecar, and waits until the WAL it needs is archived. The storage may be several at once. \<open>info\<close> lists
  the backups, \<open>verify\<close> hashes them again, a retention policy selects those to expire and \<open>prune\<close> deletes them, \<open>restore\<close> puts a backup or a
  chain of incrementals back, and a lock file keeps commands apart. An interrupted backup leaves a checkpoint that a later run may resume. The parts meet at
  the interface \<open>Backend\<close> (\<open>internal/storage/storage.go\<close>): all of them read and write a storage only through its operations.

  \<^bold>\<open>How the code is modelled.\<close> Structs are records with the source's fields, enumerations are datatypes or strings as in the code, integers
  are words where they can wrap (\<open>u16\<close>, \<open>u32\<close>, \<open>u64\<close>) and \<open>int\<close> where they cannot. A function that can fail returns \<open>Inl\<close> the error or \<open>Inr\<close> the result,
  and one with effects takes and returns the state: \<open>('s, 'a) op\<close>. An error keeps the sentinel that \<open>errors.Is\<close> finds and its text; the quotes that
  \<open>%q\<close> puts around a value are left out of texts. A method of an interface is a field of a record of operations (\<open>Backend\<close>, \<open>OS\<close>, \<open>filters\<close>, \<open>Host\<close>), so that every component is
  defined over any implementation; what it relies on is a locale, interpreted on the model of the POSIX driver.

  \<^bold>\<open>Theories.\<close>
  \<^item> Language and library: \<open>Go_Prelude\<close> (errors, strings, paths), \<open>Go_Fmt\<close> (\<open>fmt\<close>, \<open>encoding/binary\<close>), \<open>Go_Utf8\<close>, \<open>Go_Json\<close> (\<open>encoding/json\<close>: printing,
    scanning and decoding into structs), \<open>Go_Time\<close> and \<open>Go_Calendar\<close> (instants, dates, their text), \<open>Sha256\<close> (FIPS 180-4).
  \<^item> \<open>Manifest\<close> (\<open>internal/manifest/manifest.go\<close>, \<open>incremental.go\<close>) and \<open>Sidecar\<close> (\<open>sidecar.go\<close>): what is written is read back,
    and the manifest is the JSON document it stands for.
  \<^item> \<open>Storage\<close>: the interface as the locale \<open>storage_backend\<close> (what a reader finds after each operation, failures included) and its extension
    \<open>named_backend\<close>. \<open>Posix_Fs\<close>, \<open>Posix\<close>, \<open>Posix_Dirs\<close> (\<open>internal/storage/posix/posix.go\<close>): a file system with names, inodes, pending directory updates and
    faults at any call; the driver satisfies the contract. \<open>Posix_Crash\<close>: after a crash at any point of \<open>Close\<close> a key holds the old or the whole new
    content. \<open>Posix_Example\<close> and \<open>Store_Example\<close> are the concrete storages of the examples.
  \<^item> \<open>Wal_Segments\<close> (\<open>internal/backup/wallag.go\<close>, \<open>parsers.go\<close>, \<open>walsource.go\<close>): segment names, ranges, the backup label. \<open>Local_Files\<close>, \<open>Archive\<close> (\<open>internal/wal/archive\<close>): push and get
    of segments, addressed by content. \<open>Wal_Wait\<close>: the wait for the archive ends, and what it records.
  \<^item> \<open>Tee_Writer\<close> (\<open>internal/storage/multi\<close>): goroutines and channels as a step relation; every schedule ends and each sink sees what it would see alone.
    \<open>Multi_State\<close> (\<open>internal/backup/backup.go\<close>): several backends, a failure of one not touching the others.
  \<^item> \<open>Filter_Chain\<close> (\<open>internal/filter\<close>), \<open>Page_Checksum\<close> (\<open>internal/filter/pagechecksum\<close>): what was wrapped is unwrapped; the page validator gives the verdict of the file however the reads are cut.
  \<^item> \<open>Info\<close> (\<open>internal/info\<close>), \<open>Retention\<close> and \<open>Prune\<close> (\<open>internal/retention\<close>): which backups are listed, which a plan keeps (with their chains), and
    that carrying it out deletes those of the plan and nothing that a kept backup needs.
  \<^item> \<open>Verify\<close> (\<open>internal/verify\<close>): a passing verify means that every file of the manifest decodes to its recorded hash.
  \<^item> \<open>Restore\<close> (\<open>internal/restore/restore.go\<close>, \<open>chain.go\<close>), \<open>Restore_Facts\<close> (the locale \<open>restore_host\<close>), \<open>Restore_Total\<close> (a restore of an intact
    backup succeeds and leaves every file), \<open>Restore_Chain\<close> (the chain that \<open>buildChain\<close> finds).
  \<^item> \<open>Resume\<close> (\<open>internal/backup/resume.go\<close>, \<open>internal/manifest/resume.go\<close>): checkpoints, the search that deletes only unfinished attempts, the check of reused files.
  \<^item> \<open>Configuration\<close> (\<open>internal/config\<close>): validation accepts the well-typed configurations. \<open>Lock\<close> (\<open>internal/lock\<close>): mutual exclusion over all interleavings
    of any number of processes, which may die.

  \<^bold>\<open>Bounds and fuel.\<close> The JSON scanner takes the length of the text plus one as fuel, which is enough because every call consumes a character, and nesting 10000 as
  \<open>encoding/json\<close> does. \<open>buildChain\<close> follows at most 64 parents, as in the code. \<open>io.Copy\<close> moves 32 KiB at a time. \<open>WaitForWAL\<close> and the loop over segments are
  partial functions, and that they return is proved. All other functions are total.

  \<^bold>\<open>Parameters.\<close> The codecs and age (\<open>filters\<close>), the YAML decoder and the parser of recipients (\<open>Configuration\<close>), \<open>pg_combinebackup\<close> (\<open>Restore\<close>), the clock, random bytes, the
  time zone database and the order in which Go walks a map are arguments. What is assumed of them is named in the theorems, and the witnesses instantiate them.

  \<^bold>\<open>Not modelled.\<close> The drive of a live server (\<open>internal/pg\<close>, the body of \<open>backup.Run\<close> around the parts above, the worker and proxy paths), RPC and SSH
  transport, the S3, GCS, Azure and SFTP drivers (adapters over client libraries, which would have to satisfy \<open>storage_backend\<close>), the command line, logging and
  printing: their behaviour is that of programs and libraries outside the repository.
\<close>

end
